(* ===== verification/Gust_Prelude.thy ===== *)
theory Gust_Prelude
  imports Main "HOL-Library.Word" "HOL-Library.Sublist" "HOL-Library.Code_Target_Nat"
begin

text \<open>
  Shared vocabulary of the development: machine-integer type synonyms, the \<open>Result\<close> sequencing
  operator that stands for the question-mark operator of Rust, the collections of simplification
  rules, and two generic interfaces.

  \<^item> \<open>codec\<close>: a printer and a partial parser such that parsing what was printed gives the value
    back. It is interpreted on every printer/parser pair of the model.
  \<^item> \<open>machine\<close>: an initial-state predicate, a step relation and an invariant kept by the steps.
    Every event loop of the program (supervisor, TCP accept loop, UDP session table, relay)
    interprets it.

  Rust strings are UTF-8 byte sequences and every index the program computes is a byte index;
  a \<open>char\<close> of HOL is one byte, so \<open>string\<close> is used for \<open>String\<close> and \<open>&str\<close>.
\<close>

section \<open>Types\<close>

type_synonym u8 = "8 word"
type_synonym u16 = "16 word"
type_synonym u32 = "32 word"
type_synonym u64 = "64 word"

text \<open>Bytes on the wire.\<close>
type_synonym bytes = "u8 list"

text \<open>\<open>std::time::Duration\<close>, in milliseconds: every duration of the program is a whole number of them.\<close>
type_synonym millis = nat

text \<open>\<open>Result<T, E>\<close>: \<open>Inl\<close> is \<open>Err\<close>, \<open>Inr\<close> is \<open>Ok\<close>.\<close>
type_synonym ('e, 'a) result = "'e + 'a"

abbreviation Err :: "'e \<Rightarrow> ('e, 'a) result" where "Err \<equiv> Inl"
abbreviation Ok :: "'a \<Rightarrow> ('e, 'a) result" where "Ok \<equiv> Inr"

named_theorems rust_text "evaluation and inversion rules of the string operations"
named_theorems rust_num "integer printing and parsing"
named_theorems rust_net "address printing and parsing"

section \<open>Result\<close>

text \<open>\<open>r?\<close> followed by the rest of the function.\<close>

definition and_then :: "('e, 'a) result \<Rightarrow> ('a \<Rightarrow> ('e, 'b) result) \<Rightarrow> ('e, 'b) result" where
  "and_then r f = (case r of Inl e \<Rightarrow> Inl e | Inr x \<Rightarrow> f x)"

definition map_err :: "('e \<Rightarrow> 'f) \<Rightarrow> ('e, 'a) result \<Rightarrow> ('f, 'a) result" where
  "map_err g r = (case r of Inl e \<Rightarrow> Inl (g e) | Inr x \<Rightarrow> Inr x)"

definition ok_or :: "'e \<Rightarrow> 'a option \<Rightarrow> ('e, 'a) result" where
  "ok_or e r = (case r of None \<Rightarrow> Inl e | Some x \<Rightarrow> Inr x)"

lemma and_then_simps [simp]:
  "and_then (Inl e) f = Inl e" "and_then (Inr x) f = f x"
  by (simp_all add: and_then_def)

lemma map_err_simps [simp]:
  "map_err g (Inl e) = Inl (g e)" "map_err g (Inr x) = Inr x"
  by (simp_all add: map_err_def)

lemma ok_or_simps [simp]:
  "ok_or e None = Inl e" "ok_or e (Some x) = Inr x"
  by (simp_all add: ok_or_def)

lemma and_then_Inr_iff: "and_then r f = Inr y \<longleftrightarrow> (\<exists>x. r = Inr x \<and> f x = Inr y)"
  by (cases r) auto

lemma and_then_Inl_iff: "and_then r f = Inl e \<longleftrightarrow> r = Inl e \<or> (\<exists>x. r = Inr x \<and> f x = Inl e)"
  by (cases r) auto

lemma map_err_Inr_iff [simp]: "map_err g r = Inr y \<longleftrightarrow> r = Inr y"
  by (cases r) auto

lemma ok_or_Inr_iff [simp]: "ok_or e r = Inr y \<longleftrightarrow> r = Some y"
  by (cases r) auto

lemma map_err_Inl_iff [simp]: "map_err g r = Inl e \<longleftrightarrow> (\<exists>x. r = Inl x \<and> e = g x)"
  by (cases r) auto

lemma ok_or_Inl_iff [simp]: "ok_or e r = Inl x \<longleftrightarrow> r = None \<and> x = e"
  by (cases r) auto

lemmas result_iffs = and_then_Inr_iff and_then_Inl_iff

section \<open>Failing traversal\<close>

text \<open>
  \<open>for x in xs { out.push(f(x)?) }\<close>: the results in order, or the first error. The loops over
  \<open>-L\<close>, \<open>-F\<close> and the NAT rules have this shape.
\<close>

fun try_map :: "('a \<Rightarrow> ('e, 'b) result) \<Rightarrow> 'a list \<Rightarrow> ('e, 'b list) result" where
  "try_map f [] = Inr []"
| "try_map f (x # xs) = and_then (f x) (\<lambda>y. and_then (try_map f xs) (\<lambda>ys. Inr (y # ys)))"

lemma try_map_Inr_iff: "try_map f xs = Inr ys \<longleftrightarrow> list_all2 (\<lambda>x y. f x = Inr y) xs ys"
proof (induction xs arbitrary: ys)
  case Nil
  then show ?case by auto
next
  case (Cons x xs)
  then show ?case by (auto simp: result_iffs list_all2_Cons1)
qed

lemma try_map_length: "try_map f xs = Inr ys \<Longrightarrow> length ys = length xs"
  by (auto simp: try_map_Inr_iff dest: list_all2_lengthD)

lemma try_map_in_set: "\<lbrakk>try_map f xs = Inr ys; y \<in> set ys\<rbrakk> \<Longrightarrow> \<exists>x \<in> set xs. f x = Inr y"
  by (induction xs arbitrary: ys) (auto simp: result_iffs)

lemma try_map_all_ok: "try_map f xs = Inr ys \<Longrightarrow> \<forall>x \<in> set xs. \<exists>y. f x = Inr y"
  by (auto simp: try_map_Inr_iff list_all2_conv_all_nth in_set_conv_nth)

lemma try_map_Inl:
  "try_map f xs = Inl e \<Longrightarrow> \<exists>x \<in> set xs. f x = Inl e"
  by (induction xs) (auto simp: result_iffs)

text \<open>The error is the one of the first element that fails.\<close>

lemma try_map_Inl_iff:
  "try_map f xs = Inl e \<longleftrightarrow> (\<exists>pre x post ys. xs = pre @ x # post \<and> try_map f pre = Inr ys \<and> f x = Inl e)"
proof
  show "try_map f xs = Inl e \<Longrightarrow> \<exists>pre x post ys. xs = pre @ x # post \<and> try_map f pre = Inr ys \<and> f x = Inl e"
  proof (induction xs)
    case (Cons x xs)
    show ?case
    proof (cases "f x")
      case (Inl e')
      with Cons.prems have "x # xs = [] @ x # xs \<and> try_map f [] = Inr [] \<and> f x = Inl e" by simp
      then show ?thesis by blast
    next
      case (Inr y)
      with Cons obtain pre z post ys where "xs = pre @ z # post" "try_map f pre = Inr ys" "f z = Inl e"
        by (auto simp: result_iffs)
      with Inr have "x # xs = (x # pre) @ z # post \<and> try_map f (x # pre) = Inr (y # ys) \<and> f z = Inl e" by simp
      then show ?thesis by blast
    qed
  qed simp
  have "try_map f (pre @ x # post) = Inl e" if "try_map f pre = Inr ys" "f x = Inl e" for pre x post ys
    using that by (induction pre arbitrary: ys) (auto simp: result_iffs)
  then show "\<exists>pre x post ys. xs = pre @ x # post \<and> try_map f pre = Inr ys \<and> f x = Inl e \<Longrightarrow> try_map f xs = Inl e"
    by blast
qed

section \<open>Printers and parsers\<close>

locale codec =
  fixes enc :: "'a \<Rightarrow> 'w list"
    and dec :: "'w list \<Rightarrow> 'a option"
    and dom_ok :: "'a \<Rightarrow> bool"
  assumes dec_enc: "dom_ok x \<Longrightarrow> dec (enc x) = Some x"
begin

lemma enc_inj: "\<lbrakk>dom_ok x; dom_ok y; enc x = enc y\<rbrakk> \<Longrightarrow> x = y"
  using dec_enc by (metis option.inject)

lemma dec_total_on_range: "dom_ok x \<Longrightarrow> dec (enc x) \<noteq> None"
  by (simp add: dec_enc)

end

section \<open>Event-driven components\<close>

locale machine =
  fixes start :: "'s \<Rightarrow> bool"
    and step :: "'s \<Rightarrow> 's \<Rightarrow> bool"
    and inv :: "'s \<Rightarrow> bool"
  assumes inv_start: "start s \<Longrightarrow> inv s"
    and inv_step: "\<lbrakk>inv s; step s t\<rbrakk> \<Longrightarrow> inv t"
begin

lemma inv_steps: "\<lbrakk>step\<^sup>*\<^sup>* s t; inv s\<rbrakk> \<Longrightarrow> inv t"
  by (induction rule: rtranclp_induct) (auto intro: inv_step)

lemma inv_reachable: "\<lbrakk>start s; step\<^sup>*\<^sup>* s t\<rbrakk> \<Longrightarrow> inv t"
  by (blast intro: inv_steps inv_start)

end

end
