(* ===== verification/Rust_Text.thy ===== *)
theory Rust_Text
  imports Gust_Prelude
begin

text \<open>
  The operations of \<open>str\<close> the program uses, on byte strings: \<open>find\<close>, \<open>rfind\<close>, \<open>strip_prefix\<close>,
  \<open>split\<close>, \<open>trim\<close>, \<open>trim_matches\<close>, \<open>to_ascii_lowercase\<close>, \<open>lines\<close>, \<open>contains\<close>. The slices
  \<open>&s[..i]\<close> and \<open>&s[i..]\<close> are \<open>take i s\<close> and \<open>drop i s\<close>. Every pattern searched for is ASCII,
  so the byte-wise search agrees with the search over code points and every index is a
  character boundary. \<open>trim\<close> removes the 25 code points with the Unicode property
  \<open>White_Space\<close>, written here in UTF-8.
\<close>

section \<open>Searching\<close>

fun find_char :: "(char \<Rightarrow> bool) \<Rightarrow> string \<Rightarrow> nat option" where
  "find_char P [] = None"
| "find_char P (c # cs) = (if P c then Some 0 else map_option Suc (find_char P cs))"

fun rfind_char :: "(char \<Rightarrow> bool) \<Rightarrow> string \<Rightarrow> nat option" where
  "rfind_char P [] = None"
| "rfind_char P (c # cs) =
     (case rfind_char P cs of
        Some i \<Rightarrow> Some (Suc i)
      | None \<Rightarrow> if P c then Some 0 else None)"

fun find_str :: "string \<Rightarrow> string \<Rightarrow> nat option" where
  "find_str pat [] = (if pat = [] then Some 0 else None)"
| "find_str pat (c # cs) =
     (if prefix pat (c # cs) then Some 0 else map_option Suc (find_str pat cs))"

definition str_contains :: "string \<Rightarrow> string \<Rightarrow> bool" where
  "str_contains s pat = (find_str pat s \<noteq> None)"

lemma find_char_None_iff [rust_text]: "find_char P s = None \<longleftrightarrow> (\<forall>c \<in> set s. \<not> P c)"
  by (induction s) auto

lemma find_char_append [rust_text]:
  "\<lbrakk>\<And>x. x \<in> set xs \<Longrightarrow> \<not> P x; P c\<rbrakk> \<Longrightarrow> find_char P (xs @ c # ys) = Some (length xs)"
  by (induction xs) auto

lemma rfind_char_None_iff [rust_text]: "rfind_char P s = None \<longleftrightarrow> (\<forall>c \<in> set s. \<not> P c)"
  by (induction s) (auto split: option.splits)

lemma rfind_char_append [rust_text]:
  assumes "\<And>y. y \<in> set ys \<Longrightarrow> \<not> P y" and "P c"
  shows "rfind_char P (xs @ c # ys) = Some (length xs)"
proof (induction xs)
  case Nil
  have "rfind_char P ys = None" using assms(1) by (simp add: rfind_char_None_iff)
  with assms(2) show ?case by simp
next
  case (Cons x xs)
  then show ?case by simp
qed

text \<open>
  A pattern is found at the end of a prefix that does not hold its first character.
\<close>

lemma find_str_append [rust_text]:
  "p \<notin> set xs \<Longrightarrow> find_str (p # ps) (xs @ (p # ps) @ ys) = Some (length xs)"
proof (induction xs)
  case Nil
  then show ?case by simp
next
  case (Cons x xs)
  then have "\<not> prefix (p # ps) (x # xs @ (p # ps) @ ys)" by simp
  with Cons show ?case by simp
qed

section \<open>Prefixes\<close>

definition strip_prefix :: "string \<Rightarrow> string \<Rightarrow> string option" where
  "strip_prefix pat s = (if prefix pat s then Some (drop (length pat) s) else None)"

definition strip_char :: "char \<Rightarrow> string \<Rightarrow> string option" where
  "strip_char c s = (case s of x # xs \<Rightarrow> if x = c then Some xs else None | [] \<Rightarrow> None)"

lemma strip_char_simps [simp]:
  "strip_char c [] = None"
  "strip_char c (x # xs) = (if x = c then Some xs else None)"
  by (simp_all add: strip_char_def)

lemma strip_char_Some_iff [simp]: "strip_char c s = Some t \<longleftrightarrow> s = c # t"
  by (cases s) auto

lemma strip_prefix_Some_iff: "strip_prefix p s = Some t \<longleftrightarrow> s = p @ t"
  by (auto simp: strip_prefix_def elim: prefixE)

section \<open>Splitting and joining\<close>

fun split_char :: "char \<Rightarrow> string \<Rightarrow> string list" where
  "split_char c [] = [[]]"
| "split_char c (x # xs) =
     (if x = c then [] # split_char c xs
      else case split_char c xs of p # ps \<Rightarrow> (x # p) # ps | [] \<Rightarrow> [[x]])"

fun join_char :: "char \<Rightarrow> string list \<Rightarrow> string" where
  "join_char c [] = []"
| "join_char c [p] = p"
| "join_char c (p # q # ps) = p @ c # join_char c (q # ps)"

lemma split_char_not_Nil [simp]: "split_char c s \<noteq> []"
  by (induction s) (auto split: list.splits)

lemma split_char_notin: "c \<notin> set s \<Longrightarrow> split_char c s = [s]"
  by (induction s) auto

lemma split_char_append: "c \<notin> set p \<Longrightarrow> split_char c (p @ c # s) = p # split_char c s"
  by (induction p) auto

lemma split_char_join:
  "\<lbrakk>ps \<noteq> []; \<And>p. p \<in> set ps \<Longrightarrow> c \<notin> set p\<rbrakk> \<Longrightarrow> split_char c (join_char c ps) = ps"
  by (induction c ps rule: join_char.induct) (auto simp: split_char_notin split_char_append)

lemma split_char_pieces: "p \<in> set (split_char c s) \<Longrightarrow> c \<notin> set p"
  by (induction s arbitrary: p) (auto split: list.splits if_splits)

lemma join_split_char: "join_char c (split_char c s) = s"
proof (induction s)
  case Nil
  then show ?case by simp
next
  case (Cons x xs)
  obtain p ps where e: "split_char c xs = p # ps"
    by (cases "split_char c xs") auto
  with Cons show ?case by (cases ps) auto
qed

text \<open>\<open>str::lines\<close>: pieces ended by a newline lose it and one carriage return before it; the
  last piece is dropped when empty and otherwise kept as it is.\<close>

definition strip_cr :: "string \<Rightarrow> string" where
  "strip_cr l = (if l \<noteq> [] \<and> last l = CHR 0x0D then butlast l else l)"

definition str_lines :: "string \<Rightarrow> string list" where
  "str_lines s =
     (let ps = split_char (CHR 0x0A) s
      in map strip_cr (butlast ps) @ (if last ps = [] then [] else [last ps]))"

section \<open>Trimming and case\<close>

text \<open>The \<open>White_Space\<close> code points, encoded in UTF-8.\<close>

definition white_space :: "string list" where
  "white_space =
    [[CHR 0x09], [CHR 0x0A], [CHR 0x0B], [CHR 0x0C], [CHR 0x0D], [CHR 0x20],
     [CHR 0xC2, CHR 0x85], [CHR 0xC2, CHR 0xA0], [CHR 0xE1, CHR 0x9A, CHR 0x80],
     [CHR 0xE2, CHR 0x80, CHR 0x80], [CHR 0xE2, CHR 0x80, CHR 0x81],
     [CHR 0xE2, CHR 0x80, CHR 0x82], [CHR 0xE2, CHR 0x80, CHR 0x83],
     [CHR 0xE2, CHR 0x80, CHR 0x84], [CHR 0xE2, CHR 0x80, CHR 0x85],
     [CHR 0xE2, CHR 0x80, CHR 0x86], [CHR 0xE2, CHR 0x80, CHR 0x87],
     [CHR 0xE2, CHR 0x80, CHR 0x88], [CHR 0xE2, CHR 0x80, CHR 0x89],
     [CHR 0xE2, CHR 0x80, CHR 0x8A], [CHR 0xE2, CHR 0x80, CHR 0xA8],
     [CHR 0xE2, CHR 0x80, CHR 0xA9], [CHR 0xE2, CHR 0x80, CHR 0xAF],
     [CHR 0xE2, CHR 0x81, CHR 0x9F], [CHR 0xE3, CHR 0x80, CHR 0x80]]"

function strip_front :: "string list \<Rightarrow> string \<Rightarrow> string" where
  "strip_front ws s =
     (case find (\<lambda>w. w \<noteq> [] \<and> prefix w s) ws of
        None \<Rightarrow> s
      | Some w \<Rightarrow> strip_front ws (drop (length w) s))"
  by pat_completeness auto
termination
proof (relation "measure (\<lambda>(ws, s). length s)")
  show "wf (measure (\<lambda>(ws :: string list, s :: string). length s))" by simp
next
  fix ws :: "string list" and s w
  assume "find (\<lambda>w. w \<noteq> [] \<and> prefix w s) ws = Some w"
  then have "w \<noteq> []" "prefix w s" by (auto simp: find_Some_iff)
  then have "0 < length w" "length w \<le> length s" by (auto dest: prefix_length_le)
  then have "length s - length w < length s" by linarith
  then show "((ws, drop (length w) s), ws, s) \<in> measure (\<lambda>(ws, s). length s)" by simp
qed

declare strip_front.simps [simp del]

definition str_trim :: "string \<Rightarrow> string" where
  "str_trim s = rev (strip_front (map rev white_space) (rev (strip_front white_space s)))"

definition trim_matches :: "char \<Rightarrow> string \<Rightarrow> string" where
  "trim_matches c s = rev (dropWhile (\<lambda>x. x = c) (rev (dropWhile (\<lambda>x. x = c) s)))"

definition trim_start_matches :: "char \<Rightarrow> string \<Rightarrow> string" where
  "trim_start_matches c s = dropWhile (\<lambda>x. x = c) s"

definition lower_char :: "char \<Rightarrow> char" where
  "lower_char c =
     (let n = of_char c :: nat in if 65 \<le> n \<and> n \<le> 90 then char_of (n + 32) else c)"

definition to_ascii_lowercase :: "string \<Rightarrow> string" where
  "to_ascii_lowercase s = map lower_char s"

text \<open>
  Printable ASCII without the space: no such string is changed by \<open>trim\<close>. The node strings,
  addresses and flag values of a command line are of this kind.
\<close>

definition graphic :: "char \<Rightarrow> bool" where
  "graphic c = (let n = of_char c :: nat in 33 \<le> n \<and> n \<le> 126)"

lemma strip_front_id:
  "(\<And>w. w \<in> set ws \<Longrightarrow> w = [] \<or> \<not> prefix w s) \<Longrightarrow> strip_front ws s = s"
  by (subst strip_front.simps) (auto split: option.splits simp: find_Some_iff in_set_conv_nth)

lemma white_space_heads: "w \<in> set white_space \<Longrightarrow> w \<noteq> [] \<and> \<not> graphic (hd w) \<and> \<not> graphic (last w)"
  unfolding white_space_def
  by (simp only: set_simps insert_iff empty_iff) (elim disjE; simp add: graphic_def)

lemma strip_front_graphic: "s = [] \<or> graphic (hd s) \<Longrightarrow> strip_front white_space s = s"
proof (rule strip_front_id)
  fix w assume s: "s = [] \<or> graphic (hd s)" and "w \<in> set white_space"
  then have w: "w \<noteq> []" "\<not> graphic (hd w)" using white_space_heads by auto
  have "\<not> prefix w s"
  proof
    assume "prefix w s"
    with w(1) have "s \<noteq> [] \<and> hd s = hd w" by (cases w; cases s) auto
    with s w(2) show False by auto
  qed
  then show "w = [] \<or> \<not> prefix w s" by simp
qed

lemma strip_front_rev_graphic:
  "s = [] \<or> graphic (hd s) \<Longrightarrow> strip_front (map rev white_space) s = s"
proof (rule strip_front_id)
  fix w assume s: "s = [] \<or> graphic (hd s)" and "w \<in> set (map rev white_space)"
  then obtain v where v: "w = rev v" "v \<noteq> []" "\<not> graphic (last v)"
    using white_space_heads by auto
  have "\<not> prefix w s"
  proof
    assume "prefix w s"
    with v have "s \<noteq> [] \<and> hd s = last v" by (cases v rule: rev_cases; cases s) auto
    with s v(3) show False by auto
  qed
  then show "w = [] \<or> \<not> prefix w s" by simp
qed

lemma str_trim_graphic [rust_text]:
  "s = [] \<or> graphic (hd s) \<and> graphic (last s) \<Longrightarrow> str_trim s = s"
  using strip_front_graphic [of s] strip_front_rev_graphic [of "rev s"]
  by (auto simp: str_trim_def hd_rev)

lemma str_trim_all_graphic [rust_text]: "(\<And>c. c \<in> set s \<Longrightarrow> graphic c) \<Longrightarrow> str_trim s = s"
  by (rule str_trim_graphic) auto

lemma str_trim_Nil [simp]: "str_trim [] = []"
  by (simp add: str_trim_graphic)

lemma to_ascii_lowercase_id:
  "(\<And>c. c \<in> set s \<Longrightarrow> lower_char c = c) \<Longrightarrow> to_ascii_lowercase s = s"
  by (simp add: to_ascii_lowercase_def map_idI)

lemma trim_matches_id [rust_text]:
  "s = [] \<or> hd s \<noteq> c \<and> last s \<noteq> c \<Longrightarrow> trim_matches c s = s"
proof (cases s)
  case (Cons a l)
  moreover assume "s = [] \<or> hd s \<noteq> c \<and> last s \<noteq> c"
  ultimately have "hd s \<noteq> c" "last s \<noteq> c" by auto
  then have "dropWhile (\<lambda>x. x = c) s = s" "dropWhile (\<lambda>x. x = c) (rev s) = rev s"
    by (simp_all add: dropWhile_eq_self_iff hd_rev)
  then show ?thesis by (simp add: trim_matches_def)
qed (simp add: trim_matches_def)

end
