(* ===== verification/Rust_Utf8.thy ===== *)
theory Rust_Utf8
  imports Rust_Text
begin

text \<open>
  \<open>String::from_utf8_lossy\<close>: the scan of \<open>core::str::lossy\<close>, which looks at the bytes of one
  character at a time and replaces every maximal ill-formed run by U+FFFD. The output is always
  well-formed, and well-formed input is unchanged.
\<close>

definition byte_at :: "string \<Rightarrow> nat \<Rightarrow> nat" where
  "byte_at s i = (if i < length s then of_char (s ! i) else 0)"

definition is_cont :: "nat \<Rightarrow> bool" where
  "is_cont n \<longleftrightarrow> 128 \<le> n \<and> n < 192"

definition second_ok3 :: "nat \<Rightarrow> nat \<Rightarrow> bool" where
  "second_ok3 b c \<longleftrightarrow>
     (if b = 0xE0 then 0xA0 \<le> c \<and> c \<le> 0xBF
      else if b = 0xED then 0x80 \<le> c \<and> c \<le> 0x9F
      else 0x80 \<le> c \<and> c \<le> 0xBF)"

definition second_ok4 :: "nat \<Rightarrow> nat \<Rightarrow> bool" where
  "second_ok4 b c \<longleftrightarrow>
     (if b = 0xF0 then 0x90 \<le> c \<and> c \<le> 0xBF
      else if b = 0xF4 then 0x80 \<le> c \<and> c \<le> 0x8F
      else 0x80 \<le> c \<and> c \<le> 0xBF)"

text \<open>Whether a well-formed character starts with the given bytes, and how many were inspected.\<close>

definition head_of :: "nat \<Rightarrow> nat \<Rightarrow> nat \<Rightarrow> nat \<Rightarrow> bool \<times> nat" where
  "head_of b b1 b2 b3 =
     (if b < 128 then (True, 1)
      else if 0xC2 \<le> b \<and> b \<le> 0xDF then
        (if is_cont b1 then (True, 2) else (False, 1))
      else if 0xE0 \<le> b \<and> b \<le> 0xEF then
        (if \<not> second_ok3 b b1 then (False, 1)
         else if is_cont b2 then (True, 3) else (False, 2))
      else if 0xF0 \<le> b \<and> b \<le> 0xF4 then
        (if \<not> second_ok4 b b1 then (False, 1)
         else if \<not> is_cont b2 then (False, 2)
         else if is_cont b3 then (True, 4) else (False, 3))
      else (False, 1))"

definition utf8_head :: "string \<Rightarrow> bool \<times> nat" where
  "utf8_head s = head_of (byte_at s 0) (byte_at s 1) (byte_at s 2) (byte_at s 3)"

lemma utf8_head_pos: "0 < snd (utf8_head s)"
  by (simp add: utf8_head_def head_of_def)

definition replacement :: string where
  "replacement = [CHR 0xEF, CHR 0xBF, CHR 0xBD]"

function from_utf8_lossy :: "string \<Rightarrow> string" where
  "from_utf8_lossy s =
     (if s = [] then []
      else (if fst (utf8_head s) then take (snd (utf8_head s)) s else replacement)
           @ from_utf8_lossy (drop (snd (utf8_head s)) s))"
  by pat_completeness auto
termination
proof (relation "measure length")
  fix s :: string
  assume "s \<noteq> []"
  with utf8_head_pos [of s] have "length s - snd (utf8_head s) < length s"
    by (metis diff_less length_greater_0_conv)
  then show "(drop (snd (utf8_head s)) s, s) \<in> measure length" by simp
qed simp

declare from_utf8_lossy.simps [simp del]

text \<open>Well-formed UTF-8, the type invariant of \<open>String\<close>.\<close>

function valid_utf8 :: "string \<Rightarrow> bool" where
  "valid_utf8 s =
     (if s = [] then True
      else if fst (utf8_head s) then valid_utf8 (drop (snd (utf8_head s)) s) else False)"
  by pat_completeness auto
termination
proof (relation "measure length")
  fix s :: string
  assume "s \<noteq> []"
  with utf8_head_pos [of s] have "length s - snd (utf8_head s) < length s"
    by (metis diff_less length_greater_0_conv)
  then show "(drop (snd (utf8_head s)) s, s) \<in> measure length" by simp
qed simp

declare valid_utf8.simps [simp del]

lemma valid_utf8_Nil [simp]: "valid_utf8 []"
  by (simp add: valid_utf8.simps)

lemma from_utf8_lossy_Nil [simp]: "from_utf8_lossy [] = []"
  by (simp add: from_utf8_lossy.simps)

lemma from_utf8_lossy_id: "valid_utf8 s \<Longrightarrow> from_utf8_lossy s = s"
proof (induction s rule: from_utf8_lossy.induct)
  case (1 s)
  show ?case
  proof (cases "s = []")
    case False
    with "1.prems" have "fst (utf8_head s)" "valid_utf8 (drop (snd (utf8_head s)) s)"
      by (simp_all add: valid_utf8.simps [of s] split: if_splits)
    with "1.IH" False show ?thesis
      by (simp add: from_utf8_lossy.simps [of s])
  qed simp
qed

text \<open>A valid head only depends on the bytes it spans, so it stays valid in front of any text.\<close>

lemma byte_at_take_append: "i < n \<Longrightarrow> n \<le> length s \<Longrightarrow> byte_at (take n s @ t) i = byte_at s i"
  by (simp add: byte_at_def nth_append)

text \<open>A valid head of \<open>n\<close> bytes does not look past them, and the bytes after the first are not 0.\<close>

lemma head_of_1: "b < 128 \<Longrightarrow> head_of b b1 b2 b3 = (True, 1)"
  by (simp add: head_of_def)

lemma head_of_2:
  "\<lbrakk>0xC2 \<le> b; b \<le> 0xDF\<rbrakk> \<Longrightarrow> head_of b b1 b2 b3 = (if is_cont b1 then (True, 2) else (False, 1))"
  by (simp add: head_of_def)

lemma head_of_3:
  "\<lbrakk>0xE0 \<le> b; b \<le> 0xEF\<rbrakk> \<Longrightarrow> head_of b b1 b2 b3 =
     (if \<not> second_ok3 b b1 then (False, 1) else if is_cont b2 then (True, 3) else (False, 2))"
  by (simp add: head_of_def)

lemma head_of_4:
  "\<lbrakk>0xF0 \<le> b; b \<le> 0xF4\<rbrakk> \<Longrightarrow> head_of b b1 b2 b3 =
     (if \<not> second_ok4 b b1 then (False, 1) else if \<not> is_cont b2 then (False, 2)
      else if is_cont b3 then (True, 4) else (False, 3))"
  by (simp add: head_of_def)

lemma second_ok_high: "second_ok3 b c \<Longrightarrow> 128 \<le> c" "second_ok4 b c \<Longrightarrow> 128 \<le> c"
  by (auto simp: second_ok3_def second_ok4_def split: if_splits)

lemma head_of_valid:
  assumes h: "head_of b b1 b2 b3 = (True, n)"
  shows "n = 1 \<and> (\<forall>c1 c2 c3. head_of b c1 c2 c3 = (True, n)) \<or>
    n = 2 \<and> 128 \<le> b1 \<and> (\<forall>c2 c3. head_of b b1 c2 c3 = (True, n)) \<or>
    n = 3 \<and> 128 \<le> b1 \<and> 128 \<le> b2 \<and> (\<forall>c3. head_of b b1 b2 c3 = (True, n)) \<or>
    n = 4 \<and> 128 \<le> b1 \<and> 128 \<le> b2 \<and> 128 \<le> b3"
proof -
  consider "b < 128" | "0xC2 \<le> b" "b \<le> 0xDF" | "0xE0 \<le> b" "b \<le> 0xEF" | "0xF0 \<le> b" "b \<le> 0xF4"
    using h by (fastforce simp: head_of_def)
  then show ?thesis
  proof cases
    case 1
    with h show ?thesis by (simp add: head_of_1)
  next
    case 2
    with h show ?thesis by (simp add: head_of_2 is_cont_def split: if_splits)
  next
    case 3
    with h show ?thesis
      by (simp add: head_of_3 is_cont_def second_ok_high split: if_splits)
  next
    case 4
    with h show ?thesis
      by (simp add: head_of_4 is_cont_def second_ok_high split: if_splits)
  qed
qed

lemma byte_at_in_range: "128 \<le> byte_at s i \<Longrightarrow> i < length s"
  by (simp add: byte_at_def split: if_splits)

lemma utf8_head_length: "\<lbrakk>s \<noteq> []; utf8_head s = (True, n)\<rbrakk> \<Longrightarrow> n \<le> length s"
proof -
  assume s: "s \<noteq> []" and "utf8_head s = (True, n)"
  then have h: "head_of (byte_at s 0) (byte_at s 1) (byte_at s 2) (byte_at s 3) = (True, n)"
    by (simp add: utf8_head_def)
  show ?thesis
    using head_of_valid [OF h]
  proof (elim disjE conjE)
    assume "n = 1"
    with s show ?thesis by (simp add: Suc_le_eq)
  next
    assume "n = 2" "128 \<le> byte_at s 1"
    with byte_at_in_range [of s 1] show ?thesis by linarith
  next
    assume "n = 3" "128 \<le> byte_at s 2"
    with byte_at_in_range [of s 2] show ?thesis by linarith
  next
    assume "n = 4" "128 \<le> byte_at s 3"
    with byte_at_in_range [of s 3] show ?thesis by linarith
  qed
qed

lemma utf8_head_local:
  assumes "utf8_head s = (True, n)" "s \<noteq> []"
  shows "utf8_head (take n s @ t) = (True, n)"
proof -
  have n: "n \<le> length s" using utf8_head_length [OF assms(2,1)] .
  have h: "head_of (byte_at s 0) (byte_at s 1) (byte_at s 2) (byte_at s 3) = (True, n)"
    using assms(1) by (simp add: utf8_head_def)
  have eq: "byte_at (take n s @ t) i = byte_at s i" if "i < n" for i
    using that n by (rule byte_at_take_append)
  show ?thesis
    using head_of_valid [OF h] h unfolding utf8_head_def
    by (elim disjE conjE) (use eq [of 0] eq [of 1] eq [of 2] eq [of 3] in simp_all)
qed

lemma valid_utf8_char:
  assumes "utf8_head s = (True, n)" "s \<noteq> []" "valid_utf8 t"
  shows "valid_utf8 (take n s @ t)"
proof -
  have n: "0 < n" "n \<le> length s"
    using utf8_head_pos [of s] utf8_head_length [OF assms(2,1)] assms(1) by auto
  have "take n s @ t \<noteq> []" using n by auto
  then show ?thesis
    using assms(3) n utf8_head_local [OF assms(1,2), of t] by (subst valid_utf8.simps) simp
qed

lemma valid_utf8_replacement: "valid_utf8 t \<Longrightarrow> valid_utf8 (replacement @ t)"
proof -
  have "utf8_head replacement = (True, 3)"
    by (simp add: utf8_head_def head_of_def replacement_def byte_at_def is_cont_def second_ok3_def)
  then show "valid_utf8 t \<Longrightarrow> valid_utf8 (replacement @ t)"
    using valid_utf8_char [of replacement 3 t] by (simp add: replacement_def)
qed

lemma from_utf8_lossy_valid: "valid_utf8 (from_utf8_lossy s)"
proof (induction s rule: from_utf8_lossy.induct)
  case (1 s)
  show ?case
  proof (cases "s = []")
    case False
    with "1.IH" have "valid_utf8 (from_utf8_lossy (drop (snd (utf8_head s)) s))" by simp
    with False show ?thesis
      using valid_utf8_char [of s "snd (utf8_head s)"]
      by (subst from_utf8_lossy.simps) (simp add: valid_utf8_replacement prod_eq_iff)
  qed simp
qed

lemma valid_utf8_ascii: "(\<And>c. c \<in> set s \<Longrightarrow> of_char c < (128 :: nat)) \<Longrightarrow> valid_utf8 s"
proof (induction s)
  case (Cons c s)
  then have "utf8_head (c # s) = (True, 1)" by (simp add: utf8_head_def head_of_def byte_at_def)
  with Cons show ?case by (subst valid_utf8.simps) simp
qed simp

end
