(* ===== verification/Rust_Num.thy ===== *)
theory Rust_Num
  imports Rust_Text
begin

text \<open>
  \<open>char::to_digit\<close>, the \<open>Display\<close> and lower-hex printers of the unsigned integers, and
  \<open>FromStr\<close> for \<open>u16\<close>, \<open>u64\<close>/\<open>usize\<close> (64-bit targets) and \<open>i64\<close>: an optional leading plus sign
  (also a minus sign for the signed type), at least one digit, and the overflow check of every
  multiplication and addition.
\<close>

section \<open>Digits\<close>

definition to_digit :: "nat \<Rightarrow> char \<Rightarrow> nat option" where
  "to_digit radix c =
     (let n = of_char c :: nat;
          d = (if 48 \<le> n \<and> n \<le> 57 then Some (n - 48)
               else if 97 \<le> n \<and> n \<le> 122 then Some (n - 87)
               else if 65 \<le> n \<and> n \<le> 90 then Some (n - 55)
               else None)
      in case d of None \<Rightarrow> None | Some k \<Rightarrow> if k < radix then Some k else None)"

definition digit_char :: "nat \<Rightarrow> char" where
  "digit_char d = (if d < 10 then char_of (48 + d) else char_of (87 + d))"

lemma to_digit_digit_char [rust_num]: "\<lbrakk>d < radix; radix \<le> 36\<rbrakk> \<Longrightarrow> to_digit radix (digit_char d) = Some d"
  by (simp add: to_digit_def digit_char_def Let_def of_char_of)

section \<open>Printing\<close>

function show_radix :: "nat \<Rightarrow> nat \<Rightarrow> string" where
  "show_radix b n =
     (if b < 2 \<or> n < b then [digit_char n] else show_radix b (n div b) @ [digit_char (n mod b)])"
  by pat_completeness auto
termination
  by (relation "measure (\<lambda>(b, n). n)") auto

declare show_radix.simps [simp del]

abbreviation show_nat :: "nat \<Rightarrow> string" where
  "show_nat \<equiv> show_radix 10"

definition show_u16 :: "u16 \<Rightarrow> string" where
  "show_u16 w = show_nat (unat w)"

definition show_u64 :: "u64 \<Rightarrow> string" where
  "show_u64 w = show_nat (unat w)"

lemma show_radix_not_Nil [simp]: "show_radix b n \<noteq> []"
  by (subst show_radix.simps) simp

lemma show_radix_small: "n < b \<Longrightarrow> show_radix b n = [digit_char n]"
  by (subst show_radix.simps) simp

lemma show_radix_step:
  "\<lbrakk>2 \<le> b; b \<le> n\<rbrakk> \<Longrightarrow> show_radix b n = show_radix b (n div b) @ [digit_char (n mod b)]"
  by (subst show_radix.simps) simp

text \<open>The printed characters are digits of the radix.\<close>

lemma show_radix_digits:
  "\<lbrakk>2 \<le> b; b \<le> 36; c \<in> set (show_radix b n)\<rbrakk> \<Longrightarrow> \<exists>d < b. c = digit_char d"
proof (induction b n rule: show_radix.induct)
  case (1 b n)
  show ?case
  proof (cases "n < b")
    case True
    with "1.prems" show ?thesis by (auto simp: show_radix_small)
  next
    case False
    with "1.prems" have "c \<in> set (show_radix b (n div b)) \<or> c = digit_char (n mod b)"
      by (auto simp: show_radix_step)
    moreover have "n mod b < b" using "1.prems" by simp
    moreover have "c \<in> set (show_radix b (n div b)) \<Longrightarrow> \<exists>d < b. c = digit_char d"
      using "1.IH" "1.prems" False by simp
    ultimately show ?thesis by blast
  qed
qed

lemma show_radix_to_digit:
  "\<lbrakk>2 \<le> b; b \<le> 36; c \<in> set (show_radix b n)\<rbrakk> \<Longrightarrow> to_digit b c \<noteq> None"
  using show_radix_digits [of b c n] by (auto simp: to_digit_digit_char)

lemma digit_char_graphic: "d < 36 \<Longrightarrow> graphic (digit_char d)"
  by (simp add: graphic_def digit_char_def of_char_of)

lemma show_radix_graphic: "\<lbrakk>2 \<le> b; b \<le> 36; c \<in> set (show_radix b n)\<rbrakk> \<Longrightarrow> graphic c"
  using show_radix_digits [of b c n] by (auto intro: digit_char_graphic)

text \<open>A character that is no digit does not occur in a printed number.\<close>

lemma notin_show_radix:
  "\<lbrakk>2 \<le> b; b \<le> 36; to_digit b c = None\<rbrakk> \<Longrightarrow> c \<notin> set (show_radix b n)"
  using show_radix_to_digit by blast

section \<open>Parsing\<close>

fun parse_digits :: "nat \<Rightarrow> nat \<Rightarrow> nat \<Rightarrow> string \<Rightarrow> nat option" where
  "parse_digits radix limit acc [] = Some acc"
| "parse_digits radix limit acc (c # cs) =
     (case to_digit radix c of
        None \<Rightarrow> None
      | Some d \<Rightarrow>
          if limit < acc * radix then None
          else if limit < acc * radix + d then None
          else parse_digits radix limit (acc * radix + d) cs)"

definition parse_unsigned :: "nat \<Rightarrow> nat \<Rightarrow> string \<Rightarrow> nat option" where
  "parse_unsigned radix limit s =
     (if s = [] \<or> s = ''+'' \<or> s = ''-'' then None
      else if hd s = CHR ''+'' then parse_digits radix limit 0 (tl s)
      else parse_digits radix limit 0 s)"

definition parse_u16 :: "string \<Rightarrow> u16 option" where
  "parse_u16 s = map_option word_of_nat (parse_unsigned 10 65535 s)"

definition parse_u64 :: "string \<Rightarrow> u64 option" where
  "parse_u64 s = map_option word_of_nat (parse_unsigned 10 (2 ^ 64 - 1) s)"

text \<open>\<open>u64::from_str_radix(s, 16)\<close>.\<close>

definition parse_u64_hex :: "string \<Rightarrow> u64 option" where
  "parse_u64_hex s = map_option word_of_nat (parse_unsigned 16 (2 ^ 64 - 1) s)"

definition parse_i64 :: "string \<Rightarrow> int option" where
  "parse_i64 s =
     (if s = [] \<or> s = ''+'' \<or> s = ''-'' then None
      else if hd s = CHR ''-'' then map_option (\<lambda>n. - int n) (parse_digits 10 (2 ^ 63) 0 (tl s))
      else if hd s = CHR ''+'' then map_option int (parse_digits 10 (2 ^ 63 - 1) 0 (tl s))
      else map_option int (parse_digits 10 (2 ^ 63 - 1) 0 s))"

lemma parse_digits_bound: "\<lbrakk>parse_digits r m a s = Some n; a \<le> m\<rbrakk> \<Longrightarrow> n \<le> m"
  by (induction s arbitrary: a) (auto split: option.splits if_splits)

lemma parse_unsigned_bound: "parse_unsigned r m s = Some n \<Longrightarrow> n \<le> m"
  by (auto simp: parse_unsigned_def dest: parse_digits_bound split: if_splits)

lemma parse_digits_append:
  "parse_digits r m a (s @ t) =
     (case parse_digits r m a s of None \<Rightarrow> None | Some b \<Rightarrow> parse_digits r m b t)"
  by (induction s arbitrary: a) (auto split: option.splits)

text \<open>Parsing the printed number gives the number back, when it fits.\<close>

lemma parse_digits_show:
  "\<lbrakk>2 \<le> r; r \<le> 36; n \<le> m\<rbrakk> \<Longrightarrow> parse_digits r m 0 (show_radix r n) = Some n"
proof (induction r n rule: show_radix.induct)
  case (1 b n)
  show ?case
  proof (cases "n < b")
    case True
    with "1.prems" show ?thesis by (simp add: show_radix_small to_digit_digit_char)
  next
    case False
    have le: "n div b \<le> m" using "1.prems"(3) by (meson div_le_dividend le_trans)
    with "1.IH" "1.prems" False have IH: "parse_digits b m 0 (show_radix b (n div b)) = Some (n div b)"
      by simp
    have "n div b * b \<le> m" "n div b * b + n mod b = n"
      using "1.prems"(3) by (auto intro: le_trans [OF div_times_less_eq_dividend])
    moreover from this have "\<not> m < n div b * b" by linarith
    ultimately show ?thesis using IH False "1.prems"
      by (simp only: show_radix_step parse_digits_append to_digit_digit_char) (simp add: to_digit_digit_char)
  qed
qed

lemma show_radix_hd_no_sign:
  assumes "2 \<le> r" "r \<le> 36"
  shows "hd (show_radix r n) \<noteq> CHR ''+'' \<and> hd (show_radix r n) \<noteq> CHR ''-''"
proof -
  have "hd (show_radix r n) \<in> set (show_radix r n)" by simp
  with show_radix_to_digit assms have "to_digit r (hd (show_radix r n)) \<noteq> None" by blast
  then show ?thesis by (auto simp: to_digit_def)
qed

lemma parse_unsigned_show [rust_num]:
  assumes "2 \<le> r" "r \<le> 36" "n \<le> m"
  shows "parse_unsigned r m (show_radix r n) = Some n"
proof -
  have "show_radix r n \<noteq> ''+''" "show_radix r n \<noteq> ''-''" "hd (show_radix r n) \<noteq> CHR ''+''"
    using show_radix_hd_no_sign [OF assms(1,2), of n] by auto
  then show ?thesis using parse_digits_show [OF assms] by (simp add: parse_unsigned_def)
qed

lemma unat_u16_le: "unat (w :: u16) \<le> 65535"
  using unsigned_less [of w, where ?'a = nat] by simp

lemma unat_u64_le: "unat (w :: u64) \<le> 2 ^ 64 - 1"
  using unsigned_less [of w, where ?'a = nat] by simp

interpretation u16_text: codec show_u16 parse_u16 "\<lambda>_. True"
  by unfold_locales (simp add: show_u16_def parse_u16_def parse_unsigned_show unat_u16_le)

interpretation u64_text: codec show_u64 parse_u64 "\<lambda>_. True"
proof unfold_locales
  fix w :: u64
  have "parse_unsigned 10 (2 ^ 64 - 1) (show_nat (unat w)) = Some (unat w)"
    by (rule parse_unsigned_show) (simp, simp, rule unat_u64_le)
  then show "parse_u64 (show_u64 w) = Some w"
    by (simp only: show_u64_def parse_u64_def) simp
qed

lemma parse_u16_show [simp, rust_num]: "parse_u16 (show_u16 p) = Some p"
  using u16_text.dec_enc by simp

lemma show_u16_not_Nil [simp]: "show_u16 p \<noteq> []"
  by (simp add: show_u16_def)

lemma notin_show_u16: "to_digit 10 c = None \<Longrightarrow> c \<notin> set (show_u16 p)"
  by (simp add: show_u16_def notin_show_radix)

lemma show_u16_graphic: "c \<in> set (show_u16 p) \<Longrightarrow> graphic c"
  using show_radix_graphic [of 10 c "unat p"] by (simp add: show_u16_def)

text \<open>A parsed port is the number the digits denote: it fits in 16 bits without wrapping.\<close>

lemma parse_u16_unat:
  "parse_u16 s = Some p \<longleftrightarrow> parse_unsigned 10 65535 s = Some (unat p)"
proof
  assume "parse_u16 s = Some p"
  then obtain n where n: "parse_unsigned 10 65535 s = Some n" and p: "p = word_of_nat n"
    by (auto simp: parse_u16_def)
  from n have "n \<le> 65535" by (rule parse_unsigned_bound)
  then have "unat p = n" by (simp add: p unsigned_of_nat take_bit_nat_eq_self)
  with n show "parse_unsigned 10 65535 s = Some (unat p)" by simp
next
  assume "parse_unsigned 10 65535 s = Some (unat p)"
  then show "parse_u16 s = Some p" by (simp add: parse_u16_def)
qed

lemma parse_i64_bounds: "parse_i64 s = Some m \<Longrightarrow> - (2 ^ 63) \<le> m \<and> m < 2 ^ 63"
proof -
  have *: "int n \<le> 2 ^ 63 - 1" if "parse_digits 10 (2 ^ 63 - 1) 0 t = Some n" for n t
    using parse_digits_bound [OF that] by simp
  have **: "int n \<le> 2 ^ 63" if "parse_digits 10 (2 ^ 63) 0 t = Some n" for n t
    using parse_digits_bound [OF that] by simp
  assume "parse_i64 s = Some m"
  then consider n t where "parse_digits 10 (2 ^ 63) 0 t = Some n" "m = - int n"
    | n t where "parse_digits 10 (2 ^ 63 - 1) 0 t = Some n" "m = int n"
    by (auto simp: parse_i64_def split: if_splits)
  then show ?thesis using * ** by cases (fastforce, fastforce)
qed

end
