(* ===== verification/Utf8_Text.thy ===== *)
theory Utf8_Text
  imports Rust_Utf8 Rust_Num
begin

text \<open>
  The type invariant of \<open>str\<close> and \<open>String\<close> through the string operations of the program. A slice
  \<open>&s[..i]\<close> or \<open>&s[i..]\<close> panics in Rust unless \<open>i\<close> is a character boundary; here a cut in front of
  a byte that is not a continuation byte is shown to be one, and every index the program slices
  at is such a cut, so searching, splitting, trimming and lower-casing keep well-formed UTF-8.
\<close>

named_theorems utf8 "operations that keep well-formed UTF-8"

section \<open>Character boundaries\<close>

definition is_ascii :: "char \<Rightarrow> bool" where
  "is_ascii c \<longleftrightarrow> of_char c < (128 :: nat)"

text \<open>A text that may follow a complete character: empty, or not starting inside a character.\<close>

definition boundary :: "string \<Rightarrow> bool" where
  "boundary s \<longleftrightarrow> \<not> is_cont (byte_at s 0)"

lemma boundary_simps [simp]:
  "boundary []" "boundary (c # s) \<longleftrightarrow> \<not> is_cont (of_char c)"
  by (simp_all add: boundary_def byte_at_def is_cont_def)

lemma boundary_ascii: "is_ascii c \<Longrightarrow> boundary (c # s)"
  by (simp add: is_ascii_def is_cont_def)

lemma second_ok_cont: "second_ok3 b c \<Longrightarrow> is_cont c" "second_ok4 b c \<Longrightarrow> is_cont c"
  by (auto simp: second_ok3_def second_ok4_def is_cont_def split: if_splits)

lemma head_of_conts:
  assumes h: "head_of b b1 b2 b3 = (True, n)"
  shows "n \<le> 4" "1 < n \<Longrightarrow> is_cont b1" "2 < n \<Longrightarrow> is_cont b2" "3 < n \<Longrightarrow> is_cont b3"
  using h by (auto simp: head_of_def second_ok_cont split: if_splits)

lemma utf8_head_conts:
  assumes "utf8_head s = (True, n)" "0 < i" "i < n"
  shows "is_cont (byte_at s i)"
proof -
  have h: "head_of (byte_at s 0) (byte_at s 1) (byte_at s 2) (byte_at s 3) = (True, n)"
    using assms(1) by (simp add: utf8_head_def)
  note c = head_of_conts [OF h]
  consider "i = 1" | "i = 2" | "i = 3" using assms(2,3) c(1) by linarith
  then show ?thesis using c assms(3) by cases auto
qed

text \<open>The first character of a text ends at or before every boundary.\<close>

lemma head_before_boundary:
  assumes "xs \<noteq> []" "boundary ys" "utf8_head (xs @ ys) = (True, n)"
  shows "n \<le> length xs" "utf8_head xs = (True, n)"
proof -
  have at: "byte_at (xs @ ys) (length xs) = byte_at ys 0"
    by (simp add: byte_at_def nth_append)
  show n: "n \<le> length xs"
  proof (rule ccontr)
    assume "\<not> n \<le> length xs"
    with utf8_head_conts [OF assms(3), of "length xs"] assms(1) have "is_cont (byte_at ys 0)"
      unfolding at [symmetric] by simp
    with assms(2) show False by (simp add: boundary_def)
  qed
  have "utf8_head (take n (xs @ ys) @ drop n xs) = (True, n)"
    using assms(1,3) by (intro utf8_head_local) simp_all
  with n show "utf8_head xs = (True, n)" by simp
qed

lemma valid_utf8_step:
  "\<lbrakk>utf8_head s = (True, n); s \<noteq> []\<rbrakk> \<Longrightarrow> valid_utf8 s \<longleftrightarrow> valid_utf8 (drop n s)"
  by (subst valid_utf8.simps) simp

lemma valid_utf8_head: "\<lbrakk>valid_utf8 s; s \<noteq> []\<rbrakk> \<Longrightarrow> \<exists>n. utf8_head s = (True, n) \<and> 0 < n \<and> n \<le> length s"
  using utf8_head_length [of s "snd (utf8_head s)"] utf8_head_pos [of s]
  by (subst (asm) valid_utf8.simps) (auto simp: prod_eq_iff split: if_splits)

lemma valid_utf8_cancel: "valid_utf8 xs \<Longrightarrow> valid_utf8 (xs @ ys) \<longleftrightarrow> valid_utf8 ys"
proof (induction xs rule: length_induct)
  case (1 xs)
  show ?case
  proof (cases "xs = []")
    case False
    with 1 obtain n where n: "utf8_head xs = (True, n)" "0 < n" "n \<le> length xs"
      using valid_utf8_head by blast
    have "utf8_head (take n xs @ drop n xs @ ys) = (True, n)"
      by (rule utf8_head_local [OF n(1) False])
    then have "utf8_head (xs @ ys) = (True, n)" by (simp add: append_assoc [symmetric] del: append_assoc)
    from valid_utf8_step [OF this] False n have "valid_utf8 (xs @ ys) \<longleftrightarrow> valid_utf8 (drop n xs @ ys)"
      by simp
    moreover have "valid_utf8 (drop n xs)" using valid_utf8_step [OF n(1) False] 1(2) by simp
    ultimately show ?thesis using 1(1) n False by simp
  qed simp
qed

lemma valid_utf8_append [utf8]: "\<lbrakk>valid_utf8 xs; valid_utf8 ys\<rbrakk> \<Longrightarrow> valid_utf8 (xs @ ys)"
  by (simp add: valid_utf8_cancel)

text \<open>A boundary cuts a well-formed text into two well-formed texts.\<close>

lemma valid_utf8_cut: "\<lbrakk>valid_utf8 (xs @ ys); boundary ys\<rbrakk> \<Longrightarrow> valid_utf8 xs \<and> valid_utf8 ys"
proof (induction xs rule: length_induct)
  case (1 xs)
  show ?case
  proof (cases "xs = []")
    case False
    with 1(2) obtain n where n: "utf8_head (xs @ ys) = (True, n)" "0 < n"
      using valid_utf8_head by blast
    note h = head_before_boundary [OF False 1(3) n(1)]
    have "valid_utf8 (drop n xs @ ys)" using valid_utf8_step [OF n(1)] False h(1) 1(2) by simp
    moreover have "length (drop n xs) < length xs" using n(2) False by simp
    ultimately have "valid_utf8 (drop n xs) \<and> valid_utf8 ys" using 1(1,3) by blast
    with valid_utf8_step [OF h(2) False] show ?thesis by simp
  qed (use 1 in simp)
qed

section \<open>Slices at ASCII characters\<close>

lemma valid_utf8_single: "is_ascii c \<Longrightarrow> valid_utf8 [c]"
  by (rule valid_utf8_ascii) (simp add: is_ascii_def)

lemma valid_utf8_Cons: "is_ascii c \<Longrightarrow> valid_utf8 (c # s) \<longleftrightarrow> valid_utf8 s"
  using valid_utf8_cancel [OF valid_utf8_single, of c s] by simp

lemma valid_utf8_split: "is_ascii c \<Longrightarrow> valid_utf8 (xs @ c # ys) \<longleftrightarrow> valid_utf8 xs \<and> valid_utf8 ys"
  using valid_utf8_cut [OF _ boundary_ascii, of xs c ys]
  by (auto simp: valid_utf8_Cons valid_utf8_append)

lemma graphic_ascii: "graphic c \<Longrightarrow> is_ascii c"
  by (simp add: graphic_def is_ascii_def Let_def)

lemma valid_utf8_all_ascii: "list_all is_ascii s \<Longrightarrow> valid_utf8 s"
  by (rule valid_utf8_ascii) (simp add: list_all_iff is_ascii_def)

lemma find_char_split: "find_char P s = Some i \<Longrightarrow> \<exists>c. P c \<and> s = take i s @ c # drop (Suc i) s"
  by (induction s arbitrary: i) (auto split: if_splits)

lemma rfind_char_split: "rfind_char P s = Some i \<Longrightarrow> \<exists>c. P c \<and> s = take i s @ c # drop (Suc i) s"
  by (induction s arbitrary: i) (auto split: if_splits option.splits)

lemma valid_utf8_slices:
  assumes "valid_utf8 s" "s = take i s @ c # drop (Suc i) s" "is_ascii c"
  shows "valid_utf8 (take i s)" "valid_utf8 (drop (Suc i) s)" "valid_utf8 (drop i s)"
proof -
  have v: "valid_utf8 (take i s) \<and> valid_utf8 (drop (Suc i) s)"
    using assms(1) unfolding valid_utf8_split [OF assms(3), symmetric] assms(2) [symmetric] .
  then show "valid_utf8 (take i s)" "valid_utf8 (drop (Suc i) s)" by simp_all
  with assms(1) show "valid_utf8 (drop i s)"
    using valid_utf8_cancel [of "take i s" "drop i s"] by simp
qed

text \<open>The two slices around an ASCII character that was searched for.\<close>

lemma find_char_slices:
  assumes "find_char P s = Some i" "valid_utf8 s" "\<And>c. P c \<Longrightarrow> is_ascii c"
  shows "valid_utf8 (take i s)" "valid_utf8 (drop (Suc i) s)" "valid_utf8 (drop i s)"
  using find_char_split [OF assms(1)] valid_utf8_slices [OF assms(2)] assms(3) by blast+

lemma rfind_char_slices:
  assumes "rfind_char P s = Some i" "valid_utf8 s" "\<And>c. P c \<Longrightarrow> is_ascii c"
  shows "valid_utf8 (take i s)" "valid_utf8 (drop (Suc i) s)"
  using rfind_char_split [OF assms(1)] valid_utf8_slices [OF assms(2)] assms(3) by blast+

lemma find_str_split: "find_str pat s = Some i \<Longrightarrow> s = take i s @ pat @ drop (i + length pat) s"
proof (induction s arbitrary: i)
  case (Cons c s)
  show ?case
  proof (cases "prefix pat (c # s)")
    case True
    with Cons(2) show ?thesis by (auto simp: prefix_def)
  next
    case False
    with Cons(2) obtain j where "i = Suc j" "find_str pat s = Some j" by auto
    with Cons(1) show ?thesis by simp
  qed
qed (simp split: if_splits)

lemma find_str_slices:
  assumes "find_str pat s = Some i" "valid_utf8 s" "list_all is_ascii pat" "pat \<noteq> []"
  shows "valid_utf8 (take i s)" "valid_utf8 (drop (i + length pat) s)"
proof -
  have s: "valid_utf8 (take i s @ pat @ drop (i + length pat) s)"
    using find_str_split [OF assms(1)] assms(2) by simp
  have "boundary (pat @ t)" for t using assms(3,4) by (cases pat) (auto simp: boundary_ascii is_ascii_def is_cont_def)
  from valid_utf8_cut [OF s this]
  show "valid_utf8 (take i s)" "valid_utf8 (drop (i + length pat) s)"
    using valid_utf8_cancel [OF valid_utf8_all_ascii [OF assms(3)]] by blast+
qed

lemma split_char_valid:
  "\<lbrakk>is_ascii c; valid_utf8 s; p \<in> set (split_char c s)\<rbrakk> \<Longrightarrow> valid_utf8 p"
proof -
  assume c: "is_ascii c" and s: "valid_utf8 s" and p: "p \<in> set (split_char c s)"
  have "\<forall>p \<in> set ps. valid_utf8 p" if "valid_utf8 (join_char c ps)" for ps
    using c that by (induction c ps rule: join_char.induct) (auto simp: valid_utf8_split)
  from this [of "split_char c s"] s p show "valid_utf8 p" by (simp add: join_split_char)
qed

lemma dropWhile_eq_valid: "\<lbrakk>is_ascii c; valid_utf8 s\<rbrakk> \<Longrightarrow> valid_utf8 (dropWhile (\<lambda>x. x = c) s)"
  by (induction s) (auto simp: valid_utf8_Cons)

lemma dropWhile_rev_valid: "\<lbrakk>is_ascii c; valid_utf8 (rev s)\<rbrakk> \<Longrightarrow> valid_utf8 (rev (dropWhile (\<lambda>x. x = c) s))"
  by (induction s) (auto simp: valid_utf8_split)

lemma trim_matches_valid [utf8]: "\<lbrakk>is_ascii c; valid_utf8 s\<rbrakk> \<Longrightarrow> valid_utf8 (trim_matches c s)"
  by (simp add: trim_matches_def dropWhile_rev_valid dropWhile_eq_valid)

lemma trim_start_matches_valid [utf8]:
  "\<lbrakk>is_ascii c; valid_utf8 s\<rbrakk> \<Longrightarrow> valid_utf8 (trim_start_matches c s)"
  by (simp add: trim_start_matches_def dropWhile_eq_valid)

section \<open>Trimming white space\<close>

lemma white_space_chars: "w \<in> set white_space \<Longrightarrow> valid_utf8 w \<and> boundary w"
proof -
  have "list_all (\<lambda>w. valid_utf8 w \<and> boundary w) white_space" by code_simp
  then show "w \<in> set white_space \<Longrightarrow> valid_utf8 w \<and> boundary w" by (simp add: list_all_iff)
qed

lemma strip_front_valid:
  "valid_utf8 s \<Longrightarrow> list_all valid_utf8 ws \<Longrightarrow> valid_utf8 (strip_front ws s)"
proof (induction ws s rule: strip_front.induct)
  case (1 ws s)
  show ?case
  proof (cases "find (\<lambda>w. w \<noteq> [] \<and> prefix w s) ws")
    case None
    with 1(2) show ?thesis by (simp add: strip_front.simps)
  next
    case (Some w)
    then have "w \<in> set ws" "prefix w s" by (auto simp: find_Some_iff)
    with 1(2,3) have "valid_utf8 (drop (length w) s)"
      by (auto simp: prefix_def list_all_iff valid_utf8_cancel)
    with 1(1) [OF Some] 1(3) Some show ?thesis by (subst strip_front.simps) simp
  qed
qed

lemma strip_back_valid:
  "valid_utf8 (rev s) \<Longrightarrow> list_all boundary ws \<Longrightarrow> valid_utf8 (rev (strip_front (map rev ws) s))"
proof (induction "map rev ws" s rule: strip_front.induct)
  case (1 s)
  show ?case
  proof (cases "find (\<lambda>w. w \<noteq> [] \<and> prefix w s) (map rev ws)")
    case None
    with 1(2) show ?thesis by (simp add: strip_front.simps)
  next
    case (Some w)
    then have "w \<in> set (map rev ws)" "prefix w s" by (auto simp: find_Some_iff)
    then obtain v t where v: "w = rev v" "v \<in> set ws" "s = rev v @ t" by (auto simp: prefix_def)
    with 1(2,3) have "valid_utf8 (rev (drop (length w) s))"
      using valid_utf8_cut [of "rev t" v] by (simp add: list_all_iff)
    with 1(1) [OF Some] 1(3) Some show ?thesis by (subst strip_front.simps) simp
  qed
qed

lemma str_trim_valid [utf8]: "valid_utf8 s \<Longrightarrow> valid_utf8 (str_trim s)"
proof -
  have "list_all valid_utf8 white_space" "list_all boundary white_space"
    using white_space_chars by (auto simp: list_all_iff)
  then show "valid_utf8 s \<Longrightarrow> valid_utf8 (str_trim s)"
    by (simp add: str_trim_def strip_back_valid strip_front_valid)
qed

section \<open>Lower case and numbers\<close>

lemma lower_char_byte: "of_char (lower_char c) = (of_char c :: nat) \<or> of_char (lower_char c) < (128 :: nat) \<and> of_char c < (128 :: nat)"
  by (auto simp: lower_char_def Let_def)

text \<open>Two bytes that are equal, or both ASCII.\<close>

definition same_class :: "nat \<Rightarrow> nat \<Rightarrow> bool" where
  "same_class b c \<longleftrightarrow> b = c \<or> b < 128 \<and> c < 128"

lemma same_class_tests:
  assumes "same_class b c"
  shows "is_cont b = is_cont c" "second_ok3 x b = second_ok3 x c" "second_ok4 x b = second_ok4 x c"
  using assms by (auto simp: same_class_def is_cont_def second_ok3_def second_ok4_def)

lemma head_of_cong:
  assumes "same_class b0 c0" "same_class b1 c1" "same_class b2 c2" "same_class b3 c3"
  shows "head_of b0 b1 b2 b3 = head_of c0 c1 c2 c3"
proof (cases "b0 = c0")
  case True
  then show ?thesis
    unfolding head_of_def same_class_tests [OF assms(2)] same_class_tests(1) [OF assms(3)]
      same_class_tests(1) [OF assms(4)] by (rule arg_cong)
next
  case False
  with assms(1) show ?thesis by (simp add: same_class_def head_of_1)
qed

lemma utf8_head_lower: "utf8_head (map lower_char s) = utf8_head s"
proof -
  have "same_class (byte_at (map lower_char s) i) (byte_at s i)" for i
    using lower_char_byte by (auto simp: byte_at_def same_class_def)
  then show ?thesis unfolding utf8_head_def by (intro head_of_cong)
qed

lemma to_ascii_lowercase_valid [utf8]: "valid_utf8 s \<Longrightarrow> valid_utf8 (to_ascii_lowercase s)"
  unfolding to_ascii_lowercase_def
proof (induction s rule: valid_utf8.induct)
  case (1 s)
  show ?case
  proof (cases "s = []")
    case False
    with 1(2) have "fst (utf8_head s)" "valid_utf8 (drop (snd (utf8_head s)) s)"
      by (simp_all add: valid_utf8.simps [of s] split: if_splits)
    with 1(1) False show ?thesis
      by (subst valid_utf8.simps) (simp add: utf8_head_lower drop_map)
  qed simp
qed

lemma show_u16_valid [utf8]: "valid_utf8 (show_u16 p)"
  by (rule valid_utf8_all_ascii) (auto simp: list_all_iff dest: show_u16_graphic graphic_ascii)

lemma show_radix_valid: "\<lbrakk>2 \<le> b; b \<le> 36\<rbrakk> \<Longrightarrow> valid_utf8 (show_radix b n)"
  by (rule valid_utf8_all_ascii) (auto simp: list_all_iff dest: show_radix_graphic graphic_ascii)

text \<open>A part of a message between backquotes.\<close>

definition quoted :: "string \<Rightarrow> string" where
  "quoted s = CHR 0x60 # s @ [CHR 0x60]"

lemma quoted_valid [utf8]: "valid_utf8 (quoted s) \<longleftrightarrow> valid_utf8 s"
  by (simp add: quoted_def valid_utf8_Cons valid_utf8_split is_ascii_def)

lemmas utf8_simps = valid_utf8_Cons valid_utf8_split valid_utf8_cancel quoted_valid is_ascii_def

end
