(* ===== verification/Node.thy ===== *)
theory Node
  imports Utf8_Text
begin

text \<open>
  \<open>src/node.rs\<close>: GOST-style node strings, \<open>scheme://[user:pass@]host:port[/target][?query]\<close>.
  The record, its three accessors, \<open>parse_node\<close> with the pieces of its body, \<open>parse_host_port\<close>,
  \<open>parse_port\<close> and the percent decoder. Error messages are values of \<open>node_error\<close> that carry
  what the message interpolates; \<open>node_error_text\<close> is the message itself.
\<close>

section \<open>Model\<close>

record node =
  n_scheme :: string
  n_user :: "string option"
  n_pass :: "string option"
  n_host :: string
  n_port :: "u16 option"
  n_target :: string
  n_query :: "string \<rightharpoonup> string"

datatype hostport_error =
    UnterminatedBracket
  | TrailingAfterBracket string
  | InvalidPort string

datatype node_error =
    EmptyNode
  | MissingScheme string
  | EmptyScheme string
  | BadHostPort string hostport_error

text \<open>The messages. A quoted part stands between backquotes.\<close>

fun hostport_error_text :: "hostport_error \<Rightarrow> string" where
  "hostport_error_text UnterminatedBracket = ''unterminated IPv6 bracket''"
| "hostport_error_text (TrailingAfterBracket after) =
     ''unexpected characters after IPv6 literal: '' @ quoted after"
| "hostport_error_text (InvalidPort p) = ''invalid port '' @ quoted p"

fun node_error_text :: "node_error \<Rightarrow> string" where
  "node_error_text EmptyNode = ''empty node string''"
| "node_error_text (MissingScheme s) =
     ''node '' @ quoted s @ '' is missing a scheme (expected e.g. tcp://, udp://, socks5://)''"
| "node_error_text (EmptyScheme s) = ''node '' @ quoted s @ '' has an empty scheme''"
| "node_error_text (BadHostPort s e) = ''node '' @ quoted s @ '': '' @ hostport_error_text e"

definition authority :: "node \<Rightarrow> string option" where
  "authority n = map_option (\<lambda>p. n_host n @ '':'' @ show_u16 p) (n_port n)"

definition bind_string :: "node \<Rightarrow> string option" where
  "bind_string n =
     (case n_port n of
        None \<Rightarrow> None
      | Some p \<Rightarrow>
          if n_host n = [] then Some (''0.0.0.0:'' @ show_u16 p)
          else Some (n_host n @ '':'' @ show_u16 p))"

definition targets :: "node \<Rightarrow> string list" where
  "targets n = filter (\<lambda>s. s \<noteq> []) (map str_trim (split_char CHR '','' (n_target n)))"

definition parse_port :: "string \<Rightarrow> (hostport_error, u16) result" where
  "parse_port p = ok_or (InvalidPort p) (parse_u16 p)"

definition parse_host_port :: "string \<Rightarrow> (hostport_error, string \<times> u16 option) result" where
  "parse_host_port hp =
     (if hp = [] then Ok ([], None)
      else case strip_char CHR ''['' hp of
        Some stripped \<Rightarrow>
          and_then (ok_or UnterminatedBracket (find_char (\<lambda>c. c = CHR '']'') stripped)) (\<lambda>close.
            let host = take close stripped;
                after = drop (close + 1) stripped
            in case strip_char CHR '':'' after of
                 Some p \<Rightarrow> and_then (parse_port p) (\<lambda>port. Ok (host, Some port))
               | None \<Rightarrow>
                   if after = [] then Ok (host, None) else Err (TrailingAfterBracket after))
      | None \<Rightarrow>
          (case rfind_char (\<lambda>c. c = CHR '':'') hp of
             Some c \<Rightarrow> and_then (parse_port (drop (c + 1) hp)) (\<lambda>port. Ok (take c hp, Some port))
           | None \<Rightarrow> Ok (hp, None)))"

text \<open>The loop of \<open>decode\<close>: an escape needs two more bytes after the percent sign.\<close>

fun decode_bytes :: "string \<Rightarrow> string" where
  "decode_bytes [] = []"
| "decode_bytes [c] = [c]"
| "decode_bytes [c, d] = [c, d]"
| "decode_bytes (c # h # l # cs) =
     (if c = CHR ''%'' then
        (case (to_digit 16 h, to_digit 16 l) of
           (Some a, Some b) \<Rightarrow> char_of (a * 16 + b) # decode_bytes cs
         | _ \<Rightarrow> c # decode_bytes (h # l # cs))
      else c # decode_bytes (h # l # cs))"

definition decode :: "string \<Rightarrow> string" where
  "decode s = (if CHR ''%'' \<notin> set s then s else from_utf8_lossy (decode_bytes s))"

text \<open>The authority ends at the first slash or question mark.\<close>

definition auth_end :: "string \<Rightarrow> nat" where
  "auth_end rest =
     (case find_char (\<lambda>c. c = CHR ''/'' \<or> c = CHR ''?'') rest of
        Some i \<Rightarrow> i | None \<Rightarrow> length rest)"

text \<open>The remainder after the authority: path and query string.\<close>

definition split_remainder :: "string \<Rightarrow> string \<times> string" where
  "split_remainder r =
     (case r of
        [] \<Rightarrow> ([], [])
      | c # cs \<Rightarrow>
          if c = CHR ''?'' then ([], cs)
          else if c = CHR ''/'' then
            (case find_char (\<lambda>c. c = CHR ''?'') r of
               Some q \<Rightarrow> (drop 1 (take q r), drop (q + 1) r)
             | None \<Rightarrow> (cs, []))
          else ([], []))"

text \<open>Userinfo is everything before the last at-sign of the authority.\<close>

definition split_authority :: "string \<Rightarrow> string option \<times> string" where
  "split_authority a =
     (case rfind_char (\<lambda>c. c = CHR ''@'') a of
        Some at \<Rightarrow> (Some (take at a), drop (at + 1) a)
      | None \<Rightarrow> (None, a))"

definition split_userinfo :: "string option \<Rightarrow> string option \<times> string option" where
  "split_userinfo ui =
     (case ui of
        Some u \<Rightarrow>
          (case find_char (\<lambda>c. c = CHR '':'') u of
             Some c \<Rightarrow> (Some (decode (take c u)), Some (decode (drop (c + 1) u)))
           | None \<Rightarrow> (Some (decode u), None))
      | None \<Rightarrow> (None, None))"

definition query_insert :: "(string \<rightharpoonup> string) \<Rightarrow> string \<Rightarrow> (string \<rightharpoonup> string)" where
  "query_insert m pair =
     (case find_char (\<lambda>c. c = CHR ''='') pair of
        Some eq \<Rightarrow> m(take eq pair \<mapsto> drop (eq + 1) pair)
      | None \<Rightarrow> m(pair \<mapsto> []))"

definition parse_query :: "string \<Rightarrow> (string \<rightharpoonup> string)" where
  "parse_query q =
     foldl query_insert Map.empty (filter (\<lambda>p. p \<noteq> []) (split_char CHR ''&'' q))"

definition parse_node :: "string \<Rightarrow> (node_error, node) result" where
  "parse_node s0 =
     (let s = str_trim s0 in
      if s = [] then Err EmptyNode
      else and_then (ok_or (MissingScheme s) (find_str ''://'' s)) (\<lambda>scheme_idx.
        let scheme = to_ascii_lowercase (take scheme_idx s) in
        if scheme = [] then Err (EmptyScheme s)
        else
          let rest = drop (scheme_idx + 3) s;
              (path, query_str) = split_remainder (drop (auth_end rest) rest);
              (userinfo, hostport) = split_authority (take (auth_end rest) rest);
              (user, pass) = split_userinfo userinfo
          in and_then (map_err (BadHostPort s) (parse_host_port hostport)) (\<lambda>(host, port).
               Ok \<lparr>n_scheme = scheme, n_user = user, n_pass = pass, n_host = host,
                   n_port = port, n_target = trim_matches CHR ''/'' path,
                   n_query = parse_query query_str\<rparr>)))"

section \<open>Percent decoding\<close>

text \<open>A percent encoder that escapes at least the bytes satisfying \<open>P\<close>.\<close>

definition pct_byte :: "char \<Rightarrow> string" where
  "pct_byte c =
     [CHR ''%'', digit_char (of_char c div 16), digit_char (of_char c mod 16)]"

definition pct_encode :: "(char \<Rightarrow> bool) \<Rightarrow> string \<Rightarrow> string" where
  "pct_encode P s = concat (map (\<lambda>c. if P c then pct_byte c else [c]) s)"

lemma decode_bytes_pct: "decode_bytes (pct_byte c @ s) = c # decode_bytes s"
proof -
  have b: "of_char c < (256 :: nat)" using of_char_mod_256 [of c, where ?'a = nat] mod_less_divisor [of 256 "of_char c :: nat"] by linarith
  then have "of_char c div 16 < (16 :: nat)" by (simp add: less_mult_imp_div_less)
  then have "to_digit 16 (digit_char (of_char c div 16)) = Some (of_char c div 16)"
    "to_digit 16 (digit_char (of_char c mod 16)) = Some (of_char c mod 16)"
    by (simp_all add: to_digit_digit_char)
  then show ?thesis by (simp add: pct_byte_def)
qed

lemma decode_bytes_plain: "c \<noteq> CHR ''%'' \<Longrightarrow> decode_bytes (c # s) = c # decode_bytes s"
  by (cases s; cases "tl s") auto

lemma decode_bytes_encode: "P CHR ''%'' \<Longrightarrow> decode_bytes (pct_encode P s) = s"
proof (induction s)
  case (Cons c s)
  have "pct_encode P (c # s) = (if P c then pct_byte c else [c]) @ pct_encode P s"
    by (simp add: pct_encode_def)
  moreover have "\<not> P c \<Longrightarrow> c \<noteq> CHR ''%''" using Cons.prems by auto
  ultimately show ?case using Cons by (simp add: decode_bytes_pct decode_bytes_plain)
qed (simp add: pct_encode_def)

lemma pct_encode_no_percent:
  "\<lbrakk>CHR ''%'' \<notin> set (pct_encode P s); P CHR ''%''\<rbrakk> \<Longrightarrow> pct_encode P s = s"
  by (induction s) (auto simp: pct_encode_def pct_byte_def split: if_splits)

lemma decode_pct_encode: "\<lbrakk>P CHR ''%''; valid_utf8 s\<rbrakk> \<Longrightarrow> decode (pct_encode P s) = s"
  by (auto simp: decode_def decode_bytes_encode from_utf8_lossy_id pct_encode_no_percent)

lemma decode_valid: "valid_utf8 s \<Longrightarrow> valid_utf8 (decode s)"
  by (simp add: decode_def from_utf8_lossy_valid)

lemma decode_plain: "CHR ''%'' \<notin> set s \<Longrightarrow> decode s = s"
  by (simp add: decode_def)

section \<open>The parser on a decomposed string\<close>

text \<open>A string whose parts contain no separator of an earlier stage is split at the separators.\<close>

lemma find_auth_end:
  assumes "\<And>c. c \<in> set auth \<Longrightarrow> c \<noteq> CHR ''/'' \<and> c \<noteq> CHR ''?''"
    and "rem = [] \<or> hd rem = CHR ''/'' \<or> hd rem = CHR ''?''"
  shows "auth_end (auth @ rem) = length auth"
proof (cases rem)
  case Nil
  with assms(1) have "find_char (\<lambda>c. c = CHR ''/'' \<or> c = CHR ''?'') (auth @ rem) = None"
    by (auto simp: find_char_None_iff)
  with Nil show ?thesis by (simp add: auth_end_def)
next
  case (Cons c cs)
  with assms have "find_char (\<lambda>c. c = CHR ''/'' \<or> c = CHR ''?'') (auth @ c # cs) = Some (length auth)"
    by (intro find_char_append) auto
  with Cons show ?thesis by (simp add: auth_end_def)
qed

lemma parse_node_text:
  assumes "sch \<noteq> []" "CHR '':'' \<notin> set sch"
    and "\<And>c. c \<in> set auth \<Longrightarrow> c \<noteq> CHR ''/'' \<and> c \<noteq> CHR ''?''"
    and "rem = [] \<or> hd rem = CHR ''/'' \<or> hd rem = CHR ''?''"
    and "str_trim s0 = sch @ ''://'' @ auth @ rem"
  shows "parse_node s0 =
    and_then (map_err (BadHostPort (sch @ ''://'' @ auth @ rem)) (parse_host_port (snd (split_authority auth))))
      (\<lambda>(host, port). Ok
        \<lparr>n_scheme = to_ascii_lowercase sch,
         n_user = fst (split_userinfo (fst (split_authority auth))),
         n_pass = snd (split_userinfo (fst (split_authority auth))),
         n_host = host, n_port = port,
         n_target = trim_matches CHR ''/'' (fst (split_remainder rem)),
         n_query = parse_query (snd (split_remainder rem))\<rparr>)"
proof -
  have idx: "find_str ''://'' (sch @ ''://'' @ auth @ rem) = Some (length sch)"
    using find_str_append [OF assms(2), of "''//''" "auth @ rem"] by simp
  have low: "to_ascii_lowercase sch \<noteq> []" using assms(1) by (simp add: to_ascii_lowercase_def)
  have rest: "drop (length sch + 3) (sch @ ''://'' @ auth @ rem) = auth @ rem" by simp
  show ?thesis
    unfolding parse_node_def assms(5) Let_def idx ok_or_simps and_then_simps rest
    using low assms(1) by (simp add: split_def find_auth_end [OF assms(3,4)])
qed

lemma split_authority_none: "CHR ''@'' \<notin> set hp \<Longrightarrow> split_authority hp = (None, hp)"
  by (auto simp: split_authority_def rfind_char_None_iff split: option.splits)

lemma split_authority_some:
  "CHR ''@'' \<notin> set hp \<Longrightarrow> split_authority (ui @ CHR ''@'' # hp) = (Some ui, hp)"
proof -
  assume "CHR ''@'' \<notin> set hp"
  then have "rfind_char (\<lambda>c. c = CHR ''@'') (ui @ CHR ''@'' # hp) = Some (length ui)"
    by (intro rfind_char_append) auto
  then show ?thesis by (simp add: split_authority_def)
qed

lemma split_userinfo_user_only:
  "CHR '':'' \<notin> set u \<Longrightarrow> split_userinfo (Some u) = (Some (decode u), None)"
  by (auto simp: split_userinfo_def find_char_None_iff split: option.splits)

lemma split_userinfo_pair:
  "CHR '':'' \<notin> set u \<Longrightarrow>
     split_userinfo (Some (u @ CHR '':'' # p)) = (Some (decode u), Some (decode p))"
proof -
  assume "CHR '':'' \<notin> set u"
  then have "find_char (\<lambda>c. c = CHR '':'') (u @ CHR '':'' # p) = Some (length u)"
    by (intro find_char_append) auto
  then show ?thesis by (simp add: split_userinfo_def)
qed

lemma split_remainder_path:
  "CHR ''?'' \<notin> set path \<Longrightarrow> split_remainder (CHR ''/'' # path) = (path, [])"
proof -
  assume "CHR ''?'' \<notin> set path"
  then have "find_char (\<lambda>c. c = CHR ''?'') path = None" by (auto simp: find_char_None_iff)
  then show ?thesis by (simp add: split_remainder_def)
qed

lemma split_remainder_path_query:
  "CHR ''?'' \<notin> set path \<Longrightarrow>
     split_remainder (CHR ''/'' # path @ CHR ''?'' # q) = (path, q)"
proof -
  assume "CHR ''?'' \<notin> set path"
  then have "find_char (\<lambda>c. c = CHR ''?'') ((CHR ''/'' # path) @ CHR ''?'' # q) =
      Some (length (CHR ''/'' # path))"
    by (intro find_char_append) auto
  then show ?thesis by (simp add: split_remainder_def)
qed

lemma split_remainder_other [simp]:
  "split_remainder [] = ([], [])" "split_remainder (CHR ''?'' # q) = ([], q)"
  by (simp_all add: split_remainder_def)

lemma parse_host_port_plain:
  assumes "CHR ''['' \<notin> set h"
  shows "parse_host_port (h @ CHR '':'' # show_u16 p) = Ok (h, Some p)"
proof -
  have "CHR '':'' \<notin> set (show_u16 p)" by (rule notin_show_u16) (simp add: to_digit_def)
  then have r: "rfind_char (\<lambda>c. c = CHR '':'') (h @ CHR '':'' # show_u16 p) = Some (length h)"
    by (intro rfind_char_append) auto
  have "strip_char CHR ''['' (h @ CHR '':'' # show_u16 p) = None"
    using assms by (cases h) auto
  with r show ?thesis by (simp add: parse_host_port_def parse_port_def)
qed

lemma parse_host_port_bracket:
  assumes "CHR '']'' \<notin> set h"
  shows "parse_host_port (CHR ''['' # h @ '']:'' @ show_u16 p) = Ok (h, Some p)"
    and "parse_host_port (CHR ''['' # h @ '']'') = Ok (h, None)"
proof -
  from assms have "find_char (\<lambda>c. c = CHR '']'') (h @ CHR '']'' # t) = Some (length h)" for t
    by (intro find_char_append) auto
  then show "parse_host_port (CHR ''['' # h @ '']:'' @ show_u16 p) = Ok (h, Some p)"
    "parse_host_port (CHR ''['' # h @ '']'') = Ok (h, None)"
    by (simp_all add: parse_host_port_def parse_port_def)
qed

lemma parse_host_port_no_port:
  assumes "CHR '':'' \<notin> set h" "CHR ''['' \<notin> set h"
  shows "parse_host_port h = Ok (h, None)"
proof -
  have "rfind_char (\<lambda>c. c = CHR '':'') h = None" using assms(1) by (auto simp: rfind_char_None_iff)
  moreover have "strip_char CHR ''['' h = None" using assms(2) by (cases h) auto
  ultimately show ?thesis by (simp add: parse_host_port_def)
qed

section \<open>Rendering a node and reading it back\<close>

text \<open>
  The text form of a node, written the way the usage text documents it: userinfo percent-encoded
  outside the unreserved characters of RFC 3986, hosts with a colon bracketed, the query a list
  of \<open>key=value\<close> pairs.
\<close>

definition unreserved :: "char \<Rightarrow> bool" where
  "unreserved c \<longleftrightarrow> to_digit 36 c \<noteq> None \<or> c \<in> set ''-._~''"

definition enc_userinfo :: "string \<Rightarrow> string" where
  "enc_userinfo s = pct_encode (\<lambda>c. \<not> unreserved c) s"

definition render_userinfo :: "string option \<Rightarrow> string option \<Rightarrow> string" where
  "render_userinfo user pass =
     (case user of
        None \<Rightarrow> []
      | Some u \<Rightarrow>
          (case pass of
             None \<Rightarrow> enc_userinfo u
           | Some p \<Rightarrow> enc_userinfo u @ '':'' @ enc_userinfo p) @ ''@'')"

definition render_hostport :: "string \<Rightarrow> u16 option \<Rightarrow> string" where
  "render_hostport host port =
     (if CHR '':'' \<in> set host then ''['' @ host @ '']'' else host) @
     (case port of None \<Rightarrow> [] | Some p \<Rightarrow> '':'' @ show_u16 p)"

definition show_pair :: "string \<times> string \<Rightarrow> string" where
  "show_pair kv = fst kv @ CHR ''='' # snd kv"

definition render_query :: "(string \<times> string) list \<Rightarrow> string" where
  "render_query qs = join_char CHR ''&'' (map show_pair qs)"

definition render_node :: "node \<Rightarrow> (string \<times> string) list \<Rightarrow> string" where
  "render_node n qs =
     n_scheme n @ ''://'' @ render_userinfo (n_user n) (n_pass n) @
     render_hostport (n_host n) (n_port n) @
     (if n_target n = [] then [] else ''/'' @ n_target n) @
     (if qs = [] then [] else ''?'' @ render_query qs)"

fun query_pair_ok :: "string \<times> string \<Rightarrow> bool" where
  "query_pair_ok (k, v) \<longleftrightarrow>
     list_all (\<lambda>c. graphic c \<and> c \<noteq> CHR ''&'' \<and> c \<noteq> CHR ''='') k \<and>
     list_all (\<lambda>c. graphic c \<and> c \<noteq> CHR ''&'') v"

definition wf_node :: "node \<Rightarrow> (string \<times> string) list \<Rightarrow> bool" where
  "wf_node n qs \<longleftrightarrow>
     n_scheme n \<noteq> [] \<and> to_ascii_lowercase (n_scheme n) = n_scheme n \<and>
     list_all (\<lambda>c. graphic c \<and> c \<noteq> CHR '':'') (n_scheme n) \<and>
     (case n_user n of None \<Rightarrow> n_pass n = None | Some u \<Rightarrow> valid_utf8 u) \<and>
     (case n_pass n of None \<Rightarrow> True | Some p \<Rightarrow> valid_utf8 p) \<and>
     list_all (\<lambda>c. graphic c \<and> c \<notin> set ''/?@[]'') (n_host n) \<and>
     list_all (\<lambda>c. graphic c \<and> c \<noteq> CHR ''?'') (n_target n) \<and>
     (n_target n = [] \<or> hd (n_target n) \<noteq> CHR ''/'' \<and> last (n_target n) \<noteq> CHR ''/'') \<and>
     list_all query_pair_ok qs \<and>
     n_query n = map_of (rev qs)"

lemma to_digit_graphic: "to_digit r c \<noteq> None \<Longrightarrow> graphic c"
  by (simp add: to_digit_def graphic_def Let_def split: if_splits)

lemma reserved_not_unreserved: "c \<in> set ''%:@/?[]'' \<Longrightarrow> \<not> unreserved c"
  by (auto simp: unreserved_def to_digit_def)

lemma punct_graphic: "c \<in> set ''-._~'' \<Longrightarrow> graphic c" "graphic CHR ''%''"
  by (auto simp: graphic_def)

lemma unreserved_safe: "unreserved c \<Longrightarrow> c \<notin> set ''%:@/?[]''"
  by (erule contrapos_pn) (rule reserved_not_unreserved)

lemma unreserved_graphic: "unreserved c \<Longrightarrow> graphic c"
  unfolding unreserved_def by (erule disjE) (rule to_digit_graphic, assumption, rule punct_graphic)

lemma digit_char_unreserved: "d < 16 \<Longrightarrow> unreserved (digit_char d)"
  by (simp add: unreserved_def to_digit_digit_char)

lemma enc_userinfo_chars:
  "c \<in> set (enc_userinfo s) \<Longrightarrow> unreserved c \<or> c = CHR ''%''"
proof -
  have b: "of_char x div 16 < (16 :: nat)" "of_char x mod 16 < (16 :: nat)" for x
    using of_char_mod_256 [of x, where ?'a = nat] mod_less_divisor [of 256 "of_char x :: nat"]
    by linarith+
  assume "c \<in> set (enc_userinfo s)"
  then show ?thesis
    using digit_char_unreserved b
    by (auto simp: enc_userinfo_def pct_encode_def pct_byte_def split: if_splits)
qed

lemma enc_userinfo_safe:
  "c \<in> set (enc_userinfo s) \<Longrightarrow> graphic c \<and> c \<notin> set '':@/?[]''"
  using enc_userinfo_chars [of c s] unreserved_graphic [of c] unreserved_safe [of c] punct_graphic(2)
  by auto

lemma decode_enc_userinfo: "valid_utf8 s \<Longrightarrow> decode (enc_userinfo s) = s"
  unfolding enc_userinfo_def
  by (rule decode_pct_encode) (auto dest: unreserved_safe)

lemma query_insert_pair:
  assumes "query_pair_ok kv"
  shows "query_insert m (show_pair kv) = m(fst kv \<mapsto> snd kv)"
proof -
  have "find_char (\<lambda>c. c = CHR ''='') (fst kv @ CHR ''='' # snd kv) = Some (length (fst kv))"
    using assms by (intro find_char_append) (cases kv, auto simp: list_all_iff)+
  then show ?thesis by (simp add: query_insert_def show_pair_def)
qed

lemma foldl_query_insert:
  "list_all query_pair_ok qs \<Longrightarrow>
     foldl query_insert m (map show_pair qs) = foldl (\<lambda>m kv. m(fst kv \<mapsto> snd kv)) m qs"
  by (induction qs arbitrary: m) (simp_all add: query_insert_pair)

lemma foldl_upd_map_of: "foldl (\<lambda>m kv. m(fst kv \<mapsto> snd kv)) Map.empty qs = map_of (rev qs)"
  by (induction qs rule: rev_induct) auto

lemma parse_query_render:
  assumes "list_all query_pair_ok qs"
  shows "parse_query (render_query qs) = map_of (rev qs)"
proof (cases "qs = []")
  case True
  then show ?thesis by (simp add: parse_query_def render_query_def)
next
  case False
  have "CHR ''&'' \<notin> set (show_pair kv)" if "kv \<in> set qs" for kv
  proof -
    have "query_pair_ok kv" using assms that by (simp add: list_all_iff)
    then show ?thesis by (cases kv) (auto simp: list_all_iff show_pair_def)
  qed
  then have "split_char CHR ''&'' (render_query qs) = map show_pair qs"
    unfolding render_query_def using False by (intro split_char_join) auto
  moreover have "filter (\<lambda>p. p \<noteq> []) (map show_pair qs) = map show_pair qs"
    by (simp add: filter_id_conv show_pair_def)
  ultimately show ?thesis
    using foldl_query_insert [OF assms] by (simp add: parse_query_def foldl_upd_map_of)
qed

lemma wf_nodeD:
  assumes "wf_node n qs"
  shows "n_scheme n \<noteq> []" "to_ascii_lowercase (n_scheme n) = n_scheme n"
    "\<And>c. c \<in> set (n_scheme n) \<Longrightarrow> graphic c \<and> c \<noteq> CHR '':''"
    "\<And>c. c \<in> set (n_host n) \<Longrightarrow> graphic c \<and> c \<notin> set ''/?@[]''"
    "\<And>c. c \<in> set (n_target n) \<Longrightarrow> graphic c \<and> c \<noteq> CHR ''?''"
    "n_target n = [] \<or> hd (n_target n) \<noteq> CHR ''/'' \<and> last (n_target n) \<noteq> CHR ''/''"
    "n_user n = None \<Longrightarrow> n_pass n = None"
    "\<And>u. n_user n = Some u \<Longrightarrow> valid_utf8 u" "\<And>p. n_pass n = Some p \<Longrightarrow> valid_utf8 p"
    "list_all query_pair_ok qs"
    "n_query n = map_of (rev qs)"
  using assms unfolding wf_node_def by (simp_all add: list_all_iff)

lemma render_hostport_chars:
  assumes "c \<in> set (render_hostport h p)" "\<And>c. c \<in> set h \<Longrightarrow> graphic c \<and> c \<notin> set ''/?@[]''"
  shows "graphic c \<and> c \<notin> set ''/?@''"
proof -
  have "c \<in> set h \<or> c \<in> set ''[]:'' \<or> (\<exists>q. c \<in> set (show_u16 q))"
    using assms(1) by (auto simp: render_hostport_def split: if_splits option.splits)
  moreover have "graphic c \<and> c \<notin> set ''/?@''" if "c \<in> set (show_u16 q)" for q
    using that show_u16_graphic [OF that] notin_show_u16 [of c q]
    by (auto simp: to_digit_def)
  moreover have "c \<in> set ''[]:'' \<Longrightarrow> graphic c \<and> c \<notin> set ''/?@''" by (auto simp: graphic_def)
  ultimately show ?thesis using assms(2) by auto
qed

lemma parse_render_hostport:
  assumes "\<And>c. c \<in> set h \<Longrightarrow> graphic c \<and> c \<notin> set ''/?@[]''"
  shows "parse_host_port (render_hostport h p) = Ok (h, p)"
proof -
  have "CHR ''['' \<notin> set h" "CHR '']'' \<notin> set h" using assms by auto
  then show ?thesis
    using parse_host_port_plain [of h] parse_host_port_bracket [of h] parse_host_port_no_port [of h]
    by (auto simp: render_hostport_def split: option.splits)
qed

lemma split_render_authority:
  assumes wf: "wf_node n qs"
  shows "split_authority (render_userinfo (n_user n) (n_pass n) @ render_hostport (n_host n) (n_port n)) =
     (case n_user n of
        None \<Rightarrow> (None, render_hostport (n_host n) (n_port n))
      | Some u \<Rightarrow>
          (Some (case n_pass n of
                   None \<Rightarrow> enc_userinfo u
                 | Some p \<Rightarrow> enc_userinfo u @ '':'' @ enc_userinfo p),
           render_hostport (n_host n) (n_port n)))"
proof -
  have "CHR ''@'' \<notin> set (render_hostport (n_host n) (n_port n))"
    using render_hostport_chars [of "CHR ''@''" "n_host n" "n_port n"] wf_nodeD(4) [OF wf] by auto
  then show ?thesis
    by (simp add: render_userinfo_def split_authority_none split_authority_some split: option.splits)
qed

lemma split_render_userinfo:
  assumes "wf_node n qs" "n_user n = Some u"
  shows "split_userinfo (Some (case n_pass n of
                   None \<Rightarrow> enc_userinfo u
                 | Some p \<Rightarrow> enc_userinfo u @ '':'' @ enc_userinfo p)) = (Some u, n_pass n)"
proof -
  have c: "CHR '':'' \<notin> set (enc_userinfo u)" using enc_userinfo_safe [of "CHR '':''" u] by auto
  show ?thesis
    using wf_nodeD(8,9) [OF assms(1)] assms(2) c
    by (auto simp: split_userinfo_user_only split_userinfo_pair decode_enc_userinfo split: option.splits)
qed

lemma render_remainder:
  assumes "wf_node n qs"
  defines "r \<equiv> (if n_target n = [] then [] else ''/'' @ n_target n) @
                (if qs = [] then [] else ''?'' @ render_query qs)"
  shows "split_remainder r = (n_target n, if qs = [] then [] else render_query qs)"
    and "r = [] \<or> hd r = CHR ''/'' \<or> hd r = CHR ''?''"
proof -
  have "CHR ''?'' \<notin> set (n_target n)" using wf_nodeD(5) [OF assms(1)] by auto
  then show "split_remainder r = (n_target n, if qs = [] then [] else render_query qs)"
    by (simp add: r_def split_remainder_path split_remainder_path_query)
  show "r = [] \<or> hd r = CHR ''/'' \<or> hd r = CHR ''?''" by (simp add: r_def)
qed

lemma render_query_graphic:
  assumes "list_all query_pair_ok qs" "c \<in> set (render_query qs)"
  shows "graphic c"
  using assms
proof -
  have join: "c \<in> set (join_char d ps) \<Longrightarrow> c = d \<or> (\<exists>p \<in> set ps. c \<in> set p)" for d ps
    by (induction d ps rule: join_char.induct) auto
  from join [OF assms(2) [unfolded render_query_def]]
  consider "c = CHR ''&''" | kv where "kv \<in> set qs" "c \<in> set (show_pair kv)" by auto
  then show ?thesis
  proof cases
    case 1
    then show ?thesis by (simp add: graphic_def)
  next
    case 2
    with assms(1) have "query_pair_ok kv" by (simp add: list_all_iff)
    moreover have "graphic CHR ''=''" by (simp add: graphic_def)
    ultimately show ?thesis using 2 by (cases kv) (auto simp: list_all_iff show_pair_def)
  qed
qed

lemma render_userinfo_chars:
  "c \<in> set (render_userinfo u p) \<Longrightarrow> graphic c \<and> c \<noteq> CHR ''/'' \<and> c \<noteq> CHR ''?''"
proof -
  assume "c \<in> set (render_userinfo u p)"
  then consider v where "c \<in> set (enc_userinfo v)" | "c = CHR '':''" | "c = CHR ''@''"
    by (auto simp: render_userinfo_def split: option.splits)
  then show ?thesis
  proof cases
    case 1
    from enc_userinfo_safe [OF this] show ?thesis by auto
  qed (simp_all add: graphic_def)
qed

lemma render_node_graphic:
  assumes "wf_node n qs" "c \<in> set (render_node n qs)"
  shows "graphic c"
proof -
  note wf = wf_nodeD [OF assms(1)]
  have "c \<in> set (n_scheme n) \<or> c \<in> set '':/?'' \<or> c \<in> set (render_userinfo (n_user n) (n_pass n)) \<or>
        c \<in> set (render_hostport (n_host n) (n_port n)) \<or> c \<in> set (n_target n) \<or>
        c \<in> set (render_query qs)"
    using assms(2) by (auto simp: render_node_def split: if_splits)
  moreover have "c \<in> set '':/?'' \<Longrightarrow> graphic c" by (auto simp: graphic_def)
  ultimately show ?thesis
    using wf(3,5) render_userinfo_chars render_hostport_chars [OF _ wf(4)]
      render_query_graphic [OF wf(10)] by blast
qed

lemma parse_node_render:
  assumes wf: "wf_node n qs"
  shows "parse_node (render_node n qs) = Ok n"
proof -
  note wfD = wf_nodeD [OF wf]
  define auth where "auth = render_userinfo (n_user n) (n_pass n) @ render_hostport (n_host n) (n_port n)"
  define r where "r = (if n_target n = [] then [] else ''/'' @ n_target n) @
                (if qs = [] then [] else ''?'' @ render_query qs)"
  have eq: "render_node n qs = n_scheme n @ ''://'' @ auth @ r"
    by (simp add: render_node_def auth_def r_def)
  have trim: "str_trim (render_node n qs) = n_scheme n @ ''://'' @ auth @ r"
    unfolding eq [symmetric]
    by (rule str_trim_all_graphic) (rule render_node_graphic [OF wf])
  have auth: "c \<noteq> CHR ''/'' \<and> c \<noteq> CHR ''?''" if "c \<in> set auth" for c
    using that render_userinfo_chars render_hostport_chars [OF _ wfD(4)]
    unfolding auth_def by fastforce
  have colon: "CHR '':'' \<notin> set (n_scheme n)" using wfD(3) by auto
  have q: "parse_query (if qs = [] then [] else render_query qs) = n_query n"
    using parse_query_render [OF wfD(10)] wfD(11) by (auto simp: parse_query_def)
  have ui: "split_userinfo (fst (split_authority auth)) = (n_user n, n_pass n)"
    using split_render_authority [OF wf] split_render_userinfo [OF wf] wfD(7)
    by (cases "n_user n") (auto simp: auth_def split_userinfo_def)
  have hp: "snd (split_authority auth) = render_hostport (n_host n) (n_port n)"
    using split_render_authority [OF wf] by (auto simp: auth_def split: option.splits)
  show ?thesis
    using parse_node_text [OF wfD(1) colon auth render_remainder(2) [OF wf, folded r_def] trim]
    by (simp add: ui hp parse_render_hostport [OF wfD(4)] wfD(2) q trim_matches_id wfD(6)
        render_remainder(1) [OF wf, folded r_def])
qed

text \<open>
  C16: A well-formed node survives being written out and parsed: scheme, userinfo (percent-encoded
  in the text), host (bracketed when it contains a colon), port, target and query parameters are
  all read back exactly.
\<close>

theorem parse_render_node: "wf_node n qs \<Longrightarrow> parse_node (render_node n qs) = Ok n"
  by (rule parse_node_render)

definition sample_node :: node where
  "sample_node =
     \<lparr>n_scheme = ''tcp'', n_user = Some ''me'', n_pass = Some ''p@s:s'', n_host = ''::1'',
      n_port = Some 8080, n_target = ''1.2.3.4:9090'', n_query = [''nodelay'' \<mapsto> ''true'']\<rparr>"

lemma sample_node_wf: "wf_node sample_node [(''nodelay'', ''true'')]"
proof -
  have "valid_utf8 ''me''" "valid_utf8 ''p@s:s''" by code_simp+
  then show ?thesis
    by (simp add: wf_node_def sample_node_def graphic_def to_ascii_lowercase_def lower_char_def)
qed

theorem parse_render_node_witness:
  "wf_node sample_node [(''nodelay'', ''true'')] \<and>
   parse_node (render_node sample_node [(''nodelay'', ''true'')]) = Ok sample_node"
  using sample_node_wf parse_render_node [OF sample_node_wf] by blast

section \<open>Userinfo, targets, errors\<close>

text \<open>
  Userinfo ends at the last at-sign and its user ends at the first colon, so a password may
  contain at-signs and colons unescaped.
\<close>

theorem parse_node_userinfo:
  assumes "sch \<noteq> []" "\<And>c. c \<in> set (sch @ u @ p @ h) \<Longrightarrow> graphic c \<and> c \<noteq> CHR ''/'' \<and> c \<noteq> CHR ''?''"
    and "CHR '':'' \<notin> set sch" "CHR '':'' \<notin> set u" "CHR ''@'' \<notin> set h" "CHR ''['' \<notin> set h"
  shows "parse_node (sch @ ''://'' @ u @ '':'' @ p @ ''@'' @ h @ '':'' @ show_u16 port) =
    Ok \<lparr>n_scheme = to_ascii_lowercase sch, n_user = Some (decode u), n_pass = Some (decode p),
        n_host = h, n_port = Some port, n_target = [], n_query = Map.empty\<rparr>"
proof -
  define hp where "hp = h @ CHR '':'' # show_u16 port"
  define auth where "auth = (u @ CHR '':'' # p) @ CHR ''@'' # hp"
  have digits: "graphic c \<and> c \<noteq> CHR ''/'' \<and> c \<noteq> CHR ''?'' \<and> c \<noteq> CHR ''@''"
    if "c \<in> set (show_u16 port)" for c
    using show_u16_graphic [OF that] notin_show_u16 [of c port] that by (auto simp: to_digit_def)
  have auth: "graphic c \<and> c \<noteq> CHR ''/'' \<and> c \<noteq> CHR ''?''" if "c \<in> set auth" for c
  proof -
    from that have "c \<in> set (sch @ u @ p @ h) \<or> c = CHR '':'' \<or> c = CHR ''@'' \<or> c \<in> set (show_u16 port)"
      by (auto simp: auth_def hp_def)
    then show ?thesis using assms(2) digits by (elim disjE) (auto simp: graphic_def)
  qed
  have at: "CHR ''@'' \<notin> set hp" using assms(5) digits by (auto simp: hp_def)
  have whole: "sch @ ''://'' @ u @ '':'' @ p @ ''@'' @ h @ '':'' @ show_u16 port = sch @ ''://'' @ auth @ []"
    by (simp add: auth_def hp_def)
  have trim: "str_trim (sch @ ''://'' @ auth @ []) = sch @ ''://'' @ auth @ []"
  proof (rule str_trim_all_graphic)
    fix c assume "c \<in> set (sch @ ''://'' @ auth @ [])"
    then have "c \<in> set (sch @ u @ p @ h) \<or> c = CHR '':'' \<or> c = CHR ''/'' \<or> c \<in> set auth" by auto
    then show "graphic c" using assms(2) auth by (elim disjE) (auto simp: graphic_def)
  qed
  have sa: "split_authority auth = (Some (u @ CHR '':'' # p), hp)"
    unfolding auth_def using at by (rule split_authority_some)
  have "parse_host_port hp = Ok (h, Some port)"
    unfolding hp_def using assms(6) by (rule parse_host_port_plain)
  then show ?thesis
    unfolding whole using parse_node_text [OF assms(1,3) _ _ trim] auth
    by (simp add: sa split_userinfo_pair [OF assms(4)] trim_matches_def parse_query_def)
qed

theorem parse_node_userinfo_witness:
  "parse_node (''SOCKS5'' @ ''://'' @ ''u'' @ '':'' @ ''p@ss:x'' @ ''@'' @ ''host'' @ '':'' @ show_u16 1080) =
    Ok \<lparr>n_scheme = to_ascii_lowercase ''SOCKS5'', n_user = Some (decode ''u''),
        n_pass = Some (decode ''p@ss:x''), n_host = ''host'', n_port = Some 1080,
        n_target = [], n_query = Map.empty\<rparr>"
  by (rule parse_node_userinfo) (auto simp: graphic_def)

text \<open>
  The targets of a listener are the comma-separated pieces of its path, trimmed, in order,
  with the empty ones dropped: a joined list of non-empty trimmed names comes back as it was.
\<close>

theorem targets_join:
  assumes "n_target n = join_char CHR '','' ts" "ts \<noteq> []"
    and "list_all (\<lambda>t. t \<noteq> [] \<and> list_all (\<lambda>c. graphic c \<and> c \<noteq> CHR '','') t) ts"
  shows "targets n = ts"
proof -
  have "CHR '','' \<notin> set t" "str_trim t = t" "t \<noteq> []" if "t \<in> set ts" for t
    using assms(3) that by (auto simp: list_all_iff intro!: str_trim_all_graphic)
  then show ?thesis
    using split_char_join [OF assms(2), of "CHR '',''"] assms(1)
    by (simp add: targets_def map_idI filter_id_conv)
qed

theorem targets_join_witness:
  "targets (sample_node\<lparr>n_target := join_char CHR '','' [''1.2.3.4:9090'', ''2.3.4.5:9090'']\<rparr>) =
     [''1.2.3.4:9090'', ''2.3.4.5:9090'']"
  by (rule targets_join [of _ "[''1.2.3.4:9090'', ''2.3.4.5:9090'']"]) (simp_all add: graphic_def)

text \<open>What \<open>build_config\<close> relies on: every target is non-empty and has no comma.\<close>

lemma targets_nonempty: "t \<in> set (targets n) \<Longrightarrow> t \<noteq> []"
  by (simp add: targets_def)

lemma bind_string_port: "bind_string n = Some b \<Longrightarrow> \<exists>p. n_port n = Some p"
  by (auto simp: bind_string_def split: option.splits)

section \<open>UTF-8\<close>

text \<open>Every string of a node is well formed, the names and values of the query included.\<close>

definition utf8_node :: "node \<Rightarrow> bool" where
  "utf8_node n \<longleftrightarrow>
     valid_utf8 (n_scheme n) \<and> pred_option valid_utf8 (n_user n) \<and> pred_option valid_utf8 (n_pass n) \<and>
     valid_utf8 (n_host n) \<and> valid_utf8 (n_target n) \<and>
     (\<forall>k v. n_query n k = Some v \<longrightarrow> valid_utf8 k \<and> valid_utf8 v)"

lemma parse_port_valid: "\<lbrakk>parse_port p = Inl e; valid_utf8 p\<rbrakk> \<Longrightarrow> valid_utf8 (hostport_error_text e)"
  by (auto simp: parse_port_def utf8_simps)

lemma bracketed_slices:
  assumes "valid_utf8 (CHR ''['' # s)" "find_char (\<lambda>c. c = CHR '']'') s = Some close"
  shows "valid_utf8 (take close s)" "valid_utf8 (drop (Suc close) s)"
    "drop (Suc close) s = CHR '':'' # p \<Longrightarrow> valid_utf8 p"
proof -
  have s: "valid_utf8 s" using assms(1) by (simp add: utf8_simps)
  have a: "c = CHR '']'' \<Longrightarrow> is_ascii c" for c by (simp add: is_ascii_def)
  show "valid_utf8 (take close s)" "valid_utf8 (drop (Suc close) s)"
    using find_char_slices [OF assms(2) s a] by simp_all
  then show "drop (Suc close) s = CHR '':'' # p \<Longrightarrow> valid_utf8 p" by (simp add: utf8_simps)
qed

lemma parse_host_port_valid:
  assumes "valid_utf8 hp"
  shows "parse_host_port hp = Inr (h, p) \<Longrightarrow> valid_utf8 h"
    and "parse_host_port hp = Inl e \<Longrightarrow> valid_utf8 (hostport_error_text e)"
proof -
  have a: "c = CHR '':'' \<Longrightarrow> is_ascii c" for c by (simp add: is_ascii_def)
  note slices = rfind_char_slices [OF _ assms a]
  have "(parse_host_port hp = Inr (h, p) \<longrightarrow> valid_utf8 h) \<and>
        (parse_host_port hp = Inl e \<longrightarrow> valid_utf8 (hostport_error_text e))"
  proof (cases "strip_char CHR ''['' hp")
    case None
    then show ?thesis
      using assms slices
      by (auto simp: parse_host_port_def result_iffs dest: parse_port_valid split: option.splits)
  next
    case (Some t)
    then have hp: "hp = CHR ''['' # t" by simp
    show ?thesis
    proof (cases "find_char (\<lambda>c. c = CHR '']'') t")
      case None
      then show ?thesis by (simp add: hp parse_host_port_def utf8_simps)
    next
      case (Some close)
      from bracketed_slices [OF assms [unfolded hp] Some] Some show ?thesis
        by (auto simp: hp parse_host_port_def Let_def result_iffs utf8_simps dest: parse_port_valid
            split: option.splits if_splits)
    qed
  qed
  then show "parse_host_port hp = Inr (h, p) \<Longrightarrow> valid_utf8 h"
    "parse_host_port hp = Inl e \<Longrightarrow> valid_utf8 (hostport_error_text e)" by simp_all
qed

lemma split_authority_valid:
  assumes "valid_utf8 a"
  shows "pred_option valid_utf8 (fst (split_authority a))" "valid_utf8 (snd (split_authority a))"
proof -
  have at: "c = CHR ''@'' \<Longrightarrow> is_ascii c" for c by (simp add: is_ascii_def)
  show "pred_option valid_utf8 (fst (split_authority a))" "valid_utf8 (snd (split_authority a))"
    using assms rfind_char_slices [OF _ assms at]
    by (auto simp: split_authority_def split: option.splits)
qed

lemma split_userinfo_valid:
  assumes "pred_option valid_utf8 ui"
  shows "pred_option valid_utf8 (fst (split_userinfo ui))" "pred_option valid_utf8 (snd (split_userinfo ui))"
proof -
  have c: "c = CHR '':'' \<Longrightarrow> is_ascii c" for c by (simp add: is_ascii_def)
  have "pred_option valid_utf8 (fst (split_userinfo ui)) \<and> pred_option valid_utf8 (snd (split_userinfo ui))"
  proof (cases ui)
    case (Some u)
    with assms have u: "valid_utf8 u" by simp
    show ?thesis
      using Some u find_char_slices [OF _ u c] decode_valid
      by (auto simp: split_userinfo_def split: option.splits)
  qed (simp add: split_userinfo_def)
  then show "pred_option valid_utf8 (fst (split_userinfo ui))"
    "pred_option valid_utf8 (snd (split_userinfo ui))" by simp_all
qed

lemma split_remainder_valid:
  assumes "valid_utf8 r"
  shows "valid_utf8 (fst (split_remainder r)) \<and> valid_utf8 (snd (split_remainder r))"
proof (cases r)
  case (Cons c cs)
  consider "c = CHR ''?''" | "c = CHR ''/''" | "c \<noteq> CHR ''?''" "c \<noteq> CHR ''/''" by blast
  then show ?thesis
  proof cases
    case 2
    with Cons assms have cs: "valid_utf8 cs" by (simp add: utf8_simps)
    have q: "c = CHR ''?'' \<Longrightarrow> is_ascii c" for c by (simp add: is_ascii_def)
    show ?thesis
      using Cons 2 cs find_char_slices(1,2) [OF _ cs q]
      by (auto simp: split_remainder_def split: option.splits)
  qed (use Cons assms in \<open>simp_all add: split_remainder_def utf8_simps\<close>)
qed simp

lemma query_insert_valid:
  assumes "valid_utf8 pair" "\<And>k v. m k = Some v \<Longrightarrow> valid_utf8 k \<and> valid_utf8 v"
    "query_insert m pair k = Some v"
  shows "valid_utf8 k \<and> valid_utf8 v"
proof -
  have eq: "c = CHR ''='' \<Longrightarrow> is_ascii c" for c by (simp add: is_ascii_def)
  show ?thesis
    using assms find_char_slices(1,2) [OF _ assms(1) eq]
    by (fastforce simp: query_insert_def split: option.splits if_splits)
qed

lemma parse_query_valid:
  assumes "valid_utf8 q" "parse_query q k = Some v"
  shows "valid_utf8 k \<and> valid_utf8 v"
proof -
  have fold: "list_all valid_utf8 ps \<Longrightarrow> (\<And>k v. m k = Some v \<Longrightarrow> valid_utf8 k \<and> valid_utf8 v) \<Longrightarrow>
      foldl query_insert m ps k = Some v \<Longrightarrow> valid_utf8 k \<and> valid_utf8 v" for ps m
  proof (induction ps arbitrary: m)
    case (Cons p ps)
    have p: "valid_utf8 p" "list_all valid_utf8 ps" using Cons.prems(1) by simp_all
    have m: "valid_utf8 k \<and> valid_utf8 v" if "query_insert m p k = Some v" for k v
      by (rule query_insert_valid [OF p(1) Cons.prems(2) that])
    have f: "foldl query_insert (query_insert m p) ps k = Some v" using Cons.prems(3) by simp
    show ?case by (rule Cons.IH [OF p(2) m f])
  qed simp
  have amp: "is_ascii CHR ''&''" by (simp add: is_ascii_def)
  have "list_all valid_utf8 (filter (\<lambda>p. p \<noteq> []) (split_char CHR ''&'' q))"
    using split_char_valid [OF amp assms(1)] by (auto simp: list_all_iff)
  from fold [OF this, of Map.empty] assms(2) show ?thesis by (simp add: parse_query_def)
qed

lemma authority_slices:
  assumes "valid_utf8 rest"
  shows "valid_utf8 (take (auth_end rest) rest)" "valid_utf8 (drop (auth_end rest) rest)"
proof -
  have a: "c = CHR ''/'' \<or> c = CHR ''?'' \<Longrightarrow> is_ascii c" for c by (auto simp: is_ascii_def)
  show "valid_utf8 (take (auth_end rest) rest)" "valid_utf8 (drop (auth_end rest) rest)"
    using assms find_char_slices [OF _ assms a] by (auto simp: auth_end_def split: option.splits)
qed

text \<open>
  The pieces the parser cuts out of well-formed text, for a given position of the scheme separator.
\<close>

lemma node_pieces_valid:
  assumes "valid_utf8 s" "find_str ''://'' s = Some i"
  defines "rest \<equiv> drop (i + 3) s"
  defines "a \<equiv> split_authority (take (auth_end rest) rest)"
  defines "r \<equiv> split_remainder (drop (auth_end rest) rest)"
  shows "valid_utf8 (to_ascii_lowercase (take i s))"
    "pred_option valid_utf8 (fst (split_userinfo (fst a)))" "pred_option valid_utf8 (snd (split_userinfo (fst a)))"
    "valid_utf8 (snd a)" "valid_utf8 (trim_matches CHR ''/'' (fst r))" "valid_utf8 (snd r)"
proof -
  note sl = find_str_slices [OF assms(2,1)]
  show "valid_utf8 (to_ascii_lowercase (take i s))"
    using sl(1) by (simp add: is_ascii_def to_ascii_lowercase_valid)
  have rest: "valid_utf8 rest" using sl(2) by (simp add: is_ascii_def rest_def numeral_3_eq_3)
  note auth = split_authority_valid [OF authority_slices(1) [OF rest], folded a_def]
  show "pred_option valid_utf8 (fst (split_userinfo (fst a)))" "pred_option valid_utf8 (snd (split_userinfo (fst a)))"
    using split_userinfo_valid [OF auth(1)] by simp_all
  show "valid_utf8 (snd a)" by (rule auth(2))
  have r: "valid_utf8 (fst r) \<and> valid_utf8 (snd r)"
    unfolding r_def by (rule split_remainder_valid [OF authority_slices(2) [OF rest]])
  then show "valid_utf8 (trim_matches CHR ''/'' (fst r))" "valid_utf8 (snd r)"
    by (simp_all add: trim_matches_valid is_ascii_def)
qed

lemma parse_node_utf8:
  assumes "valid_utf8 s0" "parse_node s0 = Inr n"
  shows "utf8_node n"
proof -
  have s: "valid_utf8 (str_trim s0)" by (rule str_trim_valid [OF assms(1)])
  from assms(2) obtain i where i: "find_str ''://'' (str_trim s0) = Some i"
    by (auto simp: parse_node_def Let_def result_iffs split: if_splits)
  note p = node_pieces_valid [OF s i]
  from assms(2) i show ?thesis
    using p(1,2,3,5) parse_host_port_valid(1) [OF p(4)] parse_query_valid [OF p(6)]
    by (auto simp: parse_node_def Let_def split_def result_iffs utf8_node_def split: if_splits)
qed

lemma parse_node_error_utf8:
  assumes "valid_utf8 s0" "parse_node s0 = Inl e"
  shows "valid_utf8 (node_error_text e)"
proof -
  have s: "valid_utf8 (str_trim s0)" by (rule str_trim_valid [OF assms(1)])
  show ?thesis
  proof (cases "find_str ''://'' (str_trim s0)")
    case None
    with assms(2) s show ?thesis by (auto simp: parse_node_def Let_def utf8_simps split: if_splits)
  next
    case (Some i)
    from assms(2) Some s show ?thesis
      using parse_host_port_valid(2) [OF node_pieces_valid(4) [OF s Some]]
      by (auto simp: parse_node_def Let_def split_def result_iffs utf8_simps split: if_splits)
  qed
qed

end
