(* ===== verification/Rust_Net.thy ===== *)
theory Rust_Net
  imports Rust_Num
begin

text \<open>
  \<open>std::net\<close>: \<open>Ipv4Addr\<close>, \<open>Ipv6Addr\<close>, \<open>IpAddr\<close> and \<open>SocketAddr\<close> with their textual parser
  (\<open>core::net::parser\<close>) and printer (\<open>Display\<close>). A parser step returns the value and the rest of
  the input; on failure the caller still holds the input, which is what \<open>read_atomically\<close>
  provides.
\<close>

section \<open>Addresses\<close>

datatype ipv4_addr = Ipv4Addr u8 u8 u8 u8

datatype ipv6_addr = Ipv6Addr u16 u16 u16 u16 u16 u16 u16 u16

datatype ip_addr = V4 ipv4_addr | V6 ipv6_addr

text \<open>The V6 form carries the scope identifier; the flow label is always 0 after parsing.\<close>
datatype socket_addr = SocketAddrV4 ipv4_addr u16 | SocketAddrV6 ipv6_addr u16 u32

fun v4_octets :: "ipv4_addr \<Rightarrow> bytes" where
  "v4_octets (Ipv4Addr a b c d) = [a, b, c, d]"

fun segments :: "ipv6_addr \<Rightarrow> u16 list" where
  "segments (Ipv6Addr a b c d e f g h) = [a, b, c, d, e, f, g, h]"

definition of_segments :: "u16 list \<Rightarrow> ipv6_addr" where
  "of_segments xs =
     Ipv6Addr (xs ! 0) (xs ! 1) (xs ! 2) (xs ! 3) (xs ! 4) (xs ! 5) (xs ! 6) (xs ! 7)"

text \<open>\<open>u16::to_be_bytes\<close> and \<open>u16::from_be_bytes\<close>.\<close>

definition to_be_bytes :: "u16 \<Rightarrow> bytes" where
  "to_be_bytes w = [ucast (drop_bit 8 w), ucast w]"

definition from_be_bytes :: "u8 \<Rightarrow> u8 \<Rightarrow> u16" where
  "from_be_bytes hi lo = push_bit 8 (ucast hi) + ucast lo"

definition v6_octets :: "ipv6_addr \<Rightarrow> bytes" where
  "v6_octets a = concat (map to_be_bytes (segments a))"

definition is_ipv4 :: "ip_addr \<Rightarrow> bool" where
  "is_ipv4 ip = (case ip of V4 _ \<Rightarrow> True | V6 _ \<Rightarrow> False)"

definition is_ipv6 :: "ip_addr \<Rightarrow> bool" where
  "is_ipv6 ip = (case ip of V4 _ \<Rightarrow> False | V6 _ \<Rightarrow> True)"

fun sa_ip :: "socket_addr \<Rightarrow> ip_addr" where
  "sa_ip (SocketAddrV4 a _) = V4 a"
| "sa_ip (SocketAddrV6 a _ _) = V6 a"

fun sa_port :: "socket_addr \<Rightarrow> u16" where
  "sa_port (SocketAddrV4 _ p) = p"
| "sa_port (SocketAddrV6 _ p _) = p"

lemma segments_of_segments: "length xs = 8 \<Longrightarrow> segments (of_segments xs) = xs"
  by (simp add: of_segments_def numeral_eq_Suc) (auto simp: length_Suc_conv)

lemma of_segments_segments [simp]: "of_segments (segments a) = a"
  by (cases a) (simp add: of_segments_def numeral_eq_Suc)

lemma length_segments [simp]: "length (segments a) = 8"
  by (cases a) simp

lemma is_ipv6_not_ipv4: "is_ipv6 a = (\<not> is_ipv4 a)"
  by (cases a) (simp_all add: is_ipv4_def is_ipv6_def)

lemma length_to_be_bytes [simp]: "length (to_be_bytes w) = 2"
  by (simp add: to_be_bytes_def)

lemma length_v6_octets [simp]: "length (v6_octets a) = 16"
  by (cases a) (simp add: v6_octets_def)

lemma length_v4_octets [simp]: "length (v4_octets a) = 4"
  by (cases a) simp

lemma from_to_be_bytes: "from_be_bytes (ucast (drop_bit 8 w)) (ucast w) = w"
proof (rule bit_word_eqI)
  fix n assume "n < LENGTH(16)"
  have "push_bit 8 (ucast (ucast (drop_bit 8 w) :: u8)) + ucast (ucast w :: u8) =
        or (push_bit 8 (ucast (ucast (drop_bit 8 w) :: u8))) (ucast (ucast w :: u8) :: u16)"
    by (rule disjunctive_add) (auto simp: bit_simps)
  with \<open>n < LENGTH(16)\<close> show "bit (from_be_bytes (ucast (drop_bit 8 w)) (ucast w)) n = bit w n"
    by (auto simp: from_be_bytes_def bit_simps)
qed

lemma to_be_bytes_inj: "to_be_bytes v = to_be_bytes w \<longleftrightarrow> v = w"
  by (metis from_to_be_bytes list.inject to_be_bytes_def)

section \<open>Parsing\<close>

type_synonym 'a reader = "string \<Rightarrow> ('a \<times> string) option"

text \<open>The digit loop of \<open>read_number\<close>: value, digit count and rest.\<close>

fun number_loop :: "nat \<Rightarrow> nat option \<Rightarrow> nat \<Rightarrow> nat \<Rightarrow> nat \<Rightarrow> string \<Rightarrow> (nat \<times> nat \<times> string) option" where
  "number_loop radix maxd limit acc n [] = Some (acc, n, [])"
| "number_loop radix maxd limit acc n (c # cs) =
     (case to_digit radix c of
        None \<Rightarrow> Some (acc, n, c # cs)
      | Some d \<Rightarrow>
          (case maxd of
             Some m \<Rightarrow> if m < Suc n then None
                       else number_loop radix maxd limit (acc * radix + d) (Suc n) cs
           | None \<Rightarrow> if limit < acc * radix \<or> limit < acc * radix + d then None
                     else number_loop radix maxd limit (acc * radix + d) (Suc n) cs))"

definition read_number :: "nat \<Rightarrow> nat option \<Rightarrow> bool \<Rightarrow> nat \<Rightarrow> nat reader" where
  "read_number radix maxd zero_ok limit s =
     (case number_loop radix maxd limit 0 0 s of
        None \<Rightarrow> None
      | Some (v, n, rest) \<Rightarrow>
          if n = 0 then None
          else if \<not> zero_ok \<and> hd s = CHR ''0'' \<and> 1 < n then None
          else if v \<le> limit then Some (v, rest) else None)"

definition read_given_char :: "char \<Rightarrow> unit reader" where
  "read_given_char c s = (case s of x # xs \<Rightarrow> if x = c then Some ((), xs) else None | [] \<Rightarrow> None)"

definition read_separator :: "char \<Rightarrow> nat \<Rightarrow> 'a reader \<Rightarrow> 'a reader" where
  "read_separator sep i inner s =
     (if 0 < i then (case read_given_char sep s of None \<Rightarrow> None | Some (_, s') \<Rightarrow> inner s')
      else inner s)"

fun read_octets :: "nat \<Rightarrow> nat \<Rightarrow> (u8 list) reader" where
  "read_octets i 0 s = Some ([], s)"
| "read_octets i (Suc k) s =
     (case read_separator CHR ''.'' i (read_number 10 (Some 3) False 255) s of
        None \<Rightarrow> None
      | Some (v, s') \<Rightarrow>
          (case read_octets (Suc i) k s' of
             None \<Rightarrow> None
           | Some (vs, rest) \<Rightarrow> Some (word_of_nat v # vs, rest)))"

definition read_ipv4_addr :: "ipv4_addr reader" where
  "read_ipv4_addr s =
     (case read_octets 0 4 s of
        Some ([a, b, c, d], rest) \<Rightarrow> Some (Ipv4Addr a b c d, rest)
      | _ \<Rightarrow> None)"

text \<open>\<open>read_groups\<close>: the groups read (at most \<open>i + k\<close> in all, \<open>i\<close> of them before), whether an
  embedded IPv4 address ended them, and the rest.\<close>

fun read_groups :: "nat \<Rightarrow> nat \<Rightarrow> string \<Rightarrow> u16 list \<times> bool \<times> string" where
  "read_groups i 0 s = ([], False, s)"
| "read_groups i (Suc k) s =
     (case (if 0 < k then read_separator CHR '':'' i read_ipv4_addr s else None) of
        Some (Ipv4Addr a b c d, rest) \<Rightarrow> ([from_be_bytes a b, from_be_bytes c d], True, rest)
      | None \<Rightarrow>
          (case read_separator CHR '':'' i (read_number 16 (Some 4) True 65535) s of
             None \<Rightarrow> ([], False, s)
           | Some (g, s') \<Rightarrow>
               (case read_groups (Suc i) k s' of
                  (gs, v4, rest) \<Rightarrow> (word_of_nat g # gs, v4, rest))))"

definition read_ipv6_addr :: "ipv6_addr reader" where
  "read_ipv6_addr s =
     (case read_groups 0 8 s of
        (hd_gs, v4, s1) \<Rightarrow>
          if length hd_gs = 8 then Some (of_segments hd_gs, s1)
          else if v4 then None
          else
            (case read_given_char CHR '':'' s1 of
               None \<Rightarrow> None
             | Some (_, s2) \<Rightarrow>
                 (case read_given_char CHR '':'' s2 of
                    None \<Rightarrow> None
                  | Some (_, s3) \<Rightarrow>
                      (case read_groups 0 (8 - (length hd_gs + 1)) s3 of
                         (tl_gs, _, rest) \<Rightarrow>
                           Some (of_segments
                                   (hd_gs @ replicate (8 - length hd_gs - length tl_gs) 0 @ tl_gs),
                                 rest)))))"

definition read_ip_addr :: "ip_addr reader" where
  "read_ip_addr s =
     (case read_ipv4_addr s of
        Some (a, rest) \<Rightarrow> Some (V4 a, rest)
      | None \<Rightarrow> map_option (map_prod V6 id) (read_ipv6_addr s))"

definition read_port :: "u16 reader" where
  "read_port s =
     (case read_given_char CHR '':'' s of
        None \<Rightarrow> None
      | Some (_, s') \<Rightarrow> map_option (map_prod word_of_nat id) (read_number 10 None True 65535 s'))"

definition read_scope_id :: "u32 reader" where
  "read_scope_id s =
     (case read_given_char CHR ''%'' s of
        None \<Rightarrow> None
      | Some (_, s') \<Rightarrow>
          map_option (map_prod word_of_nat id) (read_number 10 None True (2 ^ 32 - 1) s'))"

definition read_socket_addr_v4 :: "socket_addr reader" where
  "read_socket_addr_v4 s =
     (case read_ipv4_addr s of
        None \<Rightarrow> None
      | Some (a, s') \<Rightarrow> map_option (map_prod (SocketAddrV4 a) id) (read_port s'))"

definition read_socket_addr_v6 :: "socket_addr reader" where
  "read_socket_addr_v6 s =
     (case read_given_char CHR ''['' s of
        None \<Rightarrow> None
      | Some (_, s1) \<Rightarrow>
          (case read_ipv6_addr s1 of
             None \<Rightarrow> None
           | Some (a, s2) \<Rightarrow>
               (case (case read_scope_id s2 of None \<Rightarrow> (0, s2) | Some r \<Rightarrow> r) of
                  (scope, s3) \<Rightarrow>
                    (case read_given_char CHR '']'' s3 of
                       None \<Rightarrow> None
                     | Some (_, s4) \<Rightarrow>
                         map_option (map_prod (\<lambda>p. SocketAddrV6 a p scope) id) (read_port s4)))))"

definition read_socket_addr :: "socket_addr reader" where
  "read_socket_addr s =
     (case read_socket_addr_v4 s of Some r \<Rightarrow> Some r | None \<Rightarrow> read_socket_addr_v6 s)"

text \<open>\<open>parse_with\<close>: the whole input must be consumed.\<close>

definition parse_with :: "'a reader \<Rightarrow> string \<Rightarrow> 'a option" where
  "parse_with r s = (case r s of Some (x, []) \<Rightarrow> Some x | _ \<Rightarrow> None)"

definition parse_ipv4 :: "string \<Rightarrow> ipv4_addr option" where
  "parse_ipv4 s = (if 15 < length s then None else parse_with read_ipv4_addr s)"

definition parse_ipv6 :: "string \<Rightarrow> ipv6_addr option" where
  "parse_ipv6 s = parse_with read_ipv6_addr s"

definition parse_ip :: "string \<Rightarrow> ip_addr option" where
  "parse_ip s = parse_with read_ip_addr s"

definition parse_socket_addr :: "string \<Rightarrow> socket_addr option" where
  "parse_socket_addr s = parse_with read_socket_addr s"

section \<open>Printing\<close>

fun show_ipv4 :: "ipv4_addr \<Rightarrow> string" where
  "show_ipv4 (Ipv4Addr a b c d) =
     show_nat (unat a) @ ''.'' @ show_nat (unat b) @ ''.'' @
     show_nat (unat c) @ ''.'' @ show_nat (unat d)"

text \<open>The first longest run of zero segments: position and length of the run being extended and
  of the best one so far, as the loop of \<open>Display for Ipv6Addr\<close> keeps them.\<close>

fun zero_span :: "nat \<Rightarrow> nat \<times> nat \<Rightarrow> nat \<times> nat \<Rightarrow> u16 list \<Rightarrow> nat \<times> nat" where
  "zero_span i cur best [] = best"
| "zero_span i cur best (x # xs) =
     (if x = 0 then
        (let cur' = ((if snd cur = 0 then i else fst cur), Suc (snd cur))
         in zero_span (Suc i) cur' (if snd best < snd cur' then cur' else best) xs)
      else zero_span (Suc i) (0, 0) best xs)"

definition show_groups :: "u16 list \<Rightarrow> string" where
  "show_groups gs = join_char CHR '':'' (map (\<lambda>g. show_radix 16 (unat g)) gs)"

definition to_ipv4_mapped :: "ipv6_addr \<Rightarrow> ipv4_addr option" where
  "to_ipv4_mapped a =
     (case v6_octets a of
        bs \<Rightarrow> if take 12 bs = replicate 10 0 @ [255, 255]
              then Some (Ipv4Addr (bs ! 12) (bs ! 13) (bs ! 14) (bs ! 15)) else None)"

definition show_ipv6 :: "ipv6_addr \<Rightarrow> string" where
  "show_ipv6 a =
     (case to_ipv4_mapped a of
        Some v4 \<Rightarrow> ''::ffff:'' @ show_ipv4 v4
      | None \<Rightarrow>
          (case zero_span 0 (0, 0) (0, 0) (segments a) of
             (st, len) \<Rightarrow>
               if 1 < len
               then show_groups (take st (segments a)) @ ''::'' @
                    show_groups (drop (st + len) (segments a))
               else show_groups (segments a)))"

fun show_ip :: "ip_addr \<Rightarrow> string" where
  "show_ip (V4 a) = show_ipv4 a"
| "show_ip (V6 a) = show_ipv6 a"

section \<open>Reading what was printed\<close>

text \<open>The value of a digit string, and the digit loop on a printed number.\<close>

definition digits_value :: "nat \<Rightarrow> nat \<Rightarrow> string \<Rightarrow> nat" where
  "digits_value r a ds = foldl (\<lambda>acc c. acc * r + the (to_digit r c)) a ds"

lemma digits_value_show: "\<lbrakk>2 \<le> r; r \<le> 36\<rbrakk> \<Longrightarrow> digits_value r 0 (show_radix r n) = n"
proof (induction r n rule: show_radix.induct)
  case (1 b n)
  show ?case
  proof (cases "n < b")
    case True
    with "1.prems" show ?thesis
      by (simp add: digits_value_def show_radix_small to_digit_digit_char)
  next
    case False
    have "n mod b < b" using "1.prems" by simp
    with False "1" show ?thesis
      by (simp add: digits_value_def show_radix_step to_digit_digit_char)
  qed
qed

text \<open>The next character, if any, is not a digit of the radix.\<close>

definition stops :: "nat \<Rightarrow> string \<Rightarrow> bool" where
  "stops r s \<longleftrightarrow> s = [] \<or> to_digit r (hd s) = None"

lemma number_loop_stops: "stops r s \<Longrightarrow> number_loop r m l a n s = Some (a, n, s)"
  by (cases s) (auto simp: stops_def)

lemma number_loop_max:
  "\<lbrakk>\<And>c. c \<in> set ds \<Longrightarrow> to_digit r c \<noteq> None; stops r rest; n + length ds \<le> m\<rbrakk> \<Longrightarrow>
     number_loop r (Some m) l a n (ds @ rest) = Some (digits_value r a ds, n + length ds, rest)"
proof (induction ds arbitrary: a n)
  case Nil
  then show ?case by (simp add: number_loop_stops digits_value_def)
next
  case (Cons c ds)
  then obtain d where d: "to_digit r c = Some d" by fastforce
  have "n + 1 + length ds \<le> m" using Cons.prems(3) by simp
  with Cons d show ?case by (simp add: digits_value_def)
qed

lemma digits_value_mono: "0 < r \<Longrightarrow> a \<le> digits_value r a ds"
proof (induction ds arbitrary: a)
  case (Cons c ds)
  have "a \<le> a * r + the (to_digit r c)" using Cons.prems by (simp add: trans_le_add1)
  also have "\<dots> \<le> digits_value r (a * r + the (to_digit r c)) ds" using Cons by simp
  finally show ?case by (simp add: digits_value_def)
qed (simp add: digits_value_def)

lemma number_loop_unbounded:
  "\<lbrakk>\<And>c. c \<in> set ds \<Longrightarrow> to_digit r c \<noteq> None; stops r rest; 0 < r; digits_value r a ds \<le> l\<rbrakk> \<Longrightarrow>
     number_loop r None l a n (ds @ rest) = Some (digits_value r a ds, n + length ds, rest)"
proof (induction ds arbitrary: a n)
  case Nil
  then show ?case by (simp add: number_loop_stops digits_value_def)
next
  case (Cons c ds)
  then obtain d where d: "to_digit r c = Some d" by fastforce
  have v: "digits_value r a (c # ds) = digits_value r (a * r + d) ds"
    by (simp add: digits_value_def d)
  then have "a * r + d \<le> l" using digits_value_mono [OF Cons.prems(3)] Cons.prems(4)
    by (metis le_trans)
  with Cons v d show ?case by simp
qed

lemma length_show_radix: "\<lbrakk>2 \<le> b; n < b ^ k; 0 < k\<rbrakk> \<Longrightarrow> length (show_radix b n) \<le> k"
proof (induction k arbitrary: n)
  case (Suc k)
  show ?case
  proof (cases "n < b")
    case True
    then show ?thesis by (simp add: show_radix_small)
  next
    case False
    have "n div b < b ^ k" using Suc.prems by (simp add: less_mult_imp_div_less mult.commute)
    moreover have "0 < k" using False Suc.prems(2) by (cases k) auto
    ultimately show ?thesis using Suc False by (simp add: show_radix_step)
  qed
qed simp

lemma digit_char_zero_iff: "d < 36 \<Longrightarrow> digit_char d = CHR ''0'' \<longleftrightarrow> d = 0"
proof
  have z: "digit_char 0 = CHR ''0''" by code_simp
  then show "d = 0 \<Longrightarrow> digit_char d = CHR ''0''" by simp
  assume "d < 36" "digit_char d = CHR ''0''"
  with z to_digit_digit_char [of d 36] to_digit_digit_char [of 0 36] show "d = 0" by simp
qed

lemma hd_show_radix_zero: "\<lbrakk>2 \<le> b; b \<le> 36; hd (show_radix b n) = CHR ''0''\<rbrakk> \<Longrightarrow> n = 0"
proof (induction b n rule: show_radix.induct)
  case (1 b n)
  show ?case
  proof (cases "n < b")
    case True
    with "1.prems" show ?thesis by (simp add: show_radix_small digit_char_zero_iff)
  next
    case False
    with "1.prems" have "hd (show_radix b (n div b)) = CHR ''0''" by (simp add: show_radix_step)
    with "1" False have "n div b = 0" by simp
    with False "1.prems"(1) show ?thesis by (simp add: div_eq_0_iff)
  qed
qed

lemma read_number_max [rust_net]:
  assumes "2 \<le> b" "b \<le> 36" "n < b ^ k" "0 < k" "n \<le> l" "stops b rest"
  shows "read_number b (Some k) z l (show_radix b n @ rest) = Some (n, rest)"
proof -
  have len: "length (show_radix b n) \<le> k" using assms by (simp add: length_show_radix)
  have loop: "number_loop b (Some k) l 0 0 (show_radix b n @ rest) =
      Some (n, length (show_radix b n), rest)"
    using number_loop_max [of "show_radix b n" b rest 0 k l 0] len assms
    by (simp add: show_radix_to_digit digits_value_show)
  have "hd (show_radix b n @ rest) = CHR ''0'' \<Longrightarrow> length (show_radix b n) = 1"
    using hd_show_radix_zero [OF assms(1,2), of n] assms(1) by (auto simp: show_radix_small)
  with loop assms(5) show ?thesis by (auto simp: read_number_def)
qed

lemma read_number_unbounded [rust_net]:
  assumes "2 \<le> b" "b \<le> 36" "n \<le> l" "stops b rest"
  shows "read_number b None True l (show_radix b n @ rest) = Some (n, rest)"
  using number_loop_unbounded [of "show_radix b n" b rest 0 l 0] assms
  by (simp add: read_number_def show_radix_to_digit digits_value_show)

lemma unat_u8_le: "unat (w :: u8) \<le> 255"
  using unsigned_less [of w, where ?'a = nat] by simp

lemma read_octet:
  "stops 10 rest \<Longrightarrow>
     read_number 10 (Some 3) False 255 (show_nat (unat (a :: u8)) @ rest) = Some (unat a, rest)"
  using unat_u8_le [of a] by (simp add: read_number_max)

lemma stops_Cons: "to_digit r c = None \<Longrightarrow> stops r (c # s)"
  by (simp add: stops_def)

lemma to_digit_punct [simp]:
  "to_digit 10 CHR ''.'' = None" "to_digit 10 CHR '':'' = None" "to_digit 16 CHR '':'' = None"
  "to_digit 10 CHR '']'' = None" "to_digit 16 CHR '']'' = None" "to_digit 16 CHR ''.'' = None"
  by (simp_all add: to_digit_def)

lemma read_octets_4: "read_octets 0 4 = read_octets 0 (Suc (Suc (Suc (Suc 0))))"
  by (simp add: numeral_eq_Suc)

lemma read_ipv4_show [rust_net]:
  "stops 10 rest \<Longrightarrow> read_ipv4_addr (show_ipv4 a @ rest) = Some (a, rest)"
  by (cases a)
     (simp add: read_ipv4_addr_def read_octets_4 read_separator_def read_given_char_def
       read_octet stops_Cons)

lemma read_port_show [rust_net]:
  "stops 10 rest \<Longrightarrow> read_port (CHR '':'' # show_u16 p @ rest) = Some (p, rest)"
  using unat_u16_le [of p]
  by (simp add: read_port_def read_given_char_def show_u16_def read_number_unbounded)

lemma parse_ipv4_show [simp]: "parse_ipv4 (show_ipv4 a) = Some a"
proof -
  have len: "length (show_nat (unat (x :: u8))) \<le> 3" for x
    using unat_u8_le [of x] by (intro length_show_radix) auto
  have "length (show_ipv4 a) \<le> 15"
  proof (cases a)
    case (Ipv4Addr w x y z)
    then show ?thesis using len [of w] len [of x] len [of y] len [of z] by simp
  qed
  then show ?thesis
    using read_ipv4_show [of "[]" a] by (simp add: parse_ipv4_def parse_with_def stops_def)
qed

lemma parse_ip_show_v4 [simp]: "parse_ip (show_ipv4 a) = Some (V4 a)"
  using read_ipv4_show [of "[]" a]
  by (simp add: parse_ip_def parse_with_def read_ip_addr_def stops_def)

interpretation ipv4_text: codec show_ipv4 parse_ipv4 "\<lambda>_. True"
  by unfold_locales simp

lemma parse_socket_addr_show_v4:
  "parse_socket_addr (show_ipv4 a @ CHR '':'' # show_u16 p) = Some (SocketAddrV4 a p)"
proof -
  have "read_ipv4_addr (show_ipv4 a @ CHR '':'' # show_u16 p) = Some (a, CHR '':'' # show_u16 p)"
    by (rule read_ipv4_show) (simp add: stops_Cons)
  moreover have "read_port (CHR '':'' # show_u16 p) = Some (p, [])"
    using read_port_show [of "[]" p] by (simp add: stops_def)
  ultimately show ?thesis
    by (simp add: parse_socket_addr_def parse_with_def read_socket_addr_def read_socket_addr_v4_def)
qed

end
