(* ===== verification/Rust_Io.thy ===== *)
theory Rust_Io
  imports Rust_Net
begin

text \<open>
  \<open>std::io::Error\<close>, a state-and-error monad for code that calls the operating system, and the two
  ends of a byte stream as \<open>AsyncReadExt\<close>/\<open>AsyncWriteExt\<close> show it: \<open>write_all\<close> and \<open>read_exact\<close>.

  The stream type is arbitrary: the operations are an argument of the code that uses them, their
  documented behaviour is the interface \<open>byte_stream\<close>, and a theorem over every instance of it is a
  theorem over every peer.
\<close>

section \<open>Errors\<close>

datatype io_kind =
    KNotFound | KPermissionDenied | KConnectionRefused | KWouldBlock | KInvalidInput
  | KInvalidData | KTimedOut | KWriteZero | KUnexpectedEof | KOther

record io_error =
  io_kind :: io_kind
  io_raw :: "int option"
  io_msg :: string

definition io_new :: "io_kind \<Rightarrow> string \<Rightarrow> io_error" where
  "io_new k m = \<lparr>io_kind = k, io_raw = None, io_msg = m\<rparr>"

abbreviation io_other :: "string \<Rightarrow> io_error" where
  "io_other \<equiv> io_new KOther"

lemma io_new_sel [simp]: "io_kind (io_new k m) = k" "io_msg (io_new k m) = m" "io_raw (io_new k m) = None"
  by (simp_all add: io_new_def)

section \<open>Sequencing effects\<close>

type_synonym ('s, 'a) eff = "'s \<Rightarrow> (io_error, 'a) result \<times> 's"

definition eret :: "'a \<Rightarrow> ('s, 'a) eff" where
  "eret x s = (Ok x, s)"

definition efail :: "io_error \<Rightarrow> ('s, 'a) eff" where
  "efail e s = (Err e, s)"

definition ebind :: "('s, 'a) eff \<Rightarrow> ('a \<Rightarrow> ('s, 'b) eff) \<Rightarrow> ('s, 'b) eff" where
  "ebind m f s = (case m s of (Inl e, s') \<Rightarrow> (Inl e, s') | (Inr x, s') \<Rightarrow> f x s')"

definition elift :: "(io_error, 'a) result \<Rightarrow> ('s, 'a) eff" where
  "elift r s = (r, s)"

lemma eff_simps [simp]:
  "ebind (eret x) f = f x" "ebind (efail e) f = efail e" "ebind m eret = m"
  by (auto simp: ebind_def eret_def efail_def fun_eq_iff split: prod.splits sum.splits)

lemma elift_simps [simp]: "elift (Inl e) = efail e" "elift (Inr x) = eret x"
  by (simp_all add: elift_def efail_def eret_def fun_eq_iff)

lemma ebind_assoc: "ebind (ebind m f) g = ebind m (\<lambda>x. ebind (f x) g)"
  by (auto simp: ebind_def fun_eq_iff split: prod.splits sum.splits)

lemma eret_eq [simp]: "eret x s = (r, t) \<longleftrightarrow> r = Ok x \<and> t = s"
  by (auto simp: eret_def)

lemma efail_eq [simp]: "efail e s = (r, t) \<longleftrightarrow> r = Err e \<and> t = s"
  by (auto simp: efail_def)

lemma elift_eq [simp]: "elift q s = (r, t) \<longleftrightarrow> q = r \<and> t = s"
  by (auto simp: elift_def)

lemma ebind_Ok_iff:
  "ebind m f s = (Inr y, t) \<longleftrightarrow> (\<exists>x u. m s = (Inr x, u) \<and> f x u = (Inr y, t))"
  by (auto simp: ebind_def split: prod.splits sum.splits)

lemma ebind_Err_iff:
  "ebind m f s = (Inl e, t) \<longleftrightarrow> m s = (Inl e, t) \<or> (\<exists>x u. m s = (Inr x, u) \<and> f x u = (Inl e, t))"
  by (auto simp: ebind_def split: prod.splits sum.splits)

lemma ebind_run: "m s = (Inr x, u) \<Longrightarrow> ebind m f s = f x u"
  by (simp add: ebind_def)

text \<open>A relation between states that is kept by sequencing.\<close>

lemma ebind_rel:
  assumes "\<And>s. R s (snd (m s))" "\<And>x s. R s (snd (f x s))" "\<And>a b c. R a b \<Longrightarrow> R b c \<Longrightarrow> R a c"
  shows "R s (snd (ebind m f s))"
proof (cases "m s")
  case (Pair r u)
  show ?thesis
  proof (cases r)
    case (Inl e)
    then show ?thesis using assms(1) [of s] Pair by (simp add: ebind_def)
  next
    case (Inr x)
    then show ?thesis using assms(1) [of s] assms(2) [of u x] assms(3) Pair by (simp add: ebind_def)
  qed
qed

section \<open>Byte streams\<close>

text \<open>
  The operations of \<open>AsyncReadExt\<close>/\<open>AsyncWriteExt\<close> the program calls, over an arbitrary stream
  type, and the single write that \<open>write_all\<close> repeats (where a write may be cut off between two of
  them): code that reads or writes a stream takes them as its argument \<open>io\<close>.
\<close>

record 's byte_io =
  write_all :: "bytes \<Rightarrow> ('s, unit) eff"
  read_exact :: "nat \<Rightarrow> ('s, bytes) eff"
  read_some :: "nat \<Rightarrow> ('s, bytes) eff"
  write_some :: "bytes \<Rightarrow> ('s, nat) eff"

text \<open>
  What is documented of them, in terms of the bytes the peer has still to deliver (\<open>inbox\<close>) and
  the bytes handed to the peer so far (\<open>outbox\<close>): a write that returns has written everything, a
  write that fails has written a prefix; an exact read that returns has consumed exactly that many
  bytes; a plain read returns at most the size of its buffer, and nothing only at the end of the
  stream or for an empty buffer; a single write takes a prefix of its buffer, and nothing when it
  fails.
\<close>

definition stream_grows :: "('s \<Rightarrow> bytes) \<Rightarrow> ('s \<Rightarrow> bytes) \<Rightarrow> 's \<Rightarrow> 's \<Rightarrow> bool" where
  "stream_grows inbox outbox s t \<longleftrightarrow> prefix (outbox s) (outbox t) \<and> suffix (inbox t) (inbox s)"

lemma stream_grows_refl [simp]: "stream_grows ib ob s s"
  by (simp add: stream_grows_def)

lemma stream_grows_trans: "\<lbrakk>stream_grows ib ob s t; stream_grows ib ob t u\<rbrakk> \<Longrightarrow> stream_grows ib ob s u"
  unfolding stream_grows_def by (metis prefix_order.trans suffix_order.trans)

locale byte_stream =
  fixes io :: "'s byte_io"
    and inbox :: "'s \<Rightarrow> bytes"
    and outbox :: "'s \<Rightarrow> bytes"
  assumes write_Ok: "write_all io bs s = (Inr u, t) \<Longrightarrow> outbox t = outbox s @ bs \<and> inbox t = inbox s"
    and write_Err: "write_all io bs s = (Inl e, t) \<Longrightarrow>
      \<exists>n. outbox t = outbox s @ take n bs \<and> inbox t = inbox s"
    and exact_Ok: "read_exact io n s = (Inr xs, t) \<Longrightarrow>
      length xs = n \<and> inbox s = xs @ inbox t \<and> outbox t = outbox s"
    and exact_Err: "read_exact io n s = (Inl e, t) \<Longrightarrow> suffix (inbox t) (inbox s) \<and> outbox t = outbox s"
    and some_Ok: "read_some io n s = (Inr xs, t) \<Longrightarrow>
      length xs \<le> n \<and> inbox s = xs @ inbox t \<and> outbox t = outbox s"
    and some_Nil: "read_some io n s = (Inr [], t) \<Longrightarrow> n = 0 \<or> inbox s = []"
    and some_Err: "read_some io n s = (Inl e, t) \<Longrightarrow> suffix (inbox t) (inbox s) \<and> outbox t = outbox s"
    and one_Ok: "write_some io bs s = (Inr k, t) \<Longrightarrow>
      k \<le> length bs \<and> outbox t = outbox s @ take k bs \<and> inbox t = inbox s"
    and one_Err: "write_some io bs s = (Inl e, t) \<Longrightarrow> outbox t = outbox s \<and> inbox t = inbox s"
begin

lemma write_ext: "stream_grows inbox outbox s (snd (write_all io bs s))"
proof (cases "write_all io bs s")
  case (Pair r t)
  then show ?thesis
    using write_Ok [of bs s _ t] write_Err [of bs s _ t] by (cases r) (auto simp: stream_grows_def)
qed

lemma exact_ext: "stream_grows inbox outbox s (snd (read_exact io n s))"
proof (cases "read_exact io n s")
  case (Pair r t)
  then show ?thesis
    using exact_Ok [of n s _ t] exact_Err [of n s _ t]
    by (cases r) (auto simp: stream_grows_def suffix_def)
qed

lemma bind_ext:
  assumes "\<And>s. stream_grows inbox outbox s (snd (m s))" "\<And>x s. stream_grows inbox outbox s (snd (f x s))"
  shows "stream_grows inbox outbox s (snd (ebind m f s))"
  using assms stream_grows_trans by (rule ebind_rel)

lemma pure_ext:
  "stream_grows inbox outbox s (snd (efail e s))" "stream_grows inbox outbox s (snd (eret x s))"
  "stream_grows inbox outbox s (snd (elift r s))"
  by (simp_all add: efail_def eret_def elift_def)

end

text \<open>
  A connection that works: writes are taken, and a read that the peer has already answered
  returns.
\<close>

locale healthy_stream = byte_stream +
  fixes healthy :: "'s \<Rightarrow> bool"
  assumes write_works: "healthy s \<Longrightarrow> \<exists>t. write_all io bs s = (Inr (), t) \<and> healthy t"
    and exact_works: "\<lbrakk>healthy s; n \<le> length (inbox s)\<rbrakk> \<Longrightarrow> \<exists>xs t. read_exact io n s = (Inr xs, t) \<and> healthy t"
begin

lemma write_run:
  assumes "healthy s"
  obtains t where "write_all io bs s = (Inr (), t)" "healthy t"
    "outbox t = outbox s @ bs" "inbox t = inbox s"
  using write_works [OF assms, of bs] write_Ok [of bs s "()"] by metis

lemma exact_run:
  assumes "healthy s" "inbox s = xs @ ys" "length xs = n"
  obtains t where "read_exact io n s = (Inr xs, t)" "healthy t"
    "outbox t = outbox s" "inbox t = ys"
proof -
  obtain zs t where t: "read_exact io n s = (Inr zs, t)" "healthy t"
    using exact_works [OF assms(1), of n] assms by auto
  then have "length zs = n" "inbox s = zs @ inbox t" "outbox t = outbox s" using exact_Ok by blast+
  with assms have "zs = xs" "inbox t = ys" by auto
  with t \<open>outbox t = outbox s\<close> show ?thesis using that by metis
qed

end

text \<open>
  A peer as a script: what it delivers, how its side ends, and how many bytes it takes before its
  connection breaks. It provides the interface, and every peer behaves like one of these.
\<close>

record stream =
  rx :: bytes
  rx_end :: "io_error option"
  tx :: bytes
  tx_room :: "nat option"
  tx_err :: io_error

definition eof_error :: io_error where
  "eof_error = io_new KUnexpectedEof ''early eof''"

definition write_zero :: io_error where
  "write_zero = io_new KWriteZero ''write zero''"

definition stream_write :: "bytes \<Rightarrow> (stream, unit) eff" where
  "stream_write bs s =
     (case tx_room s of
        None \<Rightarrow> (Ok (), s\<lparr>tx := tx s @ bs\<rparr>)
      | Some n \<Rightarrow>
          if length bs \<le> n then (Ok (), s\<lparr>tx := tx s @ bs, tx_room := Some (n - length bs)\<rparr>)
          else (Err (tx_err s), s\<lparr>tx := tx s @ take n bs, tx_room := Some 0\<rparr>))"

definition stream_exact :: "nat \<Rightarrow> (stream, bytes) eff" where
  "stream_exact n s =
     (if n \<le> length (rx s) then (Ok (take n (rx s)), s\<lparr>rx := drop n (rx s)\<rparr>)
      else (Err (case rx_end s of None \<Rightarrow> eof_error | Some e \<Rightarrow> e), s\<lparr>rx := []\<rparr>))"

definition stream_some :: "nat \<Rightarrow> (stream, bytes) eff" where
  "stream_some n s =
     (case (rx s, rx_end s) of
        ([], Some e) \<Rightarrow> if n = 0 then (Ok [], s) else (Err e, s)
      | _ \<Rightarrow> (Ok (take n (rx s)), s\<lparr>rx := drop n (rx s)\<rparr>))"

definition stream_one :: "bytes \<Rightarrow> (stream, nat) eff" where
  "stream_one bs s =
     (case tx_room s of
        None \<Rightarrow> (Ok (length bs), s\<lparr>tx := tx s @ bs\<rparr>)
      | Some n \<Rightarrow>
          if bs \<noteq> [] \<and> n = 0 then (Err (tx_err s), s)
          else (Ok (min n (length bs)), s\<lparr>tx := tx s @ take n bs, tx_room := Some (n - length bs)\<rparr>))"

definition stream_io :: "stream byte_io" where
  "stream_io =
     \<lparr>write_all = stream_write, read_exact = stream_exact, read_some = stream_some, write_some = stream_one\<rparr>"

definition open_peer :: "stream \<Rightarrow> bool" where
  "open_peer s \<longleftrightarrow> tx_room s = None"

interpretation peer: healthy_stream stream_io rx tx open_peer
proof unfold_locales
  fix n s xs t
  assume *: "read_some stream_io n s = (Inr xs, t)"
  then show "length xs \<le> n \<and> rx s = xs @ rx t \<and> tx t = tx s"
    by (auto simp: stream_io_def stream_some_def split: list.splits option.splits if_splits)
  show "n = 0 \<or> rx s = []" if "read_some stream_io n s = (Inr [], t)"
    using that by (auto simp: stream_io_def stream_some_def split: list.splits option.splits if_splits)
next
  fix bs s k t
  assume "write_some stream_io bs s = (Inr k, t)"
  then show "k \<le> length bs \<and> tx t = tx s @ take k bs \<and> rx t = rx s"
    by (auto simp: stream_io_def stream_one_def min_def split: option.splits if_splits)
next
  fix bs s e t
  assume "write_some stream_io bs s = (Inl e, t)"
  then show "tx t = tx s \<and> rx t = rx s"
    by (auto simp: stream_io_def stream_one_def split: option.splits if_splits)
next
  fix n s e t
  assume "read_some stream_io n s = (Inl e, t)"
  then show "suffix (rx t) (rx s) \<and> tx t = tx s"
    by (auto simp: stream_io_def stream_some_def split: list.splits option.splits if_splits)
qed (auto simp: stream_io_def stream_write_def stream_exact_def open_peer_def suffix_drop
       split: option.splits if_splits)

section \<open>Text on the wire\<close>

text \<open>\<open>str::as_bytes\<close>.\<close>

definition as_bytes :: "string \<Rightarrow> bytes" where
  "as_bytes s = map of_char s"

definition of_bytes :: "bytes \<Rightarrow> string" where
  "of_bytes bs = map (\<lambda>b. char_of (unat b)) bs"

lemma length_as_bytes [simp]: "length (as_bytes s) = length s"
  by (simp add: as_bytes_def)

lemma of_bytes_as_bytes [simp]: "of_bytes (as_bytes s) = s"
proof -
  have "char_of (unat (of_char c :: u8)) = c" for c
  proof -
    have "(of_char c :: u8) = word_of_nat (of_char c)" by (simp add: of_nat_of_char)
    moreover have "of_char c < (256 :: nat)"
      using of_char_mod_256 [of c, where ?'a = nat] mod_less_divisor [of 256 "of_char c :: nat"]
      by linarith
    ultimately have "unat (of_char c :: u8) = of_char c"
      by (simp add: unsigned_of_nat take_bit_nat_eq_self)
    then show ?thesis by simp
  qed
  then show ?thesis by (simp add: of_bytes_def as_bytes_def map_idI)
qed

end
