(* ===== verification/Netopt.thy ===== *)
theory Netopt
  imports Rust_Io
begin

text \<open>
  \<open>src/netopt.rs\<close> and the durations of \<open>src/constants.rs\<close>: socket tuning and the TCP dialer.

  Sockets are third-party code (\<open>socket2\<close>, \<open>tokio\<close>), so the operating system is a parameter
  \<open>os\<close> that answers each call, given the calls made before it, and the resolver is a parameter
  \<open>dns\<close>. The model keeps the whole sequence of calls as its state: what is proved about it holds
  for every answer the system may give.
\<close>

section \<open>Constants\<close>

definition KEEPALIVE :: millis where "KEEPALIVE = 180000"
definition KEEPALIVE_INTERVAL :: millis where "KEEPALIVE_INTERVAL = 25000"
definition KEEPALIVE_RETRIES :: nat where "KEEPALIVE_RETRIES = 4"
definition DIAL_TIMEOUT :: millis where "DIAL_TIMEOUT = 5000"
definition HANDSHAKE_TIMEOUT :: millis where "HANDSHAKE_TIMEOUT = 5000"
definition UDP_TTL :: millis where "UDP_TTL = 60000"
definition UDP_BUF :: nat where "UDP_BUF = 64 * 1024"
definition UDP_QUEUE :: nat where "UDP_QUEUE = 128"
definition BACKOFF_INITIAL :: millis where "BACKOFF_INITIAL = 100"
definition BACKOFF_MAX :: millis where "BACKOFF_MAX = 5000"
definition BACKOFF_HEALTHY :: millis where "BACKOFF_HEALTHY = 10000"

section \<open>Model\<close>

record sock_opts =
  so_nodelay :: bool
  so_rcvbuf :: "u64 option"
  so_sndbuf :: "u64 option"

definition default_sock_opts :: sock_opts where
  "default_sock_opts = \<lparr>so_nodelay = True, so_rcvbuf = None, so_sndbuf = None\<rparr>"

record tcp_keepalive =
  ka_time :: millis
  ka_interval :: millis
  ka_retries :: nat

definition keepalive :: tcp_keepalive where
  "keepalive = \<lparr>ka_time = KEEPALIVE, ka_interval = KEEPALIVE_INTERVAL, ka_retries = KEEPALIVE_RETRIES\<rparr>"

datatype sock_type = Stream | Dgram

datatype sock_call =
    LookupHost string
  | SocketNew ip_addr sock_type
  | SetNonblocking
  | SetKeepalive tcp_keepalive
  | SetNodelay
  | SetRecvBuf u64
  | SetSendBuf u64
  | SetMark u32
  | Bind ip_addr
  | Connect socket_addr
  | FromStd
  | AwaitWritable millis
  | TakeError

text \<open>Answers: success, an error, or (for the last two calls) an elapsed timer and a pending
  socket error.\<close>

datatype sys_answer = SysOk | SysErr io_error | SysElapsed | SysPending io_error

type_synonym os = "sock_call list \<Rightarrow> sock_call \<Rightarrow> sys_answer"
type_synonym dns = "string \<Rightarrow> (io_error, socket_addr list) result"
type_synonym trace = "sock_call list"

definition sys :: "os \<Rightarrow> sock_call \<Rightarrow> (trace, sys_answer) eff" where
  "sys os c t = (Ok (os t c), t @ [c])"

text \<open>A call whose only failure is an error value: \<open>call()?\<close>.\<close>

definition sys_try :: "os \<Rightarrow> sock_call \<Rightarrow> (trace, unit) eff" where
  "sys_try os c = ebind (sys os c) (\<lambda>a. case a of SysErr e \<Rightarrow> efail e | _ \<Rightarrow> eret ())"

definition opt_call :: "os \<Rightarrow> ('a \<Rightarrow> sock_call) \<Rightarrow> 'a option \<Rightarrow> (trace, unit) eff" where
  "opt_call os f x = (case x of None \<Rightarrow> eret () | Some v \<Rightarrow> sys_try os (f v))"

definition when_call :: "os \<Rightarrow> bool \<Rightarrow> sock_call \<Rightarrow> (trace, unit) eff" where
  "when_call os b c = (if b then sys_try os c else eret ())"

definition tune_accepted :: "os \<Rightarrow> sock_opts \<Rightarrow> (trace, unit) eff" where
  "tune_accepted os opts =
     ebind (when_call os (so_nodelay opts) SetNodelay) (\<lambda>_.
     ebind (sys_try os (SetKeepalive keepalive)) (\<lambda>_.
     ebind (opt_call os SetRecvBuf (so_rcvbuf opts)) (\<lambda>_.
            opt_call os SetSendBuf (so_sndbuf opts))))"

text \<open>\<open>libc::EINPROGRESS\<close> on Linux is 115.\<close>

definition is_in_progress :: "io_error \<Rightarrow> bool" where
  "is_in_progress e = (io_kind e = KWouldBlock \<or> io_raw e = Some 115)"

definition connect_call :: "os \<Rightarrow> socket_addr \<Rightarrow> (trace, unit) eff" where
  "connect_call os sa =
     ebind (sys os (Connect sa)) (\<lambda>a.
       case a of SysErr e \<Rightarrow> if is_in_progress e then eret () else efail e | _ \<Rightarrow> eret ())"

definition await_writable :: "os \<Rightarrow> millis \<Rightarrow> (trace, unit) eff" where
  "await_writable os timeout =
     ebind (sys os (AwaitWritable timeout)) (\<lambda>a.
       case a of
         SysElapsed \<Rightarrow> efail (io_new KTimedOut ''connect timed out'')
       | SysErr e \<Rightarrow> efail e
       | _ \<Rightarrow> eret ())"

definition take_error :: "os \<Rightarrow> (trace, unit) eff" where
  "take_error os =
     ebind (sys os TakeError) (\<lambda>a.
       case a of SysErr e \<Rightarrow> efail e | SysPending e \<Rightarrow> efail e | _ \<Rightarrow> eret ())"

definition dial_one ::
  "os \<Rightarrow> socket_addr \<Rightarrow> millis \<Rightarrow> u32 option \<Rightarrow> sock_opts \<Rightarrow> (trace, socket_addr) eff" where
  "dial_one os sa timeout mark opts =
     ebind (sys_try os (SocketNew (sa_ip sa) Stream)) (\<lambda>_.
     ebind (sys_try os SetNonblocking) (\<lambda>_.
     ebind (sys_try os (SetKeepalive keepalive)) (\<lambda>_.
     ebind (when_call os (so_nodelay opts) SetNodelay) (\<lambda>_.
     ebind (opt_call os SetRecvBuf (so_rcvbuf opts)) (\<lambda>_.
     ebind (opt_call os SetSendBuf (so_sndbuf opts)) (\<lambda>_.
     ebind (opt_call os SetMark mark) (\<lambda>_.
     ebind (connect_call os sa) (\<lambda>_.
     ebind (sys_try os FromStd) (\<lambda>_.
     ebind (await_writable os timeout) (\<lambda>_.
     ebind (take_error os) (\<lambda>_.
     eret sa)))))))))))"

text \<open>The loop over resolved addresses: the first that connects, else the last error.\<close>

fun dial_each ::
  "(socket_addr \<Rightarrow> (trace, 'a) eff) \<Rightarrow> io_error \<Rightarrow> socket_addr list \<Rightarrow> (trace, 'a) eff" where
  "dial_each dial last_err [] = efail last_err"
| "dial_each dial last_err (sa # sas) =
     (\<lambda>t. case dial sa t of
        (Inr c, t') \<Rightarrow> (Inr c, t')
      | (Inl e, t') \<Rightarrow> dial_each dial e sas t')"

definition lookup_host :: "os \<Rightarrow> dns \<Rightarrow> string \<Rightarrow> (trace, socket_addr list) eff" where
  "lookup_host os dns addr = ebind (sys os (LookupHost addr)) (\<lambda>_. elift (dns addr))"

definition dial_tcp ::
  "os \<Rightarrow> dns \<Rightarrow> string \<Rightarrow> millis \<Rightarrow> u32 option \<Rightarrow> sock_opts \<Rightarrow> (trace, socket_addr) eff" where
  "dial_tcp os dns addr timeout mark opts =
     (case parse_socket_addr addr of
        Some sa \<Rightarrow> dial_one os sa timeout mark opts
      | None \<Rightarrow>
          ebind (lookup_host os dns addr) (\<lambda>sas.
            dial_each (\<lambda>sa. dial_one os sa timeout mark opts)
              (io_other (''could not resolve `'' @ addr @ ''`'')) sas))"

definition split_host_port :: "string \<Rightarrow> (io_error, string \<times> u16) result" where
  "split_host_port s =
     (let bad = io_new KInvalidInput (''invalid host:port `'' @ s @ ''`'') in
      and_then
        (case strip_char CHR ''['' s of
           Some rest \<Rightarrow>
             and_then (ok_or bad (find_char (\<lambda>c. c = CHR '']'') rest)) (\<lambda>close.
             and_then (ok_or bad (strip_char CHR '':'' (drop (close + 1) rest))) (\<lambda>port.
             Ok (take close rest, port)))
         | None \<Rightarrow>
             and_then (ok_or bad (rfind_char (\<lambda>c. c = CHR '':'') s)) (\<lambda>c.
             Ok (take c s, drop (c + 1) s)))
        (\<lambda>(host, port_str).
           and_then (ok_or bad (parse_u16 port_str)) (\<lambda>port.
           if host = [] then Err bad else Ok (host, port))))"

section \<open>Call sequences\<close>

text \<open>
  An operation with a script performs a prefix of the script's calls, and the whole script when it
  succeeds. Sequencing concatenates scripts.
\<close>

definition follows :: "(trace, 'a) eff \<Rightarrow> trace \<Rightarrow> bool" where
  "follows act script \<longleftrightarrow>
     (\<forall>t. \<exists>cs. prefix cs script \<and> snd (act t) = t @ cs \<and> (\<not> isl (fst (act t)) \<longrightarrow> cs = script))"

lemma follows_ret: "follows (eret x) []"
  by (simp add: follows_def eret_def)

lemma follows_sys_try: "follows (sys_try os c) [c]"
  by (simp add: follows_def sys_try_def sys_def ebind_def eret_def efail_def split: sys_answer.split)

lemma follows_opt_call: "follows (opt_call os f x) (map f (case x of None \<Rightarrow> [] | Some v \<Rightarrow> [v]))"
  by (cases x) (simp_all add: opt_call_def follows_ret follows_sys_try)

lemma follows_when_call: "follows (when_call os b c) (if b then [c] else [])"
  by (simp add: when_call_def follows_ret follows_sys_try)

lemma follows_connect_call: "follows (connect_call os sa) [Connect sa]"
  by (simp add: follows_def connect_call_def sys_def ebind_def eret_def efail_def split: sys_answer.split)

lemma follows_await_writable: "follows (await_writable os ms) [AwaitWritable ms]"
  by (simp add: follows_def await_writable_def sys_def ebind_def eret_def efail_def split: sys_answer.split)

lemma follows_take_error: "follows (take_error os) [TakeError]"
  by (simp add: follows_def take_error_def sys_def ebind_def eret_def efail_def split: sys_answer.split)

lemma follows_bind:
  assumes m: "follows m cs" and f: "\<And>x. follows (f x) ds"
  shows "follows (ebind m f) (cs @ ds)"
  unfolding follows_def
proof
  fix t
  obtain r u where u: "m t = (r, u)" by (cases "m t")
  from m obtain as where as: "prefix as cs" "u = t @ as" "\<not> isl r \<longrightarrow> as = cs"
    unfolding follows_def using u by (metis fst_conv snd_conv)
  show "\<exists>es. prefix es (cs @ ds) \<and> snd (ebind m f t) = t @ es \<and> (\<not> isl (fst (ebind m f t)) \<longrightarrow> es = cs @ ds)"
  proof (cases r)
    case (Inl e)
    with u as show ?thesis by (auto simp: ebind_def intro: prefix_prefix)
  next
    case (Inr x)
    from f obtain bs where bs: "prefix bs ds" "snd (f x u) = u @ bs" "\<not> isl (fst (f x u)) \<longrightarrow> bs = ds"
      unfolding follows_def by metis
    from Inr as have "as = cs" by simp
    with Inr u as(2) bs show ?thesis
      by (intro exI [of _ "cs @ bs"]) (auto simp: ebind_def)
  qed
qed

lemmas follows_intros = follows_bind follows_ret follows_sys_try follows_opt_call follows_when_call
  follows_connect_call follows_await_writable follows_take_error

locale scripted =
  fixes act :: "(trace, 'a) eff" and script :: trace
  assumes follows: "follows act script"
begin

lemma calls: "act t = (r, t') \<Longrightarrow> \<exists>cs. prefix cs script \<and> t' = t @ cs \<and> (\<not> isl r \<longrightarrow> cs = script)"
  using follows unfolding follows_def by (metis fst_conv snd_conv)

lemma no_call_outside: "\<lbrakk>act t = (r, t'); c \<in> set t'; c \<notin> set t\<rbrakk> \<Longrightarrow> c \<in> set script"
  using calls set_mono_prefix by fastforce

end

definition opt_list :: "'a option \<Rightarrow> 'a list" where
  "opt_list x = (case x of None \<Rightarrow> [] | Some v \<Rightarrow> [v])"

definition tuning_calls :: "sock_opts \<Rightarrow> trace" where
  "tuning_calls opts =
     (if so_nodelay opts then [SetNodelay] else []) @ [SetKeepalive keepalive] @
     map SetRecvBuf (opt_list (so_rcvbuf opts)) @ map SetSendBuf (opt_list (so_sndbuf opts))"

definition dial_calls :: "socket_addr \<Rightarrow> millis \<Rightarrow> u32 option \<Rightarrow> sock_opts \<Rightarrow> trace" where
  "dial_calls sa timeout mark opts =
     [SocketNew (sa_ip sa) Stream, SetNonblocking, SetKeepalive keepalive] @
     (if so_nodelay opts then [SetNodelay] else []) @
     map SetRecvBuf (opt_list (so_rcvbuf opts)) @ map SetSendBuf (opt_list (so_sndbuf opts)) @
     map SetMark (opt_list mark) @
     [Connect sa, FromStd, AwaitWritable timeout, TakeError]"

lemma tune_accepted_follows: "follows (tune_accepted os opts) (tuning_calls opts)"
  unfolding tune_accepted_def tuning_calls_def opt_list_def
  by (intro follows_intros)

lemma dial_one_follows: "follows (dial_one os sa timeout mark opts) (dial_calls sa timeout mark opts)"
proof -
  have "follows (dial_one os sa timeout mark opts)
     ([SocketNew (sa_ip sa) Stream] @ [SetNonblocking] @ [SetKeepalive keepalive] @
     (if so_nodelay opts then [SetNodelay] else []) @
     map SetRecvBuf (opt_list (so_rcvbuf opts)) @ map SetSendBuf (opt_list (so_sndbuf opts)) @
     map SetMark (opt_list mark) @ [Connect sa] @ [FromStd] @ [AwaitWritable timeout] @ [TakeError] @ [])"
    unfolding dial_one_def opt_list_def by (intro follows_intros)
  then show ?thesis by (simp add: dial_calls_def)
qed

interpretation tuning: scripted "tune_accepted os opts" "tuning_calls opts" for os opts
  by unfold_locales (rule tune_accepted_follows)

interpretation dialing: scripted "dial_one os sa timeout mark opts" "dial_calls sa timeout mark opts"
  for os sa timeout mark opts
  by unfold_locales (rule dial_one_follows)

lemma dial_one_result: "dial_one os sa timeout mark opts t = (Inr c, t') \<Longrightarrow> c = sa"
  by (auto simp: dial_one_def ebind_Ok_iff)

text \<open>
  A dial makes the documented calls in the documented order and stops at the first failure:
  every socket option, both buffer sizes and the mark come before the connect, and a connection
  is only handed out after the whole sequence, the final read of the pending socket error
  included.
\<close>

theorem dial_one_calls:
  assumes "dial_one os sa timeout mark opts t = (r, t')"
  shows "\<exists>cs. prefix cs (dial_calls sa timeout mark opts) \<and> t' = t @ cs \<and>
    (\<forall>c. r = Ok c \<longrightarrow> c = sa \<and> cs = dial_calls sa timeout mark opts)"
  using dialing.calls [OF assms] dial_one_result assms by fastforce

theorem dial_one_calls_witness:
  "\<exists>cs. prefix cs (dial_calls (SocketAddrV4 (Ipv4Addr 1 2 3 4) 80) DIAL_TIMEOUT (Some 7) default_sock_opts) \<and>
     snd (dial_one (\<lambda>_ _. SysOk) (SocketAddrV4 (Ipv4Addr 1 2 3 4) 80) DIAL_TIMEOUT (Some 7) default_sock_opts [])
       = [] @ cs \<and>
     (\<forall>c. fst (dial_one (\<lambda>_ _. SysOk) (SocketAddrV4 (Ipv4Addr 1 2 3 4) 80) DIAL_TIMEOUT (Some 7)
               default_sock_opts []) = Ok c \<longrightarrow>
        c = SocketAddrV4 (Ipv4Addr 1 2 3 4) 80 \<and>
        cs = dial_calls (SocketAddrV4 (Ipv4Addr 1 2 3 4) 80) DIAL_TIMEOUT (Some 7) default_sock_opts)"
  by (rule dial_one_calls) simp

text \<open>
  An address that is an IPv4 literal with a port is dialed directly, and no name resolution
  takes place: the resolver is neither called nor able to influence the result.
\<close>

theorem dial_tcp_literal_skips_dns:
  "dial_tcp os dns (show_ipv4 a @ '':'' @ show_u16 p) timeout mark opts =
     dial_one os (SocketAddrV4 a p) timeout mark opts \<and>
   (\<forall>t h. LookupHost h \<in> set (snd (dial_tcp os dns (show_ipv4 a @ '':'' @ show_u16 p) timeout mark opts t))
          \<longleftrightarrow> LookupHost h \<in> set t)"
proof -
  have eq: "dial_tcp os dns (show_ipv4 a @ '':'' @ show_u16 p) timeout mark opts =
     dial_one os (SocketAddrV4 a p) timeout mark opts"
    using parse_socket_addr_show_v4 [of a p] by (simp add: dial_tcp_def)
  have "LookupHost h \<in> set (snd (dial_one os (SocketAddrV4 a p) timeout mark opts t)) \<longleftrightarrow> LookupHost h \<in> set t"
    for t h
  proof -
    obtain r t' where d: "dial_one os (SocketAddrV4 a p) timeout mark opts t = (r, t')" by fastforce
    from dialing.calls [OF d] obtain cs where
      "prefix cs (dial_calls (SocketAddrV4 a p) timeout mark opts)" "t' = t @ cs" by blast
    moreover have "LookupHost h \<notin> set (dial_calls (SocketAddrV4 a p) timeout mark opts)"
      by (auto simp: dial_calls_def)
    ultimately show ?thesis using d set_mono_prefix by auto
  qed
  with eq show ?thesis by simp
qed

section \<open>Failover over resolved addresses\<close>

text \<open>Dial every address in turn: the errors and the final trace if all of them fail.\<close>

fun all_fail :: "(socket_addr \<Rightarrow> (trace, 'a) eff) \<Rightarrow> socket_addr list \<Rightarrow> trace \<Rightarrow> (io_error list \<times> trace) option" where
  "all_fail dial [] t = Some ([], t)"
| "all_fail dial (sa # sas) t =
     (case dial sa t of
        (Inr c, _) \<Rightarrow> None
      | (Inl e, t') \<Rightarrow> map_option (\<lambda>(es, u). (e # es, u)) (all_fail dial sas t'))"

lemma dial_each_Err:
  "dial_each dial e0 sas t = (Inl e, t') \<longleftrightarrow> (\<exists>es. all_fail dial sas t = Some (es, t') \<and> e = last (e0 # es))"
proof (induction sas arbitrary: e0 t)
  case Nil
  then show ?case by (auto simp: efail_def)
next
  case (Cons sa sas)
  obtain r u where d: "dial sa t = (r, u)" by fastforce
  show ?case
  proof (cases r)
    case (Inr x)
    with d show ?thesis by simp
  next
    case (Inl e1)
    have "dial_each dial e0 (sa # sas) t = dial_each dial e1 sas u" using d Inl by simp
    moreover have "all_fail dial (sa # sas) t = map_option (\<lambda>(es, u). (e1 # es, u)) (all_fail dial sas u)"
      using d Inl by simp
    ultimately show ?thesis using Cons [of e1 u]
      by (cases "all_fail dial sas u"; cases "the (all_fail dial sas u)")
         (simp_all del: dial_each.simps all_fail.simps last.simps, simp)
  qed
qed

lemma dial_each_Ok:
  "dial_each dial e0 sas t = (Inr c, t') \<longleftrightarrow>
     (\<exists>pre sa post es u. sas = pre @ sa # post \<and> all_fail dial pre t = Some (es, u) \<and> dial sa u = (Inr c, t'))"
  (is "?L sas e0 t \<longleftrightarrow> ?R sas t")
proof (induction sas arbitrary: e0 t)
  case Nil
  then show ?case by simp
next
  case (Cons sa sas)
  obtain r u where d: "dial sa t = (r, u)" by fastforce
  have later: "?R (sa # sas) t \<longleftrightarrow> dial sa t = (Inr c, t') \<or> (\<exists>e. r = Inl e \<and> ?R sas u)" (is "_ \<longleftrightarrow> ?now \<or> ?then")
  proof
    assume "?R (sa # sas) t"
    then obtain pre x post es v where e: "sa # sas = pre @ x # post"
      "all_fail dial pre t = Some (es, v)" "dial x v = (Inr c, t')" by blast
    show "?now \<or> ?then"
    proof (cases pre)
      case Nil
      with e show ?thesis by simp
    next
      case (Cons y pre')
      with e d have "sas = pre' @ x # post" "\<exists>e. r = Inl e" "\<exists>es. all_fail dial pre' u = Some (es, v)"
        by (auto split: sum.splits)
      with e(3) show ?thesis by blast
    qed
  next
    assume "?now \<or> ?then"
    then show "?R (sa # sas) t"
    proof
      assume ?now
      then show ?thesis
        by (intro exI [of _ "[]"] exI [of _ sa] exI [of _ sas] exI [of _ "[]"] exI [of _ t]) simp
    next
      assume ?then
      then obtain e pre x post es v where *: "r = Inl e" "sas = pre @ x # post"
        "all_fail dial pre u = Some (es, v)" "dial x v = (Inr c, t')" by blast
      then show ?thesis using d
        by (intro exI [of _ "sa # pre"] exI [of _ x] exI [of _ post] exI [of _ "e # es"] exI [of _ v]) simp
    qed
  qed
  show ?case
  proof (cases r)
    case (Inr x)
    with d later show ?thesis by simp
  next
    case (Inl e)
    with d later Cons [of e u] show ?thesis by simp
  qed
qed

text \<open>
  C30: A name is dialed address by address in the resolver's order: the result is the first
  address that connects after all earlier ones failed, or, when every one fails, the error of the
  last attempt (the resolution error when there was none to try).
\<close>

theorem dial_tcp_failover:
  assumes "parse_socket_addr addr = None" "dns addr = Ok sas"
  shows "(dial_tcp os dns addr timeout mark opts t = (Ok c, t') \<longleftrightarrow>
      (\<exists>pre post es u. sas = pre @ c # post \<and>
         all_fail (\<lambda>sa. dial_one os sa timeout mark opts) pre (t @ [LookupHost addr]) = Some (es, u) \<and>
         dial_one os c timeout mark opts u = (Ok c, t'))) \<and>
    (dial_tcp os dns addr timeout mark opts t = (Err e, t') \<longleftrightarrow>
      (\<exists>es. all_fail (\<lambda>sa. dial_one os sa timeout mark opts) sas (t @ [LookupHost addr]) = Some (es, t') \<and>
         e = last (io_other (''could not resolve `'' @ addr @ ''`'') # es)))"
proof -
  have run: "dial_tcp os dns addr timeout mark opts t =
      dial_each (\<lambda>sa. dial_one os sa timeout mark opts)
        (io_other (''could not resolve `'' @ addr @ ''`'')) sas (t @ [LookupHost addr])"
    using assms by (simp add: dial_tcp_def lookup_host_def sys_def ebind_def eret_def)
  have "(\<exists>pre sa post es u. sas = pre @ sa # post \<and>
      all_fail (\<lambda>sa. dial_one os sa timeout mark opts) pre (t @ [LookupHost addr]) = Some (es, u) \<and>
      dial_one os sa timeout mark opts u = (Ok c, t')) \<longleftrightarrow>
    (\<exists>pre post es u. sas = pre @ c # post \<and>
      all_fail (\<lambda>sa. dial_one os sa timeout mark opts) pre (t @ [LookupHost addr]) = Some (es, u) \<and>
      dial_one os c timeout mark opts u = (Ok c, t'))"
    using dial_one_result by metis
  then show ?thesis unfolding run dial_each_Ok dial_each_Err by blast
qed

definition refused :: io_error where
  "refused = \<lparr>io_kind = KConnectionRefused, io_raw = Some 111, io_msg = ''Connection refused''\<rparr>"

theorem dial_tcp_failover_witness:
  "dial_tcp (\<lambda>_ c. if c = Connect (SocketAddrV4 (Ipv4Addr 1 1 1 1) 80) then SysErr refused else SysOk)
     (\<lambda>_. Ok [SocketAddrV4 (Ipv4Addr 1 1 1 1) 80]) ''h:80'' DIAL_TIMEOUT None default_sock_opts [] =
   (Err refused, [LookupHost ''h:80'', SocketNew (V4 (Ipv4Addr 1 1 1 1)) Stream, SetNonblocking,
      SetKeepalive keepalive, SetNodelay, Connect (SocketAddrV4 (Ipv4Addr 1 1 1 1) 80)])"
proof -
  define os :: os where
    "os = (\<lambda>_ c. if c = Connect (SocketAddrV4 (Ipv4Addr 1 1 1 1) 80) then SysErr refused else SysOk)"
  have p: "parse_socket_addr ''h:80'' = None" by code_simp
  have nip: "\<not> is_in_progress refused" by (simp add: is_in_progress_def refused_def)
  have d: "dial_one os (SocketAddrV4 (Ipv4Addr 1 1 1 1) 80) DIAL_TIMEOUT None default_sock_opts t =
    (Err refused, t @ [SocketNew (V4 (Ipv4Addr 1 1 1 1)) Stream, SetNonblocking,
      SetKeepalive keepalive, SetNodelay, Connect (SocketAddrV4 (Ipv4Addr 1 1 1 1) 80)])" for t
    by (simp add: dial_one_def default_sock_opts_def ebind_def sys_try_def sys_def when_call_def
         opt_call_def connect_call_def eret_def efail_def nip os_def)
  have "dial_tcp os (\<lambda>_. Ok [SocketAddrV4 (Ipv4Addr 1 1 1 1) 80]) ''h:80'' DIAL_TIMEOUT None default_sock_opts [] =
    (Err refused, [LookupHost ''h:80'', SocketNew (V4 (Ipv4Addr 1 1 1 1)) Stream, SetNonblocking,
      SetKeepalive keepalive, SetNodelay, Connect (SocketAddrV4 (Ipv4Addr 1 1 1 1) 80)])"
    by (rule dial_tcp_failover [OF p refl, THEN conjunct2, THEN iffD2]) (simp add: d)
  then show ?thesis by (simp only: os_def)
qed

section \<open>Splitting an address\<close>

lemma split_host_port_plain:
  assumes "h \<noteq> []" "CHR ''['' \<notin> set h"
  shows "split_host_port (h @ CHR '':'' # show_u16 p) = Ok (h, p)"
proof -
  have "CHR '':'' \<notin> set (show_u16 p)" by (rule notin_show_u16) (simp add: to_digit_def)
  then have "rfind_char (\<lambda>c. c = CHR '':'') (h @ CHR '':'' # show_u16 p) = Some (length h)"
    by (intro rfind_char_append) auto
  moreover have "strip_char CHR ''['' (h @ CHR '':'' # show_u16 p) = None"
    using assms by (cases h) auto
  ultimately show ?thesis using assms(1) by (simp add: split_host_port_def)
qed

lemma split_host_port_bracket:
  assumes "h \<noteq> []" "CHR '']'' \<notin> set h"
  shows "split_host_port (CHR ''['' # h @ CHR '']'' # CHR '':'' # show_u16 p) = Ok (h, p)"
proof -
  from assms have "find_char (\<lambda>c. c = CHR '']'') (h @ CHR '']'' # CHR '':'' # show_u16 p) = Some (length h)"
    by (intro find_char_append) auto
  then show ?thesis using assms(1) by (simp add: split_host_port_def)
qed

lemma split_host_port_host: "split_host_port s = Inr (h, p) \<Longrightarrow> h \<noteq> []"
  by (auto simp: split_host_port_def Let_def result_iffs split: if_splits)

end
