(* ===== verification/Config.thy ===== *)
theory Config
  imports Cli Node Netopt
begin

text \<open>
  \<open>src/config.rs\<close>: the validated configuration. \<open>build_config\<close> is split where the source has its
  comment banners: one \<open>-L\<close> value (\<open>build_listener\<close>), one \<open>-F\<close> value (\<open>build_hop\<close>), the cross-rule
  checks (\<open>cross_checks\<close>) and the scalars. The \<open>expect\<close> on the port is a branch of its own
  (\<open>PortExpectPanic\<close>), proved unreachable. \<open>config_error_text\<close> is the message of an error.
\<close>

section \<open>Model\<close>

datatype protocol = Tcp | Udp

fun proto_as_str :: "protocol \<Rightarrow> string" where
  "proto_as_str Tcp = ''tcp''"
| "proto_as_str Udp = ''udp''"

record listener_spec =
  l_proto :: protocol
  l_bind :: string
  l_port :: u16
  l_targets :: "string list"
  l_nodelay :: bool
  l_name :: string

record chain_hop =
  h_addr :: string
  h_user :: "string option"
  h_pass :: "string option"

datatype mode = Userspace | NatMode

record config =
  c_listeners :: "listener_spec list"
  c_chain :: "chain_hop list"
  c_mode :: mode
  c_mark :: "u32 option"
  c_set_ip_forward :: bool
  c_buf_size :: u64
  c_heartbeat :: millis
  c_debug :: bool
  c_worker_threads :: "u64 option"
  c_sock :: sock_opts

datatype target_error =
    TUnterminatedBracket
  | TMissingPortAfterLiteral
  | TMissingPort
  | TMissingHost
  | TInvalidPort string

datatype config_error =
    NoListeners
  | BadNode node_error
  | UnsupportedScheme string string
  | MissingListenPort string
  | PortExpectPanic
  | MissingDestination string protocol u16
  | BadTarget string string target_error
  | UnsupportedHop string string
  | MissingHopPort string
  | BadHopAddress string target_error
  | NatWithChain
  | UdpWithChain string
  | DuplicateListener string string string protocol
  | BadBufSize u64
  | NegativeMark int
  | ZeroWorkers

definition MIN_BUF_KB :: u64 where "MIN_BUF_KB = 1"
definition MAX_BUF_KB :: u64 where "MAX_BUF_KB = 1024"

text \<open>The operator-facing messages, as \<open>build_config\<close> formats them.\<close>

fun target_error_text :: "target_error \<Rightarrow> string" where
  "target_error_text TUnterminatedBracket = ''unterminated IPv6 bracket''"
| "target_error_text TMissingPortAfterLiteral = ''missing :port after IPv6 literal''"
| "target_error_text TMissingPort = ''missing :port''"
| "target_error_text TMissingHost = ''missing host''"
| "target_error_text (TInvalidPort p) = ''invalid port '' @ quoted p"

definition show_i64 :: "int \<Rightarrow> string" where
  "show_i64 m = (if m < 0 then ''-'' @ show_radix 10 (nat (- m)) else show_radix 10 (nat m))"

fun config_error_text :: "config_error \<Rightarrow> string" where
  "config_error_text NoListeners =
     ''no listeners: at least one -L is required (e.g. -L=tcp://:8080/1.2.3.4:9090)''"
| "config_error_text (BadNode e) = node_error_text e"
| "config_error_text (UnsupportedScheme ls other) =
     ''-L '' @ quoted ls @ '': unsupported scheme '' @ quoted other @
     '' (only tcp:// and udp:// are supported)''"
| "config_error_text (MissingListenPort ls) = ''-L '' @ quoted ls @ '': missing listen port''"
| "config_error_text PortExpectPanic = ''bind_string implies a port''"
| "config_error_text (MissingDestination ls proto port) =
     ''-L '' @ quoted ls @ '': forwarding requires a destination, e.g. '' @ proto_as_str proto @ ''://:'' @
     show_u16 port @ ''/HOST:PORT''"
| "config_error_text (BadTarget ls t e) =
     ''-L '' @ quoted ls @ '' target '' @ quoted t @ '': '' @ target_error_text e"
| "config_error_text (UnsupportedHop fwd scheme) =
     ''-F '' @ quoted fwd @ '': only socks5:// hops are supported (got '' @ quoted (scheme @ ''://'') @ '')''"
| "config_error_text (MissingHopPort fwd) = ''-F '' @ quoted fwd @ '': missing host:port''"
| "config_error_text (BadHopAddress fwd e) = ''-F '' @ quoted fwd @ '': '' @ target_error_text e"
| "config_error_text NatWithChain =
     ''--nat cannot be combined with -F: kernel DNAT cannot speak SOCKS5. '' @
     ''Use a separate process for SOCKS5-chained listeners.''"
| "config_error_text (UdpWithChain name) =
     ''UDP forwarding does not support SOCKS5 chaining (-F): listener '' @ quoted name @ '' is udp://. '' @
     ''Remove -F or drop the udp:// listener.''"
| "config_error_text (DuplicateListener a b bind proto) =
     ''duplicate listener: '' @ a @ '' and '' @ b @ '' both bind '' @ bind @ '' on '' @ proto_as_str proto"
| "config_error_text (BadBufSize kb) =
     ''--buf-size-kb must be between '' @ show_u64 MIN_BUF_KB @ '' and '' @ show_u64 MAX_BUF_KB @
     '' (got '' @ show_u64 kb @ '')''"
| "config_error_text (NegativeMark m) = ''-M mark must be non-negative (got '' @ show_i64 m @ '')''"
| "config_error_text ZeroWorkers = ''--worker-threads must be >= 1''"

definition validate_hostport :: "string \<Rightarrow> (target_error, unit) result" where
  "validate_hostport s =
     and_then
       (case strip_char CHR ''['' s of
          Some rest \<Rightarrow>
            and_then (ok_or TUnterminatedBracket (find_char (\<lambda>c. c = CHR '']'') rest)) (\<lambda>close.
            and_then (ok_or TMissingPortAfterLiteral (strip_char CHR '':'' (drop (close + 1) rest))) (\<lambda>port.
            Ok (take close rest, port)))
        | None \<Rightarrow>
            and_then (ok_or TMissingPort (rfind_char (\<lambda>c. c = CHR '':'') s)) (\<lambda>c.
            Ok (take c s, drop (c + 1) s)))
       (\<lambda>(host, port).
          if host = [] then Err TMissingHost
          else and_then (ok_or (TInvalidPort port) (parse_u16 port)) (\<lambda>_. Ok ()))"

text \<open>\<open>for t in &targets { validate_hostport(t)?; }\<close>\<close>

fun validate_all :: "(string \<Rightarrow> target_error \<Rightarrow> config_error) \<Rightarrow> string list \<Rightarrow> (config_error, unit) result" where
  "validate_all wrap [] = Ok ()"
| "validate_all wrap (t # ts) =
     and_then (map_err (wrap t) (validate_hostport t)) (\<lambda>_. validate_all wrap ts)"

definition listener_nodelay :: "node \<Rightarrow> bool" where
  "listener_nodelay n =
     (case n_query n ''nodelay'' of None \<Rightarrow> False | Some v \<Rightarrow> v \<noteq> ''false'' \<and> v \<noteq> ''0'')"

definition listener_name :: "protocol \<Rightarrow> node \<Rightarrow> u16 \<Rightarrow> string" where
  "listener_name proto n port =
     (if n_host n = [] then proto_as_str proto @ ''://:'' @ show_u16 port
      else proto_as_str proto @ ''://'' @ n_host n @ '':'' @ show_u16 port)"

definition build_listener :: "string \<Rightarrow> (config_error, listener_spec) result" where
  "build_listener ls =
     and_then (map_err BadNode (parse_node ls)) (\<lambda>node.
     and_then
       (if n_scheme node = ''tcp'' then Ok Tcp
        else if n_scheme node = ''udp'' then Ok Udp
        else Err (UnsupportedScheme ls (n_scheme node))) (\<lambda>proto.
     and_then (ok_or (MissingListenPort ls) (bind_string node)) (\<lambda>bind.
     and_then (ok_or PortExpectPanic (n_port node)) (\<lambda>port.
     if targets node = [] then Err (MissingDestination ls proto port)
     else
       and_then (validate_all (BadTarget ls) (targets node)) (\<lambda>_.
       Ok \<lparr>l_proto = proto, l_bind = bind, l_port = port, l_targets = targets node,
           l_nodelay = listener_nodelay node, l_name = listener_name proto node port\<rparr>)))))"

definition build_hop :: "string \<Rightarrow> (config_error, chain_hop) result" where
  "build_hop fwd =
     and_then (map_err BadNode (parse_node fwd)) (\<lambda>node.
     if n_scheme node \<noteq> ''socks5'' then Err (UnsupportedHop fwd (n_scheme node))
     else
       and_then (ok_or (MissingHopPort fwd) (authority node)) (\<lambda>addr.
       and_then (map_err (BadHopAddress fwd) (validate_hostport addr)) (\<lambda>_.
       Ok \<lparr>h_addr = addr, h_user = n_user node, h_pass = n_pass node\<rparr>)))"

definition same_bind :: "listener_spec \<Rightarrow> listener_spec \<Rightarrow> bool" where
  "same_bind l m \<longleftrightarrow> l_proto l = l_proto m \<and> l_bind l = l_bind m"

text \<open>The double loop over \<open>i < j\<close>: the first pair in lexicographic order.\<close>

fun find_duplicate :: "listener_spec list \<Rightarrow> (listener_spec \<times> listener_spec) option" where
  "find_duplicate [] = None"
| "find_duplicate (l # ls) =
     (case find (same_bind l) ls of
        Some m \<Rightarrow> Some (l, m)
      | None \<Rightarrow> find_duplicate ls)"

definition cross_checks :: "mode \<Rightarrow> listener_spec list \<Rightarrow> chain_hop list \<Rightarrow> (config_error, unit) result" where
  "cross_checks mode listeners chain =
     (if mode = NatMode \<and> chain \<noteq> [] then Err NatWithChain
      else
        and_then
          (if chain \<noteq> [] then
             (case find (\<lambda>l. l_proto l = Udp) listeners of
                Some l \<Rightarrow> Err (UdpWithChain (l_name l))
              | None \<Rightarrow> Ok ())
           else Ok ())
          (\<lambda>_.
             case find_duplicate listeners of
               Some (l, m) \<Rightarrow> Err (DuplicateListener (l_name l) (l_name m) (l_bind l) (l_proto l))
             | None \<Rightarrow> Ok ()))"

definition config_mark :: "int option \<Rightarrow> (config_error, u32 option) result" where
  "config_mark m =
     (case m of
        Some m \<Rightarrow> if m < 0 then Err (NegativeMark m) else Ok (Some (word_of_int m))
      | None \<Rightarrow> Ok None)"

definition build_config :: "raw_args \<Rightarrow> (config_error, config) result" where
  "build_config raw =
     (if r_listens raw = [] then Err NoListeners
      else
        and_then (try_map build_listener (r_listens raw)) (\<lambda>listeners.
        and_then (try_map build_hop (r_forwards raw)) (\<lambda>chain.
        let mode = (if r_nat raw then NatMode else Userspace) in
        and_then (cross_checks mode listeners chain) (\<lambda>_.
        let buf_kb = (case r_buf_size_kb raw of Some n \<Rightarrow> n | None \<Rightarrow> 32) in
        if \<not> (MIN_BUF_KB \<le> buf_kb \<and> buf_kb \<le> MAX_BUF_KB) then Err (BadBufSize buf_kb)
        else
          and_then (config_mark (r_mark raw)) (\<lambda>mark.
          if r_worker_threads raw = Some 0 then Err ZeroWorkers
          else
            Ok \<lparr>c_listeners = listeners, c_chain = chain, c_mode = mode, c_mark = mark,
                c_set_ip_forward = r_set_ip_forward raw, c_buf_size = buf_kb * 1024,
                c_heartbeat =
                  1000 * (case r_heartbeat_secs raw of Some n \<Rightarrow> unat n | None \<Rightarrow> 60),
                c_debug = r_debug raw, c_worker_threads = r_worker_threads raw,
                c_sock =
                  \<lparr>so_nodelay = (case r_nodelay raw of Some b \<Rightarrow> b | None \<Rightarrow> True),
                   so_rcvbuf = r_so_rcvbuf raw, so_sndbuf = r_so_sndbuf raw\<rparr>\<rparr>)))))"

section \<open>Address validation\<close>

lemma validate_split: "validate_hostport s = Inr () \<longleftrightarrow> (\<exists>h p. split_host_port s = Inr (h, p))"
  unfolding validate_hostport_def split_host_port_def Let_def
  by (cases "strip_char CHR ''['' s") (auto simp: result_iffs)

lemma validate_all_Ok: "validate_all wrap ts = Inr u \<longleftrightarrow> (\<forall>t \<in> set ts. validate_hostport t = Inr ())"
  by (induction ts) (auto simp: result_iffs)

text \<open>
  The validator that runs at startup and the splitter that runs when a connection is dialed
  accept exactly the same strings, so an address that passed validation can always be split.
\<close>

theorem validate_iff_split:
  "validate_hostport s = Ok () \<longleftrightarrow> (\<exists>h p. split_host_port s = Ok (h, p))"
  by (rule validate_split)

section \<open>What a configuration guarantees\<close>

definition splittable :: "string \<Rightarrow> bool" where
  "splittable s \<longleftrightarrow> \<not> isl (split_host_port s)"

lemma splittable_validate: "splittable s \<longleftrightarrow> validate_hostport s = Inr ()"
  unfolding splittable_def validate_split by (cases "split_host_port s") auto

text \<open>
  The invariant of a validated configuration: at least one listener, each with at least one
  destination; every destination and hop address splits into host and port; kernel NAT excludes a
  chain and a chain excludes UDP; no two listeners share protocol and bind address; the relay
  buffer is between 1 KiB and 1 MiB; the worker count is not zero.
\<close>

definition wf_listener :: "listener_spec \<Rightarrow> bool" where
  "wf_listener l \<longleftrightarrow> l_targets l \<noteq> [] \<and> list_all splittable (l_targets l)"

definition wf_config :: "config \<Rightarrow> bool" where
  "wf_config c \<longleftrightarrow>
     c_listeners c \<noteq> [] \<and> list_all wf_listener (c_listeners c) \<and>
     list_all (\<lambda>h. splittable (h_addr h)) (c_chain c) \<and>
     (c_mode c = NatMode \<longrightarrow> c_chain c = []) \<and>
     (c_chain c \<noteq> [] \<longrightarrow> list_all (\<lambda>l. l_proto l = Tcp) (c_listeners c)) \<and>
     distinct (map (\<lambda>l. (l_proto l, l_bind l)) (c_listeners c)) \<and>
     1024 \<le> unat (c_buf_size c) \<and> unat (c_buf_size c) \<le> 1024 * 1024 \<and>
     c_worker_threads c \<noteq> Some 0"

lemma build_listener_wf: "build_listener ls = Inr l \<Longrightarrow> wf_listener l"
  by (auto simp: build_listener_def result_iffs wf_listener_def list_all_iff validate_all_Ok
      splittable_validate split: if_splits)

lemma validate_all_no_panic: "validate_all (BadTarget ls) ts \<noteq> Inl PortExpectPanic"
  by (induction ts) (auto simp: result_iffs)

lemma build_listener_no_panic: "build_listener ls \<noteq> Inl PortExpectPanic"
  by (auto simp: build_listener_def result_iffs validate_all_no_panic dest: bind_string_port split: if_splits)

lemma build_hop_wf: "build_hop fwd = Inr h \<Longrightarrow> splittable (h_addr h)"
  by (auto simp: build_hop_def result_iffs splittable_validate split: if_splits)

lemma find_duplicate_None:
  "find_duplicate ls = None \<longleftrightarrow> distinct (map (\<lambda>l. (l_proto l, l_bind l)) ls)"
proof (induction ls)
  case (Cons l ls)
  have "find (same_bind l) ls = None \<longleftrightarrow> (l_proto l, l_bind l) \<notin> (\<lambda>l. (l_proto l, l_bind l)) ` set ls"
    by (auto simp: find_None_iff same_bind_def)
  with Cons show ?case by (auto split: option.splits)
qed simp

lemma cross_checks_Ok:
  "cross_checks mode ls chain = Inr u \<longleftrightarrow>
     (mode = NatMode \<longrightarrow> chain = []) \<and>
     (chain \<noteq> [] \<longrightarrow> list_all (\<lambda>l. l_proto l = Tcp) ls) \<and>
     distinct (map (\<lambda>l. (l_proto l, l_bind l)) ls)"
proof -
  have udp: "find (\<lambda>l. l_proto l = Udp) ls = None \<longleftrightarrow> list_all (\<lambda>l. l_proto l = Tcp) ls"
    by (auto simp: find_None_iff list_all_iff) (metis protocol.exhaust)
  show ?thesis
    unfolding cross_checks_def find_duplicate_None [symmetric] udp [symmetric]
    by (auto simp: result_iffs split: option.splits)
qed

lemma buf_size_bounds:
  fixes n :: u64
  assumes "MIN_BUF_KB \<le> n" "n \<le> MAX_BUF_KB"
  shows "unat (n * 1024) = unat n * 1024" "1 \<le> unat n" "unat n \<le> 1024"
proof -
  show b: "1 \<le> unat n" "unat n \<le> 1024"
    using assms by (simp_all add: MIN_BUF_KB_def MAX_BUF_KB_def word_le_nat_alt)
  then have "unat n * 1024 < 2 ^ 64" by simp
  then show "unat (n * 1024) = unat n * 1024" by (simp add: unat_word_ariths)
qed

lemma build_config_Ok:
  assumes "build_config raw = Inr c"
  shows "r_listens raw \<noteq> []" "try_map build_listener (r_listens raw) = Inr (c_listeners c)"
    "try_map build_hop (r_forwards raw) = Inr (c_chain c)"
    "cross_checks (c_mode c) (c_listeners c) (c_chain c) = Inr ()"
    "\<exists>n. MIN_BUF_KB \<le> n \<and> n \<le> MAX_BUF_KB \<and> c_buf_size c = n * 1024"
    "config_mark (r_mark raw) = Inr (c_mark c)" "c_worker_threads c \<noteq> Some 0"
    "c_mode c = (if r_nat raw then NatMode else Userspace)"
  using assms by (auto simp: build_config_def Let_def result_iffs split: if_splits)

lemma build_config_wf: "build_config raw = Inr c \<Longrightarrow> wf_config c"
proof -
  assume "build_config raw = Inr c"
  note ok = build_config_Ok [OF this]
  have "c_listeners c \<noteq> []" using try_map_length [OF ok(2)] ok(1) by auto
  moreover have "list_all wf_listener (c_listeners c)"
    using try_map_in_set [OF ok(2)] build_listener_wf by (auto simp: list_all_iff)
  moreover have "list_all (\<lambda>h. splittable (h_addr h)) (c_chain c)"
    using try_map_in_set [OF ok(3)] build_hop_wf by (auto simp: list_all_iff)
  moreover obtain n where n: "MIN_BUF_KB \<le> n" "n \<le> MAX_BUF_KB" "c_buf_size c = n * 1024"
    using ok(5) by blast
  moreover have "1024 \<le> unat (c_buf_size c)" "unat (c_buf_size c) \<le> 1024 * 1024"
    using buf_size_bounds [OF n(1,2)] n(3) by simp_all
  ultimately show ?thesis
    using ok(4,7) unfolding wf_config_def cross_checks_Ok by blast
qed

text \<open>
  C14: Every configuration the program accepts is well formed: the cross-rule checks hold for the
  whole configuration, every address in it can be split, and the relay buffer size in bytes did
  not wrap around.
\<close>

theorem build_config_wf_config: "build_config raw = Ok c \<Longrightarrow> wf_config c"
  by (rule build_config_wf)

text \<open>The example of the help text, evaluated.\<close>

definition sample_raw :: raw_args where
  "sample_raw = raw_default
     \<lparr>r_listens := [''tcp://:8080/1.2.3.4:9090''], r_forwards := [''socks5://u:p@h1:1080'']\<rparr>"

lemma sample_config:
  "build_config sample_raw = Ok
     \<lparr>c_listeners =
        [\<lparr>l_proto = Tcp, l_bind = ''0.0.0.0:8080'', l_port = 8080, l_targets = [''1.2.3.4:9090''],
          l_nodelay = False, l_name = ''tcp://:8080''\<rparr>],
      c_chain = [\<lparr>h_addr = ''h1:1080'', h_user = Some ''u'', h_pass = Some ''p''\<rparr>],
      c_mode = Userspace, c_mark = None, c_set_ip_forward = False, c_buf_size = 32768,
      c_heartbeat = 60000, c_debug = False, c_worker_threads = None,
      c_sock = \<lparr>so_nodelay = True, so_rcvbuf = None, so_sndbuf = None\<rparr>\<rparr>"
  by code_simp

theorem build_config_wf_config_witness:
  "\<exists>c. build_config sample_raw = Ok c \<and> wf_config c"
  using sample_config build_config_wf_config [OF sample_config] by blast

text \<open>
  The listening port is always present when \<open>build_config\<close> unwraps it: no command line makes
  the \<open>expect\<close> in it panic.
\<close>

theorem build_config_no_panic: "build_config raw \<noteq> Err PortExpectPanic"
proof
  assume "build_config raw = Err PortExpectPanic"
  moreover have "try_map build_listener ls \<noteq> Inl PortExpectPanic" for ls
    by (metis try_map_Inl build_listener_no_panic)
  moreover have "try_map build_hop fs \<noteq> Inl PortExpectPanic" for fs
    using try_map_Inl [of build_hop fs PortExpectPanic]
    by (auto simp: build_hop_def result_iffs split: if_splits)
  ultimately show False
    by (auto simp: build_config_def Let_def result_iffs cross_checks_def config_mark_def
        split: if_splits option.splits)
qed

text \<open>
  C40: The mark of an accepted configuration is the given value modulo \<open>2 ^ 32\<close>: negative values are
  rejected, but a value that does not fit in the 32 bits of \<open>SO_MARK\<close> is truncated without an error.
\<close>

theorem config_mark_truncates:
  assumes "build_config raw = Ok c"
  shows "(case r_mark raw of
       None \<Rightarrow> c_mark c = None
     | Some m \<Rightarrow> 0 \<le> m \<and> (\<exists>w. c_mark c = Some w \<and> int (unat w) = m mod 2 ^ 32))"
proof -
  have mark: "config_mark (r_mark raw) = Inr (c_mark c)" by (rule build_config_Ok [OF assms])
  show ?thesis
  proof (cases "r_mark raw")
    case (Some m)
    with mark have "0 \<le> m" "c_mark c = Some (word_of_int m)"
      by (auto simp: config_mark_def split: if_splits)
    moreover have "int (unat (word_of_int m :: u32)) = m mod 2 ^ 32" by (simp add: uint_word_of_int)
    ultimately show ?thesis using Some by auto
  qed (use mark in \<open>simp add: config_mark_def\<close>)
qed

theorem config_mark_truncates_witness:
  "\<exists>c w. build_config (sample_raw\<lparr>r_mark := Some 4294967301\<rparr>) = Ok c \<and> c_mark c = Some w \<and> int (unat w) = 5"
proof -
  let ?raw = "sample_raw\<lparr>r_mark := Some 4294967301\<rparr>"
  have "build_config ?raw = Ok (projr (build_config ?raw))" by code_simp
  moreover from config_mark_truncates [OF this] obtain w where
    "c_mark (projr (build_config ?raw)) = Some w" "int (unat w) = 4294967301 mod 2 ^ 32" by auto
  ultimately show ?thesis by auto
qed

text \<open>
  A listener written out as text becomes exactly the listener meant: an empty host binds all
  interfaces, the comma-separated path gives the destinations in order, and the display name is
  built from protocol, host and port.
\<close>

lemma build_listener_text:
  assumes "wf_node n qs" "n_scheme n = proto_as_str pr" "n_port n = Some p"
    and "targets n \<noteq> []" "list_all splittable (targets n)"
  shows "build_listener (render_node n qs) = Ok
    \<lparr>l_proto = pr,
     l_bind = (if n_host n = [] then ''0.0.0.0'' else n_host n) @ '':'' @ show_u16 p,
     l_port = p, l_targets = targets n, l_nodelay = listener_nodelay n,
     l_name = listener_name pr n p\<rparr>"
proof -
  have "validate_all (BadTarget (render_node n qs)) (targets n) = Inr ()"
    using assms(5) by (simp add: validate_all_Ok list_all_iff splittable_validate)
  with assms show ?thesis
    by (cases pr) (simp_all add: build_listener_def parse_node_render bind_string_def)
qed

section \<open>UTF-8\<close>

definition utf8_listener :: "listener_spec \<Rightarrow> bool" where
  "utf8_listener l \<longleftrightarrow> valid_utf8 (l_bind l) \<and> list_all valid_utf8 (l_targets l) \<and> valid_utf8 (l_name l)"

definition utf8_hop :: "chain_hop \<Rightarrow> bool" where
  "utf8_hop h \<longleftrightarrow>
     valid_utf8 (h_addr h) \<and> pred_option valid_utf8 (h_user h) \<and> pred_option valid_utf8 (h_pass h)"

definition utf8_config :: "config \<Rightarrow> bool" where
  "utf8_config c \<longleftrightarrow> list_all utf8_listener (c_listeners c) \<and> list_all utf8_hop (c_chain c)"

lemma proto_as_str_valid [utf8]: "valid_utf8 (proto_as_str p)"
  by (cases p) (simp_all add: utf8_simps)

lemma show_u64_valid [utf8]: "valid_utf8 (show_u64 n)"
  by (simp add: show_u64_def show_radix_valid)

lemma targets_valid: "\<lbrakk>utf8_node n; t \<in> set (targets n)\<rbrakk> \<Longrightarrow> valid_utf8 t"
  using split_char_valid [of "CHR '',''"] by (auto simp: targets_def utf8_node_def str_trim_valid is_ascii_def)

lemma node_strings_valid:
  assumes "utf8_node n"
  shows "bind_string n = Some b \<Longrightarrow> valid_utf8 b" "authority n = Some a \<Longrightarrow> valid_utf8 a"
    "valid_utf8 (listener_name pr n p)"
  using assms
  by (auto simp: bind_string_def authority_def listener_name_def utf8_node_def utf8_simps utf8
      split: option.splits if_splits)

lemma validate_hostport_valid:
  assumes "valid_utf8 s" "validate_hostport s = Inl e"
  shows "valid_utf8 (target_error_text e)"
proof (cases "strip_char CHR ''['' s")
  case None
  have a: "c = CHR '':'' \<Longrightarrow> is_ascii c" for c by (simp add: is_ascii_def)
  show ?thesis
    using None assms rfind_char_slices(2) [OF _ assms(1) a]
    by (auto simp: validate_hostport_def result_iffs utf8_simps split: if_splits)
next
  case (Some t)
  then have s: "s = CHR ''['' # t" by simp
  show ?thesis
    using assms bracketed_slices(3) [OF assms(1) [unfolded s]]
    by (auto simp: s validate_hostport_def result_iffs utf8_simps split: if_splits)
qed

lemma validate_all_valid:
  assumes "list_all valid_utf8 ts" "validate_all (BadTarget ls) ts = Inl e" "valid_utf8 ls"
  shows "valid_utf8 (config_error_text e)"
  using assms by (induction ts) (auto simp: result_iffs utf8_simps validate_hostport_valid)

lemma build_listener_utf8:
  assumes "valid_utf8 ls"
  shows "build_listener ls = Inr l \<Longrightarrow> utf8_listener l"
    and "build_listener ls = Inl e \<Longrightarrow> valid_utf8 (config_error_text e)"
proof -
  note node = parse_node_utf8 [OF assms] and node_err = parse_node_error_utf8 [OF assms]
  show "build_listener ls = Inr l \<Longrightarrow> utf8_listener l"
    using node targets_valid node_strings_valid
    by (auto simp: build_listener_def result_iffs utf8_listener_def list_all_iff split: if_splits)
  have ts: "list_all valid_utf8 (targets n)" if "parse_node ls = Inr n" for n
    using targets_valid [OF node [OF that]] by (simp add: list_all_iff)
  have sch: "valid_utf8 (n_scheme n)" if "parse_node ls = Inr n" for n
    using node [OF that] by (simp add: utf8_node_def)
  show "build_listener ls = Inl e \<Longrightarrow> valid_utf8 (config_error_text e)"
    using assms node_err sch validate_all_valid [OF ts _ assms]
    by (auto simp: build_listener_def result_iffs utf8_simps utf8 split: if_splits)
qed

lemma build_hop_utf8:
  assumes "valid_utf8 fwd"
  shows "build_hop fwd = Inr h \<Longrightarrow> utf8_hop h"
    and "build_hop fwd = Inl e \<Longrightarrow> valid_utf8 (config_error_text e)"
proof -
  note node = parse_node_utf8 [OF assms] and node_err = parse_node_error_utf8 [OF assms]
  show "utf8_hop h" if "build_hop fwd = Inr h"
  proof -
    from that obtain n a where "parse_node fwd = Inr n" "authority n = Some a"
      "h = \<lparr>h_addr = a, h_user = n_user n, h_pass = n_pass n\<rparr>"
      by (auto simp: build_hop_def result_iffs split: if_splits)
    with node [of n] node_strings_valid(2) [of n a] show ?thesis by (simp add: utf8_hop_def utf8_node_def)
  qed
  have sch: "valid_utf8 (n_scheme n)" if "parse_node fwd = Inr n" for n
    using node [OF that] by (simp add: utf8_node_def)
  have adr: "valid_utf8 (target_error_text e)"
    if "parse_node fwd = Inr n" "authority n = Some a" "validate_hostport a = Inl e" for n a e
    using validate_hostport_valid [OF node_strings_valid(2) [OF node [OF that(1)] that(2)] that(3)] .
  show "build_hop fwd = Inl e \<Longrightarrow> valid_utf8 (config_error_text e)"
    using assms node_err sch adr
    by (auto simp: build_hop_def result_iffs utf8_simps split: if_splits)
qed

lemma cross_checks_utf8:
  assumes "list_all utf8_listener ls" "cross_checks mode ls chain = Inl e"
  shows "valid_utf8 (config_error_text e)"
proof -
  have dup: "find_duplicate ls = Some (l, m) \<Longrightarrow> l \<in> set ls \<and> m \<in> set ls" for l m
    by (induction ls) (auto simp: find_Some_iff split: option.splits)
  have udp: "find (\<lambda>l. l_proto l = Udp) ls = Some l \<Longrightarrow> l \<in> set ls" for l
    by (auto simp: find_Some_iff)
  have l: "l \<in> set ls \<Longrightarrow> valid_utf8 (l_bind l) \<and> valid_utf8 (l_name l)" for l
    using assms(1) by (simp add: list_all_iff utf8_listener_def)
  show ?thesis
    using assms(2) by (auto simp: cross_checks_def result_iffs utf8_simps utf8 l
        dest!: dup udp split: if_splits option.splits)
qed

text \<open>Both results of \<open>build_config\<close> on well-formed input.\<close>

lemma build_config_utf8:
  assumes "utf8_raw raw" "build_config raw = Inr c"
  shows "utf8_config c"
proof -
  note ok = build_config_Ok [OF assms(2)]
  have "utf8_listener l" if "l \<in> set (c_listeners c)" for l
    using try_map_in_set [OF ok(2) that] build_listener_utf8(1) assms(1) by (auto simp: utf8_raw_def list_all_iff)
  moreover have "utf8_hop h" if "h \<in> set (c_chain c)" for h
    using try_map_in_set [OF ok(3) that] build_hop_utf8(1) assms(1) by (auto simp: utf8_raw_def list_all_iff)
  ultimately show ?thesis by (simp add: utf8_config_def list_all_iff)
qed

lemma build_config_error_utf8:
  assumes "utf8_raw raw" "build_config raw = Inl e"
  shows "valid_utf8 (config_error_text e)"
proof -
  have l: "valid_utf8 (config_error_text e)" if "try_map build_listener (r_listens raw) = Inl e" for e
    using try_map_Inl [OF that] build_listener_utf8(2) assms(1) by (auto simp: utf8_raw_def list_all_iff)
  have f: "valid_utf8 (config_error_text e)" if "try_map build_hop (r_forwards raw) = Inl e" for e
    using try_map_Inl [OF that] build_hop_utf8(2) assms(1) by (auto simp: utf8_raw_def list_all_iff)
  have ls: "list_all utf8_listener ls" if "try_map build_listener (r_listens raw) = Inr ls" for ls
    using try_map_in_set [OF that] build_listener_utf8(1) assms(1) by (auto simp: utf8_raw_def list_all_iff)
  have i: "valid_utf8 (show_i64 m)" for m by (simp add: show_i64_def utf8_simps show_radix_valid)
  show ?thesis
    using assms(2) l f cross_checks_utf8 [OF ls]
    by (auto simp: build_config_def Let_def result_iffs config_mark_def utf8_simps utf8 i
        split: if_splits option.splits)
qed

text \<open>
  C15: Every string of an accepted configuration is well-formed UTF-8 when the arguments are, as their
  type promises: bind addresses, destinations, names, hop addresses and the percent-decoded
  credentials. No slice the parsers take splits a character, whatever the arguments contain.
\<close>

theorem config_strings_utf8:
  assumes "list_all valid_utf8 args" "parse_args args = Ok (Run raw)" "build_config raw = Ok c"
  shows "(\<forall>l \<in> set (c_listeners c).
            valid_utf8 (l_bind l) \<and> valid_utf8 (l_name l) \<and> (\<forall>t \<in> set (l_targets l). valid_utf8 t)) \<and>
         (\<forall>h \<in> set (c_chain c).
            valid_utf8 (h_addr h) \<and> pred_option valid_utf8 (h_user h) \<and> pred_option valid_utf8 (h_pass h))"
  using build_config_utf8 [OF parse_args_valid(1) [OF assms(1,2)] assms(3)]
  by (simp add: utf8_config_def utf8_listener_def utf8_hop_def list_all_iff)

text \<open>A command line with a non-ASCII destination and an ill-formed percent-escape in the password.\<close>

definition utf8_args :: "string list" where
  "utf8_args =
     [''-L=tcp://:8080/h'' @ [CHR 0xC3, CHR 0xB6] @ ''st:9090'', ''-F=socks5://u:p%ff@h1:1080'']"

theorem config_strings_utf8_witness:
  "\<exists>raw c. parse_args utf8_args = Ok (Run raw) \<and> build_config raw = Ok c \<and>
     map h_pass (c_chain c) = [Some (''p'' @ replacement)] \<and> (\<forall>h \<in> set (c_chain c). pred_option valid_utf8 (h_pass h))"
proof -
  let ?raw = "(case projr (parse_args utf8_args) of Run raw \<Rightarrow> raw)"
  let ?c = "projr (build_config ?raw)"
  have v: "list_all valid_utf8 utf8_args" by code_simp
  have "(case parse_args utf8_args of Inr (Run raw) \<Rightarrow> True | _ \<Rightarrow> False)" by code_simp
  then have raw: "parse_args utf8_args = Inr (Run ?raw)" by (auto split: sum.splits parse_outcome.splits)
  have "\<not> isl (build_config ?raw)" by code_simp
  then have c: "build_config ?raw = Inr ?c" by (cases "build_config ?raw") auto
  have p: "map h_pass (c_chain ?c) = [Some (''p'' @ replacement)]" by code_simp
  show ?thesis
    by (intro exI [of _ ?raw] exI [of _ ?c] conjI raw c p) (use config_strings_utf8 [OF v raw c] in blast)
qed

section \<open>Messages\<close>

text \<open>What an error of one rule names: the rule as given, or trimmed by the node parser.\<close>

definition names_rule :: "string \<Rightarrow> string \<Rightarrow> bool" where
  "names_rule rule msg \<longleftrightarrow>
     sublist (quoted rule) msg \<or> sublist (quoted (str_trim rule)) msg \<or>
     str_trim rule = [] \<and> msg = ''empty node string''"

lemma parse_node_names:
  assumes "parse_node s0 = Inl e"
  shows "names_rule s0 (node_error_text e)"
proof -
  have q: "sublist (quoted s) (''node '' @ quoted s @ t)" for s t by (rule sublist_appendI)
  from assms consider "str_trim s0 = []" "e = EmptyNode" | "e = MissingScheme (str_trim s0)"
    | "e = EmptyScheme (str_trim s0)" | e' where "e = BadHostPort (str_trim s0) e'"
    by (auto simp: parse_node_def Let_def split_def result_iffs split: if_splits)
  then show ?thesis
    by cases (use q in \<open>simp_all only: names_rule_def node_error_text.simps simp_thms\<close>)
qed

lemma validate_all_names:
  "validate_all (BadTarget ls) ts = Inl e \<Longrightarrow> \<exists>t e'. e = BadTarget ls t e'"
  by (induction ts) (auto simp: result_iffs)

lemma named_texts:
  "sublist (quoted ls) (config_error_text (UnsupportedScheme ls a))"
  "sublist (quoted ls) (config_error_text (MissingListenPort ls))"
  "sublist (quoted ls) (config_error_text (MissingDestination ls pr p))"
  "sublist (quoted ls) (config_error_text (BadTarget ls t te))"
  "sublist (quoted ls) (config_error_text (UnsupportedHop ls a))"
  "sublist (quoted ls) (config_error_text (MissingHopPort ls))"
  "sublist (quoted ls) (config_error_text (BadHopAddress ls te))"
  unfolding config_error_text.simps by (rule sublist_appendI)+

lemma build_listener_names:
  assumes "build_listener ls = Inl e"
  shows "names_rule ls (config_error_text e)"
proof -
  from assms consider e' where "e = BadNode e'" "parse_node ls = Inl e'" | a where "e = UnsupportedScheme ls a"
    | "e = MissingListenPort ls" | "e = PortExpectPanic" | pr p where "e = MissingDestination ls pr p"
    | t te where "e = BadTarget ls t te"
    by (auto simp: build_listener_def result_iffs dest: validate_all_names split: if_splits)
  then show ?thesis
  proof cases
    case 4
    with assms build_listener_no_panic show ?thesis by blast
  qed (use parse_node_names [of ls] named_texts [of ls] in \<open>auto simp: names_rule_def\<close>)
qed

lemma build_hop_names:
  assumes "build_hop fwd = Inl e"
  shows "names_rule fwd (config_error_text e)"
proof -
  from assms consider e' where "e = BadNode e'" "parse_node fwd = Inl e'" | a where "e = UnsupportedHop fwd a"
    | "e = MissingHopPort fwd" | te where "e = BadHopAddress fwd te"
    by (auto simp: build_hop_def result_iffs split: if_splits)
  then show ?thesis
    by cases (use parse_node_names [of fwd] named_texts [of fwd] in \<open>auto simp: names_rule_def\<close>)
qed

text \<open>
  C33: A configuration error about one rule names it: when a \<open>-L\<close> or \<open>-F\<close> value is rejected, it is the
  first one that is wrong (the \<open>-L\<close> values come before the \<open>-F\<close> values), and the message quotes that
  value, except for a blank value, whose message says so.
\<close>

theorem bad_rule_is_named:
  assumes "build_config raw = Err e"
    "\<not> (\<exists>ls hs. try_map build_listener (r_listens raw) = Ok ls \<and> try_map build_hop (r_forwards raw) = Ok hs)"
  shows "r_listens raw = [] \<and> e = NoListeners \<or>
    (\<exists>pre rule post. r_listens raw = pre @ rule # post \<and> build_listener rule = Err e \<and>
       (\<forall>x \<in> set pre. \<exists>l. build_listener x = Ok l) \<and> names_rule rule (config_error_text e)) \<or>
    (\<exists>pre rule post. r_forwards raw = pre @ rule # post \<and> build_hop rule = Err e \<and>
       (\<forall>x \<in> set (r_listens raw). \<exists>l. build_listener x = Ok l) \<and>
       (\<forall>x \<in> set pre. \<exists>h. build_hop x = Ok h) \<and> names_rule rule (config_error_text e))"
proof -
  from assms consider "r_listens raw = []" "e = NoListeners"
    | "try_map build_listener (r_listens raw) = Inl e"
    | ls where "try_map build_listener (r_listens raw) = Inr ls" "try_map build_hop (r_forwards raw) = Inl e"
    by (cases "try_map build_listener (r_listens raw)"; cases "try_map build_hop (r_forwards raw)")
       (auto simp: build_config_def result_iffs split: if_splits)
  then show ?thesis
  proof cases
    case 2
    then obtain pre rule post ys where "r_listens raw = pre @ rule # post"
      "try_map build_listener pre = Inr ys" "build_listener rule = Inl e"
      unfolding try_map_Inl_iff by blast
    with try_map_all_ok build_listener_names show ?thesis by blast
  next
    case 3
    then obtain pre rule post ys where "r_forwards raw = pre @ rule # post"
      "try_map build_hop pre = Inr ys" "build_hop rule = Inl e"
      unfolding try_map_Inl_iff by blast
    with try_map_all_ok [OF 3(1)] try_map_all_ok [of build_hop pre ys] build_hop_names show ?thesis by blast
  qed simp
qed

theorem bad_rule_is_named_witness:
  "build_config (sample_raw\<lparr>r_listens := [''tcp://:80/h:1'', ''tcp://:81'']\<rparr>) = Err (MissingDestination ''tcp://:81'' Tcp 81) \<and>
   names_rule ''tcp://:81'' (config_error_text (MissingDestination ''tcp://:81'' Tcp 81))"
proof -
  let ?raw = "sample_raw\<lparr>r_listens := [''tcp://:80/h:1'', ''tcp://:81'']\<rparr>"
  have e: "build_config ?raw = Err (MissingDestination ''tcp://:81'' Tcp 81)" by code_simp
  have l: "try_map build_listener (r_listens ?raw) = Inl (MissingDestination ''tcp://:81'' Tcp 81)" by code_simp
  have r: "r_listens ?raw = [''tcp://:80/h:1'', ''tcp://:81'']" by simp
  have ok: "\<not> isl (build_listener ''tcp://:80/h:1'')" and f: "\<not> isl (build_hop ''socks5://u:p@h1:1080'')" by code_simp+
  from bad_rule_is_named [OF e] l r ok f have "names_rule ''tcp://:81'' (config_error_text (MissingDestination ''tcp://:81'' Tcp 81))"
    by (auto simp: sample_raw_def Cons_eq_append_conv append_eq_Cons_conv)
  with e show ?thesis by blast
qed

end
