(* ===== verification/Socks5.thy ===== *)
theory Socks5
  imports Rust_Io
begin

text \<open>
  \<open>src/socks5.rs\<close>: the SOCKS5 client handshake (RFC 1928) with username/password authentication
  (RFC 1929), over any byte stream. The lemmas compare it with the server's side: the requests a
  server can parse back, exactly which replies make the handshake succeed, what was written by then
  and that credentials go to no server that did not ask for them.
\<close>

section \<open>Model\<close>

definition VER :: u8 where "VER = 5"
definition METHOD_NO_AUTH :: u8 where "METHOD_NO_AUTH = 0"
definition METHOD_USER_PASS :: u8 where "METHOD_USER_PASS = 2"
definition METHOD_NONE :: u8 where "METHOD_NONE = 255"
definition CMD_CONNECT :: u8 where "CMD_CONNECT = 1"
definition ATYP_IPV4 :: u8 where "ATYP_IPV4 = 1"
definition ATYP_DOMAIN :: u8 where "ATYP_DOMAIN = 3"
definition ATYP_IPV6 :: u8 where "ATYP_IPV6 = 4"
definition AUTH_VER :: u8 where "AUTH_VER = 1"

lemmas socks_consts = VER_def METHOD_NO_AUTH_def METHOD_USER_PASS_def METHOD_NONE_def CMD_CONNECT_def
  ATYP_IPV4_def ATYP_DOMAIN_def ATYP_IPV6_def AUTH_VER_def

definition show_u8 :: "u8 \<Rightarrow> string" where
  "show_u8 b = show_nat (unat b)"

definition proto_err :: "string \<Rightarrow> io_error" where
  "proto_err msg = io_new KInvalidData msg"

definition reply_reason :: "u8 \<Rightarrow> string" where
  "reply_reason rep =
     (if rep = 1 then ''general SOCKS server failure''
      else if rep = 2 then ''connection not allowed by ruleset''
      else if rep = 3 then ''network unreachable''
      else if rep = 4 then ''host unreachable''
      else if rep = 5 then ''connection refused''
      else if rep = 6 then ''TTL expired''
      else if rep = 7 then ''command not supported''
      else if rep = 8 then ''address type not supported''
      else ''unknown SOCKS5 error'')"

definition reply_err :: "u8 \<Rightarrow> io_error" where
  "reply_err rep = io_other (''SOCKS5 CONNECT failed: '' @ reply_reason rep @ '' ('' @ show_u8 rep @ '')'')"

text \<open>\<open>n as u8\<close> for the length bytes.\<close>

definition len_byte :: "'a list \<Rightarrow> u8" where
  "len_byte xs = word_of_nat (length xs)"

definition encode_addr :: "string \<Rightarrow> (io_error, bytes) result" where
  "encode_addr host =
     (case parse_ipv4 host of
        Some v4 \<Rightarrow> Ok (ATYP_IPV4 # v4_octets v4)
      | None \<Rightarrow>
          (case parse_ipv6 host of
             Some v6 \<Rightarrow> Ok (ATYP_IPV6 # v6_octets v6)
           | None \<Rightarrow>
               (let b = as_bytes host in
                if length b > 255 then Err (proto_err ''destination hostname exceeds 255 bytes'')
                else Ok (ATYP_DOMAIN # len_byte b # b))))"

definition offered_methods :: "string option \<Rightarrow> bytes" where
  "offered_methods user =
     (if user \<noteq> None then [METHOD_NO_AUTH, METHOD_USER_PASS] else [METHOD_NO_AUTH])"

definition greeting :: "string option \<Rightarrow> bytes" where
  "greeting user = VER # len_byte (offered_methods user) # offered_methods user"

definition auth_request :: "string \<Rightarrow> string \<Rightarrow> bytes" where
  "auth_request user pass =
     AUTH_VER # len_byte user # as_bytes user @ len_byte pass # as_bytes pass"

definition user_pass_auth :: "'s byte_io \<Rightarrow> string \<Rightarrow> string \<Rightarrow> ('s, unit) eff" where
  "user_pass_auth io user pass =
     (if length user > 255 \<or> length pass > 255
      then efail (proto_err ''username or password exceeds 255 bytes'')
      else
        ebind (write_all io (auth_request user pass)) (\<lambda>_.
        ebind (read_exact io 2) (\<lambda>resp.
        if resp ! 1 \<noteq> 0
        then efail (io_new KPermissionDenied
               (''SOCKS5 username/password auth failed (status '' @ show_u8 (resp ! 1) @ '')''))
        else eret ())))"

definition negotiate_method :: "'s byte_io \<Rightarrow> string option \<Rightarrow> string option \<Rightarrow> ('s, unit) eff" where
  "negotiate_method io user pass =
     ebind (write_all io (greeting user)) (\<lambda>_.
     ebind (read_exact io 2) (\<lambda>resp.
     if resp ! 0 \<noteq> VER
     then efail (proto_err (''bad SOCKS version in method reply: '' @ show_u8 (resp ! 0)))
     else if resp ! 1 = METHOD_NO_AUTH then eret ()
     else if resp ! 1 = METHOD_USER_PASS then
       (case user of
          None \<Rightarrow> efail (proto_err ''server requires username/password auth but none was configured'')
        | Some u \<Rightarrow> user_pass_auth io u (case pass of None \<Rightarrow> [] | Some p \<Rightarrow> p))
     else if resp ! 1 = METHOD_NONE then efail (proto_err ''server rejected all offered auth methods'')
     else efail (proto_err (''server selected unsupported method '' @ show_u8 (resp ! 1)))))"

definition connect_request :: "bytes \<Rightarrow> u16 \<Rightarrow> bytes" where
  "connect_request addr port = [VER, CMD_CONNECT, 0] @ addr @ to_be_bytes port"

definition reply_addr_len :: "'s byte_io \<Rightarrow> u8 \<Rightarrow> ('s, nat) eff" where
  "reply_addr_len io atyp =
     (if atyp = ATYP_IPV4 then eret 4
      else if atyp = ATYP_IPV6 then eret 16
      else if atyp = ATYP_DOMAIN then ebind (read_exact io 1) (\<lambda>l. eret (unat (l ! 0)))
      else efail (proto_err (''unknown ATYP in reply: '' @ show_u8 atyp)))"

definition send_connect :: "'s byte_io \<Rightarrow> string \<Rightarrow> u16 \<Rightarrow> ('s, unit) eff" where
  "send_connect io host port =
     ebind (elift (encode_addr host)) (\<lambda>addr.
     ebind (write_all io (connect_request addr port)) (\<lambda>_.
     ebind (read_exact io 4) (\<lambda>head.
     if head ! 0 \<noteq> VER
     then efail (proto_err (''bad SOCKS version in reply: '' @ show_u8 (head ! 0)))
     else if head ! 1 \<noteq> 0 then efail (reply_err (head ! 1))
     else
       ebind (reply_addr_len io (head ! 3)) (\<lambda>addr_len.
       ebind (read_exact io (addr_len + 2)) (\<lambda>_.
       eret ())))))"

definition connect :: "'s byte_io \<Rightarrow> string \<Rightarrow> u16 \<Rightarrow> string option \<Rightarrow> string option \<Rightarrow> ('s, unit) eff" where
  "connect io host port user pass =
     ebind (negotiate_method io user pass) (\<lambda>_.
     ebind (send_connect io host port) (\<lambda>_.
     eret ()))"

section \<open>The stream contract\<close>

context byte_stream
begin

lemma user_pass_auth_ext: "stream_grows inbox outbox s (snd (user_pass_auth io u p s))"
  by (simp add: user_pass_auth_def pure_ext bind_ext write_ext exact_ext)

lemma negotiate_method_ext: "stream_grows inbox outbox s (snd (negotiate_method io u p s))"
  unfolding negotiate_method_def
  by (intro bind_ext write_ext exact_ext)
     (simp add: pure_ext user_pass_auth_ext split: option.split)

lemma reply_addr_len_ext: "stream_grows inbox outbox s (snd (reply_addr_len io a s))"
  by (simp add: reply_addr_len_def pure_ext bind_ext exact_ext)

lemma send_connect_ext: "stream_grows inbox outbox s (snd (send_connect io h p s))"
  unfolding send_connect_def
  by (intro bind_ext write_ext exact_ext pure_ext)
     (simp add: pure_ext bind_ext reply_addr_len_ext exact_ext)

lemma connect_ext: "stream_grows inbox outbox s (snd (connect io host port user pass s))"
  by (simp add: connect_def bind_ext negotiate_method_ext send_connect_ext)

end

section \<open>Which replies are accepted\<close>

text \<open>The replies of RFC 1928 and RFC 1929 that let the handshake go on, as whole messages.\<close>

definition negotiation_ok :: "string option \<Rightarrow> bytes \<Rightarrow> bool" where
  "negotiation_ok user r \<longleftrightarrow>
     r = [VER, METHOD_NO_AUTH] \<or>
     (user \<noteq> None \<and> length r = 4 \<and> take 2 r = [VER, METHOD_USER_PASS] \<and> r ! 3 = 0)"

definition reply_ok :: "bytes \<Rightarrow> bool" where
  "reply_ok r \<longleftrightarrow>
     4 \<le> length r \<and> r ! 0 = VER \<and> r ! 1 = 0 \<and>
     (r ! 3 = ATYP_IPV4 \<and> length r = 10 \<or> r ! 3 = ATYP_IPV6 \<and> length r = 22 \<or>
      r ! 3 = ATYP_DOMAIN \<and> 5 \<le> length r \<and> length r = 7 + unat (r ! 4))"

definition pass_text :: "string option \<Rightarrow> string" where
  "pass_text pass = (case pass of None \<Rightarrow> [] | Some p \<Rightarrow> p)"

text \<open>What the client says before it asks for the connection, given the server's answer.\<close>

definition client_opening :: "string option \<Rightarrow> string option \<Rightarrow> bytes \<Rightarrow> bytes" where
  "client_opening user pass neg =
     greeting user @
     (if neg = [VER, METHOD_NO_AUTH] then [] else auth_request (pass_text user) (pass_text pass))"

definition credentials_fit :: "string option \<Rightarrow> string option \<Rightarrow> bool" where
  "credentials_fit user pass \<longleftrightarrow> length (pass_text user) \<le> 255 \<and> length (pass_text pass) \<le> 255"

context byte_stream
begin

lemma user_pass_auth_Ok:
  assumes "user_pass_auth io u p s = (Inr x, t)"
  shows "length u \<le> 255" "length p \<le> 255" "\<exists>v. inbox s = [v, 0] @ inbox t"
    "outbox t = outbox s @ auth_request u p"
proof -
  from assms have fit: "\<not> (length u > 255 \<or> length p > 255)"
    by (auto simp: user_pass_auth_def)
  with assms obtain a b resp where w: "write_all io (auth_request u p) s = (Inr (), a)"
    and r: "read_exact io 2 a = (Inr resp, b)" and z: "resp ! 1 = 0" and t: "t = b"
    by (auto simp: user_pass_auth_def ebind_Ok_iff split: if_splits)
  from exact_Ok [OF r] z have "resp = [resp ! 0, 0]"
    by (auto simp: numeral_2_eq_2 length_Suc_conv)
  with exact_Ok [OF r] write_Ok [OF w] t show "\<exists>v. inbox s = [v, 0] @ inbox t"
    by (metis append_Cons append_Nil)
  show "length u \<le> 255" "length p \<le> 255" using fit by auto
  show "outbox t = outbox s @ auth_request u p" using exact_Ok [OF r] write_Ok [OF w] t by simp
qed

lemma negotiate_method_Ok:
  assumes "negotiate_method io user pass s = (Inr x, t)"
  obtains neg where "negotiation_ok user neg" "inbox s = neg @ inbox t"
    "outbox t = outbox s @ client_opening user pass neg"
    "neg \<noteq> [VER, METHOD_NO_AUTH] \<Longrightarrow> credentials_fit user pass"
proof -
  from assms obtain a b resp where w: "write_all io (greeting user) s = (Inr (), a)"
    and r: "read_exact io 2 a = (Inr resp, b)" and v: "resp ! 0 = VER"
    and m: "resp ! 1 = METHOD_NO_AUTH \<and> t = b \<or>
      resp ! 1 = METHOD_USER_PASS \<and> (\<exists>u. user = Some u \<and> user_pass_auth io u (pass_text pass) b = (Inr x, t))"
    by (auto simp: negotiate_method_def ebind_Ok_iff pass_text_def [symmetric] split: if_splits option.splits)
  from exact_Ok [OF r] v have resp: "resp = [VER, resp ! 1]"
    by (auto simp: numeral_2_eq_2 length_Suc_conv)
  note io = exact_Ok [OF r] write_Ok [OF w]
  from m show thesis
  proof (elim disjE conjE exE)
    assume "resp ! 1 = METHOD_NO_AUTH" "t = b"
    with resp io show thesis
      by (intro that [of resp]) (auto simp: negotiation_ok_def client_opening_def)
  next
    fix u
    assume m: "resp ! 1 = METHOD_USER_PASS" and u: "user = Some u"
      and auth: "user_pass_auth io u (pass_text pass) b = (Inr x, t)"
    from user_pass_auth_Ok(3) [OF auth] obtain z where z: "inbox b = [z, 0] @ inbox t" by blast
    show thesis
    proof (rule that [of "[VER, METHOD_USER_PASS, z, 0]"])
      show "negotiation_ok user [VER, METHOD_USER_PASS, z, 0]" using u by (simp add: negotiation_ok_def)
      show "inbox s = [VER, METHOD_USER_PASS, z, 0] @ inbox t" using io z resp m by simp
      show "outbox t = outbox s @ client_opening user pass [VER, METHOD_USER_PASS, z, 0]"
        using io user_pass_auth_Ok(4) [OF auth] u by (simp add: client_opening_def pass_text_def)
      show "credentials_fit user pass"
        using user_pass_auth_Ok(1,2) [OF auth] u by (simp add: credentials_fit_def pass_text_def)
    qed
  qed
qed

lemma reply_tail_Ok:
  assumes h: "length head = 4" "head ! 0 = VER" "head ! 1 = 0"
    and l: "reply_addr_len io (head ! 3) s = (Inr n, a)" and r: "read_exact io (n + 2) a = (Inr xs, t)"
  obtains rep where "reply_ok (head @ rep)" "inbox s = rep @ inbox t" "outbox t = outbox s"
proof -
  note io = exact_Ok [OF r]
  have l4: "head ! 3 = ATYP_IPV4 \<and> n = 4 \<and> a = s \<or> head ! 3 = ATYP_IPV6 \<and> n = 16 \<and> a = s \<or>
     head ! 3 = ATYP_DOMAIN \<and> (\<exists>l. read_exact io 1 s = (Inr l, a) \<and> n = unat (l ! 0))"
    using l by (auto simp: reply_addr_len_def ebind_Ok_iff split: if_splits)
  then show thesis
  proof (elim disjE conjE exE)
    assume "head ! 3 = ATYP_IPV4" "n = 4" "a = s"
    with h io show thesis by (intro that [of xs]) (auto simp: reply_ok_def nth_append)
  next
    assume "head ! 3 = ATYP_IPV6" "n = 16" "a = s"
    with h io show thesis by (intro that [of xs]) (auto simp: reply_ok_def nth_append)
  next
    fix l assume d: "head ! 3 = ATYP_DOMAIN" and l: "read_exact io 1 s = (Inr l, a)" and n: "n = unat (l ! 0)"
    note lo = exact_Ok [OF l]
    show thesis
      by (rule that [of "l @ xs"]) (use h io lo n d in \<open>auto simp: reply_ok_def nth_append\<close>)
  qed
qed

lemma send_connect_Ok:
  assumes "send_connect io host port s = (Inr x, t)"
  obtains addr rep where "encode_addr host = Inr addr" "reply_ok rep" "inbox s = rep @ inbox t"
    "outbox t = outbox s @ connect_request addr port"
proof -
  from assms obtain addr a b c head n xs where e: "encode_addr host = Inr addr"
    and w: "write_all io (connect_request addr port) s = (Inr (), a)"
    and r: "read_exact io 4 a = (Inr head, b)" and h: "head ! 0 = VER" "head ! 1 = 0"
    and l: "reply_addr_len io (head ! 3) b = (Inr n, c)" and q: "read_exact io (n + 2) c = (Inr xs, t)"
    by (auto simp: send_connect_def ebind_Ok_iff split: if_splits)
  obtain rep where "reply_ok (head @ rep)" "inbox b = rep @ inbox t" "outbox t = outbox b"
    using reply_tail_Ok [OF _ h l q] exact_Ok [OF r] by auto
  with e exact_Ok [OF r] write_Ok [OF w] show thesis by (intro that [of addr "head @ rep"]) auto
qed

lemma connect_Ok:
  assumes "connect io host port user pass s = (Inr x, t)"
  obtains neg rep addr where "negotiation_ok user neg" "reply_ok rep" "encode_addr host = Inr addr"
    "neg \<noteq> [VER, METHOD_NO_AUTH] \<Longrightarrow> credentials_fit user pass"
    "inbox s = neg @ rep @ inbox t"
    "outbox t = outbox s @ client_opening user pass neg @ connect_request addr port"
proof -
  from assms obtain a where n: "negotiate_method io user pass s = (Inr (), a)"
    and c: "send_connect io host port a = (Inr (), t)"
    by (auto simp: connect_def ebind_Ok_iff)
  show thesis
    by (rule negotiate_method_Ok [OF n], rule send_connect_Ok [OF c]) (auto intro: that)
qed

end

context healthy_stream
begin

lemma user_pass_auth_run:
  assumes h: "healthy s" and fit: "length u \<le> 255" "length p \<le> 255" and i: "inbox s = [v, 0] @ rest"
  shows "\<exists>t. user_pass_auth io u p s = (Inr (), t) \<and> healthy t \<and> inbox t = rest \<and>
     outbox t = outbox s @ auth_request u p"
proof -
  obtain a where a: "write_all io (auth_request u p) s = (Inr (), a)" "healthy a"
    "outbox a = outbox s @ auth_request u p" "inbox a = inbox s" using write_run [OF h] by blast
  obtain b where "read_exact io 2 a = (Inr [v, 0], b)" "healthy b" "outbox b = outbox a" "inbox b = rest"
    by (rule exact_run [OF a(2), of "[v, 0]" rest 2]) (use a(4) i in auto)
  with a fit show ?thesis by (simp add: user_pass_auth_def ebind_run)
qed

lemma negotiate_method_run:
  assumes h: "healthy s" and ok: "negotiation_ok user neg" and i: "inbox s = neg @ rest"
    and fit: "credentials_fit user pass"
  shows "\<exists>t. negotiate_method io user pass s = (Inr (), t) \<and> healthy t \<and> inbox t = rest \<and>
     outbox t = outbox s @ client_opening user pass neg"
proof -
  obtain a where a: "write_all io (greeting user) s = (Inr (), a)" "healthy a"
    "outbox a = outbox s @ greeting user" "inbox a = inbox s" using write_run [OF h] by blast
  have neg: "neg = take 2 neg @ drop 2 neg" "length (take 2 neg) = 2"
    using ok by (auto simp: negotiation_ok_def)
  obtain b where b: "read_exact io 2 a = (Inr (take 2 neg), b)" "healthy b" "outbox b = outbox a"
    "inbox b = drop 2 neg @ rest"
    by (rule exact_run [OF a(2), of "take 2 neg" "drop 2 neg @ rest" 2]) (use a(4) i neg in auto)
  from ok consider "neg = [VER, METHOD_NO_AUTH]"
    | u where "user = Some u" "length neg = 4" "take 2 neg = [VER, METHOD_USER_PASS]" "neg ! 3 = 0"
    by (auto simp: negotiation_ok_def)
  then show ?thesis
  proof cases
    case 1
    with a b show ?thesis by (simp add: negotiate_method_def client_opening_def ebind_run)
  next
    case 2
    have "drop 2 neg = [neg ! 2, neg ! 3]"
      using 2(2) by (auto simp: numeral_eq_Suc length_Suc_conv)
    then have "inbox b = [neg ! 2, 0] @ rest" using b 2 by simp
    then obtain t where "user_pass_auth io u (pass_text pass) b = (Inr (), t)" "healthy t" "inbox t = rest"
      "outbox t = outbox b @ auth_request u (pass_text pass)"
      using user_pass_auth_run [OF b(2)] fit 2(1) by (metis credentials_fit_def pass_text_def option.simps(5))
    moreover have "neg \<noteq> [VER, METHOD_NO_AUTH]" using 2 by auto
    ultimately show ?thesis using a b 2
      by (simp add: negotiate_method_def client_opening_def pass_text_def socks_consts ebind_run)
  qed
qed

lemma reply_tail_run:
  assumes h: "healthy s" and ok: "reply_ok rep" and i: "inbox s = drop 4 rep @ rest"
  shows "\<exists>n a xs t. reply_addr_len io (rep ! 3) s = (Inr n, a) \<and> read_exact io (n + 2) a = (Inr xs, t) \<and>
     healthy t \<and> inbox t = rest \<and> outbox t = outbox s"
proof -
  from ok consider n where "rep ! 3 = ATYP_IPV4 \<and> n = 4 \<or> rep ! 3 = ATYP_IPV6 \<and> n = 16" "length (drop 4 rep) = n + 2"
    | "rep ! 3 = ATYP_DOMAIN" "5 \<le> length rep" "length rep = 7 + unat (rep ! 4)"
    by (auto simp: reply_ok_def)
  then show ?thesis
  proof cases
    case 1
    then have "reply_addr_len io (rep ! 3) s = (Inr n, s)" by (auto simp: reply_addr_len_def eret_def socks_consts)
    moreover obtain t where "read_exact io (n + 2) s = (Inr (drop 4 rep), t)" "healthy t"
      "outbox t = outbox s" "inbox t = rest"
      by (rule exact_run [OF h i 1(2)])
    ultimately show ?thesis by blast
  next
    case 2
    have d: "drop 4 rep = [rep ! 4] @ drop 5 rep" using 2(2) Cons_nth_drop_Suc [of 4 rep] by simp
    obtain a where a: "read_exact io 1 s = (Inr [rep ! 4], a)" "healthy a"
      "outbox a = outbox s" "inbox a = drop 5 rep @ rest"
      by (rule exact_run [OF h, of "[rep ! 4]" "drop 5 rep @ rest" 1]) (use i d in auto)
    have "reply_addr_len io (rep ! 3) s = (Inr (unat (rep ! 4)), a)"
      using 2 a by (simp add: reply_addr_len_def ebind_run socks_consts)
    moreover obtain t where "read_exact io (unat (rep ! 4) + 2) a = (Inr (drop 5 rep), t)" "healthy t"
      "outbox t = outbox a" "inbox t = rest"
      by (rule exact_run [OF a(2) a(4)]) (use 2 in auto)
    ultimately show ?thesis using a(3) by metis
  qed
qed

lemma send_connect_run:
  assumes h: "healthy s" and e: "encode_addr host = Inr addr" and ok: "reply_ok rep" and i: "inbox s = rep @ rest"
  shows "\<exists>t. send_connect io host port s = (Inr (), t) \<and> healthy t \<and> inbox t = rest \<and>
     outbox t = outbox s @ connect_request addr port"
proof -
  obtain a where a: "write_all io (connect_request addr port) s = (Inr (), a)" "healthy a"
    "outbox a = outbox s @ connect_request addr port" "inbox a = inbox s" using write_run [OF h] by blast
  have r: "rep = take 4 rep @ drop 4 rep" "length (take 4 rep) = 4" "rep ! 0 = VER" "rep ! 1 = 0"
    using ok by (auto simp: reply_ok_def)
  obtain b where b: "read_exact io 4 a = (Inr (take 4 rep), b)" "healthy b" "outbox b = outbox a"
    "inbox b = drop 4 rep @ rest"
    by (rule exact_run [OF a(2), of "take 4 rep" "drop 4 rep @ rest" 4]) (use a(4) i r in auto)
  obtain n c xs t where "reply_addr_len io (rep ! 3) b = (Inr n, c)" "read_exact io (n + 2) c = (Inr xs, t)"
    "healthy t" "inbox t = rest" "outbox t = outbox b"
    using reply_tail_run [OF b(2) ok b(4)] by blast
  with a b r e show ?thesis
    by (simp add: send_connect_def ebind_run elift_def)
qed

lemma connect_run:
  assumes "healthy s" "encode_addr host = Inr addr" "negotiation_ok user neg" "reply_ok rep"
    "inbox s = neg @ rep @ rest" "credentials_fit user pass"
  shows "\<exists>t. connect io host port user pass s = (Inr (), t) \<and> healthy t \<and> inbox t = rest \<and>
     outbox t = outbox s @ client_opening user pass neg @ connect_request addr port"
proof -
  obtain a where a: "negotiate_method io user pass s = (Inr (), a)" "healthy a" "inbox a = rep @ rest"
    "outbox a = outbox s @ client_opening user pass neg"
    using negotiate_method_run [OF assms(1,3,5,6)] by blast
  obtain t where "send_connect io host port a = (Inr (), t)" "healthy t" "inbox t = rest"
    "outbox t = outbox a @ connect_request addr port"
    using send_connect_run [OF a(2) assms(2,4) a(3)] by blast
  with a show ?thesis by (simp add: connect_def ebind_run)
qed

lemma connect_refused_run:
  assumes h: "healthy s" and e: "encode_addr host = Inr addr" and r: "rep \<noteq> 0"
    and i: "inbox s = [VER, METHOD_NO_AUTH, VER, rep, x, y] @ rest" and fit: "credentials_fit user pass"
  shows "fst (connect io host port user pass s) = Inl (reply_err rep)"
proof -
  obtain a where a: "negotiate_method io user pass s = (Inr (), a)" "healthy a" "inbox a = [VER, rep, x, y] @ rest"
    using negotiate_method_run [OF h, of user "[VER, METHOD_NO_AUTH]"] i fit by (auto simp: negotiation_ok_def)
  obtain b where b: "write_all io (connect_request addr port) a = (Inr (), b)" "healthy b" "inbox b = inbox a"
    using write_run [OF a(2)] by blast
  obtain c where "read_exact io 4 b = (Inr [VER, rep, x, y], c)"
    by (rule exact_run [OF b(2), of "[VER, rep, x, y]" rest 4]) (use a b in auto)
  with a b e r show ?thesis
    by (simp add: connect_def send_connect_def ebind_run elift_def efail_def eret_def ebind_def)
qed

end

section \<open>Credentials\<close>

context byte_stream
begin

text \<open>Every failure of the negotiation with a server that does not ask for the password.\<close>

lemma exact_two:
  assumes "read_exact io 2 a = (Inr resp, b)"
  shows "take 2 (inbox a) = resp" "outbox b = outbox a"
  using exact_Ok [OF assms] by simp_all

lemma negotiate_method_quiet:
  assumes n: "negotiate_method io user pass s = (r, t)" and m: "take 2 (inbox s) \<noteq> [VER, METHOD_USER_PASS]"
  shows "\<exists>k. outbox t = outbox s @ take k (greeting user)"
    and "\<not> isl r \<Longrightarrow> outbox t = outbox s @ greeting user"
proof -
  obtain wr a where w: "write_all io (greeting user) s = (wr, a)" by fastforce
  have "(\<exists>k. outbox t = outbox s @ take k (greeting user)) \<and>
    (\<not> isl r \<longrightarrow> outbox t = outbox s @ greeting user)"
  proof (cases wr)
    case (Inl e)
    then show ?thesis using n w write_Err [of "greeting user" s e a]
      by (auto simp: negotiate_method_def ebind_def)
  next
    case (Inr x)
    note wa = write_Ok [OF w [unfolded Inr]]
    obtain rr b where rd: "read_exact io 2 a = (rr, b)" by fastforce
    have "outbox t = outbox s @ greeting user"
    proof (cases rr)
      case (Inl e)
      then show ?thesis using n w rd \<open>wr = Inr x\<close> wa exact_Err [of 2 a e b]
        by (auto simp: negotiate_method_def ebind_def)
    next
      case (Inr resp)
      note io2 = exact_two [OF rd [unfolded Inr]] exact_Ok [OF rd [unfolded Inr]]
      have "resp \<noteq> [VER, METHOD_USER_PASS]" using m io2 wa by auto
      moreover have "resp = [resp ! 0, resp ! 1]" using io2 by (auto simp: numeral_2_eq_2 length_Suc_conv)
      ultimately have "\<not> (resp ! 0 = VER \<and> resp ! 1 = METHOD_USER_PASS)" by metis
      then have "t = b" using n w rd \<open>wr = Inr x\<close> Inr
        by (auto simp: negotiate_method_def ebind_def efail_def eret_def split: if_splits)
      then show ?thesis using io2 wa by simp
    qed
    then show ?thesis by (metis append_Nil2 order_refl take_all)
  qed
  then show "\<exists>k. outbox t = outbox s @ take k (greeting user)"
    and "\<not> isl r \<Longrightarrow> outbox t = outbox s @ greeting user" by blast+
qed

lemma after_write_out:
  assumes f: "\<And>x s. outbox (snd (f x s)) = outbox s"
  shows "\<exists>k. outbox (snd (ebind (write_all io bs) f s)) = outbox s @ take k bs"
proof (cases "write_all io bs s")
  case (Pair r a)
  show ?thesis
  proof (cases r)
    case (Inl e)
    then show ?thesis using Pair write_Err [of bs s e a] by (auto simp: ebind_def)
  next
    case (Inr x)
    then have "outbox (snd (ebind (write_all io bs) f s)) = outbox s @ take (length bs) bs"
      using Pair write_Ok [of bs s x a] f by (simp add: ebind_def)
    then show ?thesis by blast
  qed
qed

lemma read_out:
  assumes f: "\<And>x s. outbox (snd (f x s)) = outbox s"
  shows "outbox (snd (ebind (read_exact io n) f s)) = outbox s"
proof (cases "read_exact io n s")
  case (Pair r a)
  then show ?thesis using f exact_Ok [of n s _ a] exact_Err [of n s _ a]
    by (cases r) (auto simp: ebind_def)
qed

lemma reply_out: "outbox (snd (ebind (reply_addr_len io c) (\<lambda>n. ebind (read_exact io (n + 2)) (\<lambda>_. eret ())) s)) = outbox s"
  by (auto simp: reply_addr_len_def ebind_assoc read_out eret_def efail_def simp del: eff_simps(3))

end

text \<open>The request for a destination, nothing when the destination cannot be encoded.\<close>

definition request_for :: "string \<Rightarrow> u16 \<Rightarrow> bytes" where
  "request_for host port =
     (case encode_addr host of Inl _ \<Rightarrow> [] | Inr addr \<Rightarrow> connect_request addr port)"

context byte_stream
begin

lemma send_connect_out: "\<exists>k. outbox (snd (send_connect io host port s)) = outbox s @ take k (request_for host port)"
proof (cases "encode_addr host")
  case (Inl e)
  then show ?thesis by (simp add: send_connect_def efail_def)
next
  case (Inr addr)
  have tail: "outbox (snd (ebind (read_exact io 4) (\<lambda>head.
     if head ! 0 \<noteq> VER
     then efail (proto_err (''bad SOCKS version in reply: '' @ show_u8 (head ! 0)))
     else if head ! 1 \<noteq> 0 then efail (reply_err (head ! 1))
     else ebind (reply_addr_len io (head ! 3)) (\<lambda>n. ebind (read_exact io (n + 2)) (\<lambda>_. eret ()))) s)) = outbox s" for s
    by (rule read_out) (simp add: reply_out efail_def del: add_2_eq_Suc')
  show ?thesis
    using after_write_out [OF tail, of "connect_request addr port" s] Inr
    by (simp add: send_connect_def request_for_def del: add_2_eq_Suc')
qed

lemma connect_quiet:
  assumes c: "connect io host port user pass s = (r, t)" and m: "take 2 (inbox s) \<noteq> [VER, METHOD_USER_PASS]"
  shows "\<exists>k. outbox t = outbox s @ take k (greeting user @ request_for host port)"
proof -
  obtain nr a where n: "negotiate_method io user pass s = (nr, a)" by fastforce
  show ?thesis
  proof (cases nr)
    case (Inl e)
    then have "t = a" using c n by (simp add: connect_def ebind_def)
    moreover obtain k where "outbox a = outbox s @ take k (greeting user)"
      using negotiate_method_quiet(1) [OF n m] by blast
    ultimately show ?thesis
      by (intro exI [of _ "min k (length (greeting user))"]) (simp add: min_def)
  next
    case (Inr x)
    then have "t = snd (send_connect io host port a)"
      using c n by (simp add: connect_def ebind_def split: prod.splits sum.splits)
    moreover obtain k where "outbox (snd (send_connect io host port a)) = outbox a @ take k (request_for host port)"
      using send_connect_out by blast
    ultimately show ?thesis using negotiate_method_quiet(2) [OF n m] Inr
      by (intro exI [of _ "length (greeting user) + k"]) simp
  qed
qed

end

section \<open>The server's reading of the messages\<close>

datatype socks_dest = DestV4 ipv4_addr | DestV6 ipv6_addr | DestDomain string

text \<open>The destination a host text stands for.\<close>

definition dest_of :: "string \<Rightarrow> socks_dest" where
  "dest_of host =
     (case parse_ipv4 host of
        Some a \<Rightarrow> DestV4 a
      | None \<Rightarrow> (case parse_ipv6 host of Some a \<Rightarrow> DestV6 a | None \<Rightarrow> DestDomain host))"

fun pair_words :: "bytes \<Rightarrow> u16 list" where
  "pair_words (h # l # bs) = from_be_bytes h l # pair_words bs"
| "pair_words _ = []"

definition read_port :: "bytes \<Rightarrow> u16 option" where
  "read_port bs = (case bs of [h, l] \<Rightarrow> Some (from_be_bytes h l) | _ \<Rightarrow> None)"

definition read_dest :: "u8 \<Rightarrow> bytes \<Rightarrow> (socks_dest \<times> bytes) option" where
  "read_dest atyp bs =
     (if atyp = ATYP_IPV4 then
        (case bs of a # b # c # d # rest \<Rightarrow> Some (DestV4 (Ipv4Addr a b c d), rest) | _ \<Rightarrow> None)
      else if atyp = ATYP_IPV6 then
        if length bs < 16 then None
        else Some (DestV6 (of_segments (pair_words (take 16 bs))), drop 16 bs)
      else if atyp = ATYP_DOMAIN then
        (case bs of
           [] \<Rightarrow> None
         | n # rest \<Rightarrow>
             if length rest < unat n then None
             else Some (DestDomain (of_bytes (take (unat n) rest)), drop (unat n) rest))
      else None)"

definition read_request :: "bytes \<Rightarrow> (socks_dest \<times> u16) option" where
  "read_request bs =
     (case bs of
        ver # cmd # rsv # atyp # rest \<Rightarrow>
          if ver = VER \<and> cmd = CMD_CONNECT \<and> rsv = 0
          then Option.bind (read_dest atyp rest) (\<lambda>(dest, rest'). map_option (Pair dest) (read_port rest'))
          else None
      | _ \<Rightarrow> None)"

definition read_auth :: "bytes \<Rightarrow> (string \<times> string) option" where
  "read_auth bs =
     (case bs of
        ver # n # rest \<Rightarrow>
          if ver = AUTH_VER then
            (case drop (unat n) rest of
               m # rest' \<Rightarrow>
                 if length rest' = unat m then Some (of_bytes (take (unat n) rest), of_bytes rest') else None
             | [] \<Rightarrow> None)
          else None
      | _ \<Rightarrow> None)"

lemma len_byte_unat: "length xs \<le> 255 \<Longrightarrow> unat (len_byte xs) = length xs"
  by (simp add: len_byte_def unsigned_of_nat take_bit_nat_eq_self)

lemma pair_words_octets: "pair_words (v6_octets a) = segments a"
  by (cases a) (simp add: v6_octets_def to_be_bytes_def from_to_be_bytes)

lemma read_port_be [simp]: "read_port (to_be_bytes p) = Some p"
  by (simp add: read_port_def to_be_bytes_def from_to_be_bytes)

lemma read_request_encoded:
  assumes "encode_addr host = Inr addr"
  shows "read_request (connect_request addr port) = Some (dest_of host, port)"
proof -
  consider v4 where "parse_ipv4 host = Some v4" "addr = ATYP_IPV4 # v4_octets v4"
    | v6 where "parse_ipv4 host = None" "parse_ipv6 host = Some v6" "addr = ATYP_IPV6 # v6_octets v6"
    | "parse_ipv4 host = None" "parse_ipv6 host = None" "length host \<le> 255"
      "addr = ATYP_DOMAIN # len_byte (as_bytes host) # as_bytes host"
    using assms by (auto simp: encode_addr_def Let_def split: option.splits if_splits)
  then show ?thesis
  proof cases
    case 1
    then show ?thesis
      by (cases v4) (simp add: read_request_def connect_request_def read_dest_def dest_of_def)
  next
    case 2
    then show ?thesis
      by (simp add: read_request_def connect_request_def read_dest_def dest_of_def socks_consts
          pair_words_octets)
  next
    case 3
    then show ?thesis
      by (simp add: read_request_def connect_request_def read_dest_def dest_of_def socks_consts
          len_byte_unat)
  qed
qed

lemma read_auth_request:
  "\<lbrakk>length u \<le> 255; length p \<le> 255\<rbrakk> \<Longrightarrow> read_auth (auth_request u p) = Some (u, p)"
  by (simp add: read_auth_def auth_request_def len_byte_unat)

interpretation auth_text: codec "\<lambda>(u, p). auth_request u p" read_auth
  "\<lambda>(u, p). length u \<le> 255 \<and> length p \<le> 255"
  by unfold_locales (auto simp: read_auth_request)

section \<open>Properties\<close>

text \<open>
  C3: When the handshake succeeds, the server has sent an accepting negotiation reply and a
  complete success reply to the request, and exactly those bytes were consumed, so the next byte
  read is the first application byte. The client has written the greeting, its credentials exactly
  when the server chose username/password, and the request, and nothing else.
\<close>

theorem connect_sound:
  assumes "byte_stream io inbox outbox" "connect io host port user pass s = (Ok (), t)"
  shows "\<exists>neg rep addr.
     negotiation_ok user neg \<and> reply_ok rep \<and> encode_addr host = Ok addr \<and>
     (neg = [VER, METHOD_NO_AUTH] \<or> credentials_fit user pass) \<and>
     inbox s = neg @ rep @ inbox t \<and>
     outbox t = outbox s @ client_opening user pass neg @ connect_request addr port"
  by (rule byte_stream.connect_Ok [OF assms]) blast

definition sample_proxy :: "bytes \<Rightarrow> stream" where
  "sample_proxy replies =
     \<lparr>rx = replies, rx_end = None, tx = [], tx_room = None, tx_err = eof_error\<rparr>"

definition sample_replies :: bytes where
  "sample_replies = [5, 2, 1, 0, 5, 0, 0, 1, 0, 0, 0, 0, 0, 0, 77]"

theorem connect_sound_witness:
  "connect stream_io ''1.2.3.4'' 80 (Some ''u'') (Some ''p'') (sample_proxy sample_replies) =
     (Ok (), (sample_proxy [77])\<lparr>tx := [5, 2, 0, 2, 1, 1, 117, 1, 112, 5, 1, 0, 1, 1, 2, 3, 4, 0, 80]\<rparr>) \<and>
   (\<exists>neg rep addr.
     negotiation_ok (Some ''u'') neg \<and> reply_ok rep \<and> encode_addr ''1.2.3.4'' = Ok addr \<and>
     (neg = [VER, METHOD_NO_AUTH] \<or> credentials_fit (Some ''u'') (Some ''p'')) \<and>
     sample_replies = neg @ rep @ [77] \<and>
     [5, 2, 0, 2, 1, 1, 117, 1, 112, 5, 1, 0, 1, 1, 2, 3, 4, 0, 80] =
       client_opening (Some ''u'') (Some ''p'') neg @ connect_request addr 80)"
proof -
  have run: "connect stream_io ''1.2.3.4'' 80 (Some ''u'') (Some ''p'') (sample_proxy sample_replies) =
     (Ok (), (sample_proxy [77])\<lparr>tx := [5, 2, 0, 2, 1, 1, 117, 1, 112, 5, 1, 0, 1, 1, 2, 3, 4, 0, 80]\<rparr>)"
    by code_simp
  show ?thesis
    using run connect_sound [OF peer.byte_stream_axioms run] by (simp add: sample_proxy_def)
qed

text \<open>
  C4: On a working connection the handshake succeeds whenever the destination can be encoded, the
  credentials fit their length bytes and the server answers as RFC 1928 and RFC 1929 say, whichever
  address type the server reports and however long the reported domain is; what follows the replies
  is left unread.
\<close>

theorem connect_complete:
  assumes "healthy_stream io inbox outbox healthy" "healthy s"
    "encode_addr host = Ok addr" "credentials_fit user pass"
    "negotiation_ok user neg" "reply_ok rep" "inbox s = neg @ rep @ rest"
  shows "\<exists>t. connect io host port user pass s = (Ok (), t) \<and> healthy t \<and> inbox t = rest \<and>
     outbox t = outbox s @ client_opening user pass neg @ connect_request addr port"
  by (rule healthy_stream.connect_run [OF assms(1,2,3,5,6,7,4)])

theorem connect_complete_witness:
  "\<exists>t. connect stream_io ''db.example'' 5432 None None
        (sample_proxy ([5, 0] @ [5, 0, 0, 3, 2, 97, 98, 31, 144] @ [1, 2])) = (Ok (), t) \<and>
     open_peer t \<and> rx t = [1, 2] \<and>
     tx t = tx (sample_proxy ([5, 0] @ [5, 0, 0, 3, 2, 97, 98, 31, 144] @ [1, 2])) @
       client_opening None None [5, 0] @
       connect_request (3 # 10 # as_bytes ''db.example'') 5432"
proof (rule connect_complete)
  show "healthy_stream stream_io rx tx open_peer" by (rule peer.healthy_stream_axioms)
  show "open_peer (sample_proxy ([5, 0] @ [5, 0, 0, 3, 2, 97, 98, 31, 144] @ [1, 2]))"
    by (simp add: open_peer_def sample_proxy_def)
  show "encode_addr ''db.example'' = Ok (3 # 10 # as_bytes ''db.example'')" by code_simp
  show "credentials_fit None None" by code_simp
  show "negotiation_ok None [5, 0]" by code_simp
  show "reply_ok [5, 0, 0, 3, 2, 97, 98, 31, 144]" by code_simp
  show "rx (sample_proxy ([5, 0] @ [5, 0, 0, 3, 2, 97, 98, 31, 144] @ [1, 2])) =
     [5, 0] @ [5, 0, 0, 3, 2, 97, 98, 31, 144] @ [1, 2]" by (simp add: sample_proxy_def)
qed

text \<open>
  C31: Credentials are written to no server that did not choose username/password authentication:
  whatever else the server does and however the handshake ends, what was written is a prefix of the
  greeting followed by the request.
\<close>

theorem credentials_only_when_asked:
  assumes "byte_stream io inbox outbox" "connect io host port user pass s = (r, t)"
    "take 2 (inbox s) \<noteq> [VER, METHOD_USER_PASS]"
  shows "\<exists>k. outbox t = outbox s @ take k (greeting user @ request_for host port)"
  by (rule byte_stream.connect_quiet [OF assms])

theorem credentials_only_when_asked_witness:
  "\<exists>k. tx (snd (connect stream_io ''1.2.3.4'' 80 (Some ''u'') (Some ''p'') (sample_proxy [5, 255]))) =
     take k (greeting (Some ''u'') @ request_for ''1.2.3.4'' 80)"
proof -
  have "take 2 (rx (sample_proxy [5, 255])) \<noteq> [VER, METHOD_USER_PASS]" by code_simp
  from credentials_only_when_asked [OF peer.byte_stream_axioms prod.collapse [symmetric] this,
    of "''1.2.3.4''" 80 "Some ''u''" "Some ''p''"]
  show ?thesis by (simp add: sample_proxy_def)
qed

text \<open>
  C35: A server reads back from the request exactly the destination that was meant: the address
  itself for an IPv4 or IPv6 literal, the name for everything else, and the port; the length byte
  of a name does not wrap.
\<close>

theorem connect_request_roundtrip:
  assumes "encode_addr host = Ok addr"
  shows "read_request (connect_request addr port) = Some (dest_of host, port)"
  using assms by (rule read_request_encoded)

theorem connect_request_roundtrip_witness:
  "read_request (connect_request (3 # 10 # as_bytes ''db.example'') 5432) =
     Some (DestDomain ''db.example'', 5432)"
proof -
  have "encode_addr ''db.example'' = Ok (3 # 10 # as_bytes ''db.example'')" by code_simp
  moreover have "dest_of ''db.example'' = DestDomain ''db.example''" by code_simp
  ultimately show ?thesis using connect_request_roundtrip by metis
qed

text \<open>
  When the proxy refuses the connection, the caller gets the error for the reply code it sent,
  whatever address type the refusal carries.
\<close>

theorem connect_refused:
  assumes "healthy_stream io inbox outbox healthy" "healthy s"
    "encode_addr host = Ok addr" "credentials_fit user pass" "rep \<noteq> 0"
    "inbox s = [VER, METHOD_NO_AUTH, VER, rep, x, y] @ rest"
  shows "fst (connect io host port user pass s) = Err (reply_err rep)"
  by (rule healthy_stream.connect_refused_run [OF assms(1,2,3,5,6,4)])

theorem connect_refused_witness:
  "fst (connect stream_io ''1.2.3.4'' 80 None None (sample_proxy [5, 0, 5, 5, 0, 1])) =
     Err (io_other ''SOCKS5 CONNECT failed: connection refused (5)'')"
proof -
  have "fst (connect stream_io ''1.2.3.4'' 80 None None (sample_proxy [5, 0, 5, 5, 0, 1])) = Err (reply_err 5)"
  proof (rule connect_refused [where inbox = rx and outbox = tx and healthy = open_peer])
    show "healthy_stream stream_io rx tx open_peer" by (rule peer.healthy_stream_axioms)
    show "open_peer (sample_proxy [5, 0, 5, 5, 0, 1])" by (simp add: open_peer_def sample_proxy_def)
    show "encode_addr ''1.2.3.4'' = Ok [1, 1, 2, 3, 4]" by code_simp
    show "credentials_fit None None" by code_simp
    show "rx (sample_proxy [5, 0, 5, 5, 0, 1]) = [VER, METHOD_NO_AUTH, VER, 5, 0, 1] @ []"
      by (simp add: sample_proxy_def socks_consts)
  qed simp
  moreover have "reply_err 5 = io_other ''SOCKS5 CONNECT failed: connection refused (5)''" by code_simp
  ultimately show ?thesis by simp
qed

end
