(* ===== verification/Chain.thy ===== *)
theory Chain
  imports Netopt Config Socks5
begin

text \<open>
  \<open>src/chain.rs\<close> and the \<open>Dialer\<close> of \<open>src/runtime.rs\<close>: dialing a destination through a chain of
  SOCKS5 hops. The environment of a dial is a record of parameters: the operating system, the
  resolver, the stream operations, the timer, and the stream a successful TCP connect hands over.
  The lemmas describe the whole tunnel: which hop is asked for which next address, what is written
  on the one TCP connection and how much of what arrives is consumed.
\<close>

section \<open>Model\<close>

text \<open>
  \<open>tokio::time::timeout\<close>: the result of the action, or \<open>None\<close> when the time elapsed first.
\<close>

type_synonym 's timer = "millis \<Rightarrow> ('s, unit) eff \<Rightarrow> ('s, unit option) eff"

record 's net_env =
  e_os :: os
  e_dns :: dns
  e_io :: "'s byte_io"
  e_timer :: "'s timer"
  e_conn :: "trace \<Rightarrow> 's"

definition hop_handshake :: "'s net_env \<Rightarrow> chain_hop \<Rightarrow> string \<Rightarrow> u16 \<Rightarrow> ('s, unit) eff" where
  "hop_handshake env hop host port =
     ebind (e_timer env HANDSHAKE_TIMEOUT (connect (e_io env) host port (h_user hop) (h_pass hop))) (\<lambda>r.
       case r of
         None \<Rightarrow> efail (io_new KTimedOut (''SOCKS5 handshake to '' @ h_addr hop @ '' timed out''))
       | Some _ \<Rightarrow> eret ())"

definition next_addr :: "chain_hop list \<Rightarrow> string \<Rightarrow> string" where
  "next_addr later target = (case later of [] \<Rightarrow> target | hop # _ \<Rightarrow> h_addr hop)"

fun hop_loop :: "'s net_env \<Rightarrow> string \<Rightarrow> chain_hop list \<Rightarrow> ('s, unit) eff" where
  "hop_loop env target [] = eret ()"
| "hop_loop env target (hop # later) =
     ebind (elift (split_host_port (next_addr later target))) (\<lambda>(host, port).
     ebind (hop_handshake env hop host port) (\<lambda>_.
     hop_loop env target later))"

text \<open>
  Dropping a stream on an error path leaves nothing of it, so only the trace of system calls
  survives an error. \<open>None\<close> is the panic of \<open>hops[0]\<close> on an empty chain.
\<close>

definition on_stream :: "('s, unit) eff \<Rightarrow> 's \<Rightarrow> (trace, 's) eff" where
  "on_stream m s tr = (case m s of (Inl e, _) \<Rightarrow> (Inl e, tr) | (Inr _, t) \<Rightarrow> (Inr t, tr))"

definition tcp_stream :: "'s net_env \<Rightarrow> string \<Rightarrow> u32 option \<Rightarrow> sock_opts \<Rightarrow> (trace, 's) eff" where
  "tcp_stream env addr mark sock =
     ebind (dial_tcp (e_os env) (e_dns env) addr DIAL_TIMEOUT mark sock) (\<lambda>_ tr. (Inr (e_conn env tr), tr))"

definition dial ::
  "'s net_env \<Rightarrow> chain_hop list \<Rightarrow> string \<Rightarrow> u32 option \<Rightarrow> sock_opts \<Rightarrow> (trace, 's) eff option" where
  "dial env hops target mark sock =
     (case hops of
        [] \<Rightarrow> None
      | first # _ \<Rightarrow>
          Some (ebind (tcp_stream env (h_addr first) mark sock) (\<lambda>s.
                on_stream (hop_loop env target hops) s)))"

record dialer =
  d_chain :: "chain_hop list"
  d_mark :: "u32 option"
  d_sock :: sock_opts

definition dialer_new :: "chain_hop list \<Rightarrow> u32 option \<Rightarrow> sock_opts \<Rightarrow> dialer" where
  "dialer_new chain mark sock = \<lparr>d_chain = chain, d_mark = mark, d_sock = sock\<rparr>"

definition dialer_connect :: "'s net_env \<Rightarrow> dialer \<Rightarrow> string \<Rightarrow> (trace, 's) eff option" where
  "dialer_connect env d target =
     (if d_chain d = [] then Some (tcp_stream env target (d_mark d) (d_sock d))
      else dial env (d_chain d) target (d_mark d) (d_sock d))"

text \<open>\<open>Context\<close>: what every connection task shares.\<close>

record run_context =
  ctx_buf_size :: u64
  ctx_dialer :: dialer
  ctx_mark :: "u32 option"
  ctx_sock :: sock_opts

section \<open>The tunnel\<close>

text \<open>The address each hop is asked to connect to: the next hop, and the target for the last.\<close>

fun asked :: "chain_hop list \<Rightarrow> string \<Rightarrow> string list" where
  "asked [] target = []"
| "asked (hop # later) target = next_addr later target # asked later target"

lemma asked_eq: "hops \<noteq> [] \<Longrightarrow> asked hops target = map h_addr (tl hops) @ [target]"
proof (induction hops)
  case (Cons hop later)
  then show ?case by (cases later) (simp_all add: next_addr_def)
qed simp

lemma zip_asked: "zip hops (asked hops target) = zip hops (map h_addr (tl hops) @ [target])"
  by (cases "hops = []") (simp_all add: asked_eq)

lemma length_asked [simp]: "length (asked hops target) = length hops"
  by (induction hops) simp_all

text \<open>
  One complete conversation with a hop (what was written, what was consumed) that ends in a
  connection to \<open>addr\<close>.
\<close>

definition conversation :: "chain_hop \<times> string \<Rightarrow> bytes \<times> bytes \<Rightarrow> bool" where
  "conversation hn c \<longleftrightarrow>
     (\<exists>host port addr neg rep.
        split_host_port (snd hn) = Ok (host, port) \<and> encode_addr host = Ok addr \<and>
        negotiation_ok (h_user (fst hn)) neg \<and> reply_ok rep \<and>
        fst c = client_opening (h_user (fst hn)) (h_pass (fst hn)) neg @ connect_request addr port \<and>
        snd c = neg @ rep)"

text \<open>
  What \<open>timeout\<close> promises: a result it passes on is the result of the action it ran. A timer that
  does not fire passes every success on.
\<close>

locale tunnel_env = byte_stream "e_io env" inbox outbox
  for env :: "'s net_env" and inbox outbox +
  assumes timer_Some: "e_timer env d m s = (Inr (Some x), t) \<Longrightarrow> m s = (Inr x, t)"
    and timer_Err: "e_timer env d m s = (Inl e, t) \<Longrightarrow> m s = (Inl e, t)"
begin

lemma handshake_Ok:
  "hop_handshake env hop host port s = (Inr u, t) \<Longrightarrow>
     connect (e_io env) host port (h_user hop) (h_pass hop) s = (Inr (), t)"
  by (auto simp: hop_handshake_def ebind_Ok_iff split: option.splits dest!: timer_Some)

lemma hop_loop_Ok:
  assumes "hop_loop env target hops s = (Inr u, t)"
  shows "\<exists>convs. list_all2 conversation (zip hops (asked hops target)) convs \<and>
     inbox s = concat (map snd convs) @ inbox t \<and>
     outbox t = outbox s @ concat (map fst convs)"
  using assms
proof (induction hops arbitrary: s)
  case Nil
  then show ?case by auto
next
  case (Cons hop later)
  then obtain host port a where sp: "split_host_port (next_addr later target) = Inr (host, port)"
    and h: "hop_handshake env hop host port s = (Inr (), a)" and l: "hop_loop env target later a = (Inr u, t)"
    by (auto simp: ebind_Ok_iff)
  obtain convs where convs: "list_all2 conversation (zip later (asked later target)) convs"
    "inbox a = concat (map snd convs) @ inbox t" "outbox t = outbox a @ concat (map fst convs)"
    using Cons.IH [OF l] by blast
  obtain neg rep addr where c: "negotiation_ok (h_user hop) neg" "reply_ok rep" "encode_addr host = Inr addr"
    "inbox s = neg @ rep @ inbox a"
    "outbox a = outbox s @ client_opening (h_user hop) (h_pass hop) neg @ connect_request addr port"
    by (rule connect_Ok [OF handshake_Ok [OF h]])
  let ?c = "(client_opening (h_user hop) (h_pass hop) neg @ connect_request addr port, neg @ rep)"
  have "conversation (hop, next_addr later target) ?c" using c sp by (auto simp: conversation_def)
  with convs c show ?case by (intro exI [of _ "?c # convs"]) simp
qed

end

text \<open>A tunnel over working connections whose timer does not fire.\<close>

locale working_tunnel = tunnel_env env inbox outbox + healthy_stream "e_io env" inbox outbox healthy
  for env :: "'s net_env" and inbox outbox healthy +
  assumes timer_runs: "m s = (Inr x, t) \<Longrightarrow> e_timer env d m s = (Inr (Some x), t)"
begin

lemma hop_loop_run:
  assumes "list_all2 conversation (zip hops (asked hops target)) convs"
    "list_all (\<lambda>h. credentials_fit (h_user h) (h_pass h)) hops"
    "healthy s" "inbox s = concat (map snd convs) @ rest"
  shows "\<exists>t. hop_loop env target hops s = (Inr (), t) \<and> healthy t \<and> inbox t = rest \<and>
     outbox t = outbox s @ concat (map fst convs)"
  using assms
proof (induction hops arbitrary: s convs)
  case Nil
  then show ?case by (simp add: eret_def)
next
  case (Cons hop later)
  then obtain c cs where convs: "convs = c # cs" "conversation (hop, next_addr later target) c"
    "list_all2 conversation (zip later (asked later target)) cs"
    by (auto simp: list_all2_Cons1)
  then obtain host port addr neg rep where c: "split_host_port (next_addr later target) = Inr (host, port)"
    "encode_addr host = Inr addr" "negotiation_ok (h_user hop) neg" "reply_ok rep"
    "c = (client_opening (h_user hop) (h_pass hop) neg @ connect_request addr port, neg @ rep)"
    by (cases c) (auto simp: conversation_def)
  have i: "inbox s = neg @ rep @ concat (map snd cs) @ rest" using Cons.prems convs c by simp
  have fit: "credentials_fit (h_user hop) (h_pass hop)" using Cons.prems by simp
  obtain a where a: "connect (e_io env) host port (h_user hop) (h_pass hop) s = (Inr (), a)" "healthy a"
    "inbox a = concat (map snd cs) @ rest"
    "outbox a = outbox s @ client_opening (h_user hop) (h_pass hop) neg @ connect_request addr port"
    using connect_run [OF Cons.prems(3) c(2,3,4) i fit] by blast
  have h: "hop_handshake env hop host port s = (Inr (), a)"
  proof -
    have "e_timer env HANDSHAKE_TIMEOUT (connect (e_io env) host port (h_user hop) (h_pass hop)) s = (Inr (Some ()), a)"
      by (rule timer_runs) (rule a(1))
    then show ?thesis by (simp add: hop_handshake_def ebind_run eret_def)
  qed
  obtain t where "hop_loop env target later a = (Inr (), t)" "healthy t" "inbox t = rest"
    "outbox t = outbox a @ concat (map fst cs)"
    using Cons.IH [OF convs(3) _ a(2,3)] Cons.prems by auto
  with a c convs h show ?case by (simp add: ebind_run)
qed

end

text \<open>The interface holds of a scripted peer with a timer that never fires.\<close>

definition patient :: "'s timer" where
  "patient d m = ebind m (\<lambda>x. eret (Some x))"

definition scripted_env :: "os \<Rightarrow> dns \<Rightarrow> stream \<Rightarrow> stream net_env" where
  "scripted_env os dns s =
     \<lparr>e_os = os, e_dns = dns, e_io = stream_io, e_timer = patient, e_conn = (\<lambda>_. s)\<rparr>"

lemma scripted_env_sel [simp]:
  "e_os (scripted_env os dns s) = os" "e_dns (scripted_env os dns s) = dns"
  "e_io (scripted_env os dns s) = stream_io" "e_timer (scripted_env os dns s) = patient"
  "e_conn (scripted_env os dns s) = (\<lambda>_. s)"
  by (simp_all add: scripted_env_def)

interpretation scripted_tunnel: working_tunnel "scripted_env os dns s" rx tx open_peer for os dns s
proof -
  have b: "byte_stream (e_io (scripted_env os dns s)) rx tx" by (simp add: peer.byte_stream_axioms)
  have h: "healthy_stream (e_io (scripted_env os dns s)) rx tx open_peer" by (simp add: peer.healthy_stream_axioms)
  have "tunnel_env (scripted_env os dns s) rx tx"
    by (intro tunnel_env.intro tunnel_env_axioms.intro b)
       (auto simp: patient_def ebind_Ok_iff ebind_Err_iff)
  then show "working_tunnel (scripted_env os dns s) rx tx open_peer"
    by (intro working_tunnel.intro working_tunnel_axioms.intro h) (auto simp: patient_def ebind_run)
qed

section \<open>Properties\<close>

lemma tcp_stream_Ok:
  "tcp_stream env addr mark sock tr = (Inr s, tr') \<longleftrightarrow>
     s = e_conn env tr' \<and> (\<exists>sa. dial_tcp (e_os env) (e_dns env) addr DIAL_TIMEOUT mark sock tr = (Inr sa, tr'))"
  by (auto simp: tcp_stream_def ebind_Ok_iff)

lemma on_stream_Ok: "on_stream m s tr = (Inr t, tr') \<longleftrightarrow> tr' = tr \<and> (\<exists>u. m s = (Inr u, t))"
  by (auto simp: on_stream_def split: prod.splits sum.splits)

lemma on_stream_Err: "on_stream m s tr = (Inl e, tr') \<longleftrightarrow> tr' = tr \<and> (\<exists>t. m s = (Inl e, t))"
  by (auto simp: on_stream_def split: prod.splits sum.splits)

definition sample_hops :: "chain_hop list" where
  "sample_hops =
     [\<lparr>h_addr = ''10.0.0.1:1080'', h_user = None, h_pass = None\<rparr>,
      \<lparr>h_addr = ''10.0.0.2:1080'', h_user = Some ''u'', h_pass = Some ''p''\<rparr>]"

definition sample_success :: bytes where
  "sample_success = [5, 0, 0, 1, 0, 0, 0, 0, 0, 0]"

definition sample_env :: "stream net_env" where
  "sample_env =
     scripted_env (\<lambda>_ _. SysOk) (\<lambda>_. Ok [])
       (sample_proxy ([5, 0] @ sample_success @ [5, 2, 1, 0] @ sample_success @ [9]))"

text \<open>
  C5: A chain dial that succeeds has opened one TCP connection, to the first hop, and has held over
  it one complete SOCKS5 conversation per hop, in the order of the chain: hop \<open>i\<close> was asked, with
  its own credentials, for the address of hop \<open>i + 1\<close>, and the last hop for the target. Nothing else
  was written and every byte after the last reply is left for the relay.
\<close>

theorem chain_dial_sound:
  assumes "tunnel_env env inbox outbox" "dial env hops target mark sock = Some run" "run tr = (Ok s, tr')"
  shows "\<exists>sa convs.
     dial_tcp (e_os env) (e_dns env) (h_addr (hd hops)) DIAL_TIMEOUT mark sock tr = (Ok sa, tr') \<and>
     list_all2 conversation (zip hops (map h_addr (tl hops) @ [target])) convs \<and>
     inbox (e_conn env tr') = concat (map snd convs) @ inbox s \<and>
     outbox s = outbox (e_conn env tr') @ concat (map fst convs)"
proof -
  obtain first later where hops: "hops = first # later"
    and run: "run = ebind (tcp_stream env (h_addr first) mark sock) (on_stream (hop_loop env target hops))"
    using assms(2) by (auto simp: dial_def split: list.splits)
  obtain sa where "dial_tcp (e_os env) (e_dns env) (h_addr first) DIAL_TIMEOUT mark sock tr = (Inr sa, tr')"
    and "hop_loop env target hops (e_conn env tr') = (Inr (), s)"
    using assms(3) unfolding run by (auto simp: ebind_Ok_iff tcp_stream_Ok on_stream_Ok)
  with tunnel_env.hop_loop_Ok [OF assms(1)] show ?thesis
    using asked_eq [of hops target] hops by fastforce
qed

theorem chain_dial_sound_witness:
  "\<exists>convs. list_all2 conversation (zip sample_hops [''10.0.0.2:1080'', ''1.2.3.4:80'']) convs \<and>
     rx (e_conn sample_env []) = concat (map snd convs) @ [9]"
proof -
  let ?run = "the (dial sample_env sample_hops ''1.2.3.4:80'' None default_sock_opts)"
  have d: "dial sample_env sample_hops ''1.2.3.4:80'' None default_sock_opts = Some ?run"
    by (simp add: dial_def sample_hops_def)
  obtain s tr where r: "?run [] = (Ok s, tr)" and i: "rx s = [9]"
  proof -
    have "(case ?run [] of (Inl _, _) \<Rightarrow> False | (Inr s, _) \<Rightarrow> rx s = [9])" by code_simp
    then show thesis using that by (cases "?run []") (auto split: sum.splits)
  qed
  have env: "tunnel_env sample_env rx tx"
    unfolding sample_env_def by (rule scripted_tunnel.tunnel_env_axioms)
  show ?thesis
    using chain_dial_sound [OF env d r] i by (auto simp: sample_hops_def sample_env_def)
qed

text \<open>
  C6: Over working connections, with every proxy answering in time, a chain dial succeeds whatever
  the length of the chain, and hands over the stream with exactly the bytes that followed the last
  reply.
\<close>

theorem chain_dial_complete:
  assumes "working_tunnel env inbox outbox healthy"
    "dial_tcp (e_os env) (e_dns env) (h_addr (hd hops)) DIAL_TIMEOUT mark sock tr = (Ok sa, tr')"
    "hops \<noteq> []" "list_all (\<lambda>h. credentials_fit (h_user h) (h_pass h)) hops"
    "list_all2 conversation (zip hops (map h_addr (tl hops) @ [target])) convs"
    "healthy (e_conn env tr')" "inbox (e_conn env tr') = concat (map snd convs) @ rest"
  shows "\<exists>run s. dial env hops target mark sock = Some run \<and> run tr = (Ok s, tr') \<and> inbox s = rest \<and>
     outbox s = outbox (e_conn env tr') @ concat (map fst convs)"
proof -
  obtain t where t: "hop_loop env target hops (e_conn env tr') = (Inr (), t)" "inbox t = rest"
    "outbox t = outbox (e_conn env tr') @ concat (map fst convs)"
    using working_tunnel.hop_loop_run [OF assms(1) _ assms(4,6,7)] assms(5) asked_eq [OF assms(3)] by metis
  have "tcp_stream env (h_addr (hd hops)) mark sock tr = (Inr (e_conn env tr'), tr')"
    using assms(2) by (simp add: tcp_stream_Ok)
  with t assms(3) show ?thesis
    by (cases hops) (auto simp: dial_def ebind_run on_stream_def)
qed

theorem chain_dial_complete_witness:
  "\<exists>run s tr. dial sample_env sample_hops ''1.2.3.4:80'' None default_sock_opts = Some run \<and>
     run [] = (Ok s, tr) \<and> rx s = [9]"
proof -
  let ?convs =
    "[([5, 1, 0] @ connect_request [1, 10, 0, 0, 2] 1080, [5, 0] @ sample_success),
      ([5, 2, 0, 2] @ auth_request ''u'' ''p'' @ connect_request [1, 1, 2, 3, 4] 80, [5, 2, 1, 0] @ sample_success)]"
  let ?dial = "dial_tcp (e_os sample_env) (e_dns sample_env) ''10.0.0.1:1080'' DIAL_TIMEOUT None default_sock_opts"
  have d: "?dial [] = (Ok (SocketAddrV4 (Ipv4Addr 10 0 0 1) 1080), snd (?dial []))" by code_simp
  have c: "conversation (sample_hops ! 0, ''10.0.0.2:1080'') (?convs ! 0)"
    unfolding conversation_def
    by (rule exI [of _ "''10.0.0.2''"], rule exI [of _ 1080], rule exI [of _ "[1, 10, 0, 0, 2]"],
        rule exI [of _ "[5, 0]"], rule exI [of _ sample_success]) code_simp
  have c': "conversation (sample_hops ! 1, ''1.2.3.4:80'') (?convs ! 1)"
    unfolding conversation_def
    by (rule exI [of _ "''1.2.3.4''"], rule exI [of _ 80], rule exI [of _ "[1, 1, 2, 3, 4]"],
        rule exI [of _ "[5, 2, 1, 0]"], rule exI [of _ sample_success]) code_simp
  have env: "working_tunnel sample_env rx tx open_peer"
    unfolding sample_env_def by (rule scripted_tunnel.working_tunnel_axioms)
  have a: "dial_tcp (e_os sample_env) (e_dns sample_env) (h_addr (hd sample_hops)) DIAL_TIMEOUT None
     default_sock_opts [] = (Ok (SocketAddrV4 (Ipv4Addr 10 0 0 1) 1080), snd (?dial []))"
    using d by (simp add: sample_hops_def)
  have "\<exists>run s. dial sample_env sample_hops ''1.2.3.4:80'' None default_sock_opts = Some run \<and>
      run [] = (Ok s, snd (?dial [])) \<and> rx s = [9] \<and>
      tx s = tx (e_conn sample_env (snd (?dial []))) @ concat (map fst ?convs)"
  proof (rule chain_dial_complete [OF env a])
    show "list_all2 conversation (zip sample_hops (map h_addr (tl sample_hops) @ [''1.2.3.4:80''])) ?convs"
      using c c' by (simp add: sample_hops_def)
    show "sample_hops \<noteq> []" "list_all (\<lambda>h. credentials_fit (h_user h) (h_pass h)) sample_hops"
      by (simp_all add: sample_hops_def credentials_fit_def pass_text_def)
    show "open_peer (e_conn sample_env (snd (?dial [])))"
      by (simp add: sample_env_def open_peer_def sample_proxy_def)
    show "rx (e_conn sample_env (snd (?dial []))) = concat (map snd ?convs) @ [9]"
      by (simp add: sample_env_def sample_proxy_def)
  qed
  then show ?thesis by blast
qed

text \<open>
  The dialer never indexes an empty chain, and without a chain it is the plain TCP dial: the
  stream is handed over as connected, nothing read and nothing written.
\<close>

theorem dialer_direct:
  "dialer_connect env d target \<noteq> None \<and>
   the (dialer_connect env (dialer_new [] mark sock) target) tr =
     (case dial_tcp (e_os env) (e_dns env) target DIAL_TIMEOUT mark sock tr of
        (Inl e, tr') \<Rightarrow> (Err e, tr')
      | (Inr _, tr') \<Rightarrow> (Ok (e_conn env tr'), tr'))"
  by (auto simp: dialer_connect_def dial_def dialer_new_def tcp_stream_def ebind_def
      split: list.split prod.split sum.split)

section \<open>Failures\<close>

text \<open>What the client makes of an answer that does not let it go on.\<close>

definition server_error :: "io_error \<Rightarrow> bool" where
  "server_error e \<longleftrightarrow>
     e = proto_err ''server requires username/password auth but none was configured'' \<or>
     e = proto_err ''server rejected all offered auth methods'' \<or>
     (\<exists>b. e = proto_err (''bad SOCKS version in method reply: '' @ show_u8 b) \<or>
        e = proto_err (''server selected unsupported method '' @ show_u8 b) \<or>
        e = io_new KPermissionDenied (''SOCKS5 username/password auth failed (status '' @ show_u8 b @ '')'') \<or>
        e = proto_err (''bad SOCKS version in reply: '' @ show_u8 b) \<or>
        e = reply_err b \<or>
        e = proto_err (''unknown ATYP in reply: '' @ show_u8 b))"

definition stream_error :: "'s byte_io \<Rightarrow> io_error \<Rightarrow> bool" where
  "stream_error io e \<longleftrightarrow> (\<exists>bs s. fst (write_all io bs s) = Err e) \<or> (\<exists>n s. fst (read_exact io n s) = Err e)"

text \<open>The limits of the protocol, which the client checks before it writes.\<close>

definition limit_error :: "chain_hop \<Rightarrow> string \<Rightarrow> io_error \<Rightarrow> bool" where
  "limit_error hop host e \<longleftrightarrow>
     255 < length host \<and> e = proto_err ''destination hostname exceeds 255 bytes'' \<or>
     \<not> credentials_fit (h_user hop) (h_pass hop) \<and> e = proto_err ''username or password exceeds 255 bytes''"

definition handshake_error :: "'s net_env \<Rightarrow> chain_hop \<Rightarrow> string \<Rightarrow> io_error \<Rightarrow> bool" where
  "handshake_error env hop host e \<longleftrightarrow>
     e = io_new KTimedOut (''SOCKS5 handshake to '' @ h_addr hop @ '' timed out'') \<or>
     stream_error (e_io env) e \<or> server_error e \<or> limit_error hop host e"

lemma server_errors [simp]:
  "server_error (proto_err ''server requires username/password auth but none was configured'')"
  "server_error (proto_err ''server rejected all offered auth methods'')"
  "server_error (proto_err (''bad SOCKS version in method reply: '' @ show_u8 b))"
  "server_error (proto_err (''server selected unsupported method '' @ show_u8 b))"
  "server_error (io_new KPermissionDenied (''SOCKS5 username/password auth failed (status '' @ show_u8 b @ '')''))"
  "server_error (proto_err (''bad SOCKS version in reply: '' @ show_u8 b))"
  "server_error (reply_err b)"
  "server_error (proto_err (''unknown ATYP in reply: '' @ show_u8 b))"
  unfolding server_error_def by blast+

lemma stream_errors:
  "write_all io bs s = (Inl e, t) \<Longrightarrow> stream_error io e" "read_exact io n s = (Inl e, t) \<Longrightarrow> stream_error io e"
  unfolding stream_error_def by (metis fst_conv)+

lemma user_pass_auth_Err:
  assumes "user_pass_auth io u p s = (Inl e, t)"
  shows "stream_error io e \<or> server_error e \<or>
     (255 < length u \<or> 255 < length p) \<and> e = proto_err ''username or password exceeds 255 bytes''"
  using assms
  by (auto simp del: append_Cons append_Nil simp: user_pass_auth_def ebind_Err_iff split: if_splits dest: stream_errors)

lemma negotiate_method_Err:
  assumes "negotiate_method io (h_user hop) (h_pass hop) s = (Inl e, t)"
  shows "stream_error io e \<or> server_error e \<or> limit_error hop host e"
proof -
  have "stream_error io e \<or> server_error e \<or>
      (\<exists>u a. h_user hop = Some u \<and> user_pass_auth io u (pass_text (h_pass hop)) a = (Inl e, t))"
    using assms
    by (auto simp del: append_Cons append_Nil simp: negotiate_method_def ebind_Err_iff pass_text_def [symmetric]
        split: if_splits option.splits dest: stream_errors)
  then show ?thesis
    using user_pass_auth_Err [of io _ "pass_text (h_pass hop)" _ e t]
    by (fastforce simp: limit_error_def credentials_fit_def pass_text_def)
qed

lemma encode_addr_Err:
  "encode_addr host = Inl e \<Longrightarrow> 255 < length host \<and> e = proto_err ''destination hostname exceeds 255 bytes''"
  by (auto simp: encode_addr_def Let_def as_bytes_def split: option.splits if_splits)

lemma send_connect_Err:
  assumes "send_connect io host port s = (Inl e, t)"
  shows "stream_error io e \<or> server_error e \<or> limit_error hop host e"
proof -
  have "server_error e \<or> stream_error io e" if "reply_addr_len io a s = (Inl e, t)" for a s
    using that by (auto simp del: append_Cons append_Nil simp: reply_addr_len_def ebind_Err_iff
        split: if_splits dest: stream_errors)
  then have "stream_error io e \<or> server_error e \<or> encode_addr host = Inl e"
    using assms by (auto simp del: append_Cons append_Nil simp: send_connect_def ebind_Err_iff
        split: if_splits dest: stream_errors)
  then show ?thesis using encode_addr_Err unfolding limit_error_def by blast
qed

context tunnel_env
begin

lemma hop_handshake_Err:
  assumes "hop_handshake env hop host port s = (Inl e, t)"
  shows "handshake_error env hop host e"
proof -
  from assms consider "e = io_new KTimedOut (''SOCKS5 handshake to '' @ h_addr hop @ '' timed out'')"
    | "connect (e_io env) host port (h_user hop) (h_pass hop) s = (Inl e, t)"
    by (auto simp: hop_handshake_def ebind_Err_iff split: option.splits dest!: timer_Err)
  then show ?thesis
  proof cases
    case 2
    then have "negotiate_method (e_io env) (h_user hop) (h_pass hop) s = (Inl e, t) \<or>
        (\<exists>a. send_connect (e_io env) host port a = (Inl e, t))"
      by (auto simp: connect_def ebind_Err_iff)
    then show ?thesis
      using negotiate_method_Err [of "e_io env" hop s e t host] send_connect_Err [of "e_io env" host port _ e t hop]
      unfolding handshake_error_def by blast
  qed (simp add: handshake_error_def)
qed

text \<open>The hop where the loop failed, after a complete conversation with each hop before it.\<close>

lemma hop_loop_Err:
  assumes "hop_loop env target hops s = (Inl e, t)" "list_all splittable (asked hops target)"
  shows "\<exists>i host port convs a. i < length hops \<and> split_host_port (asked hops target ! i) = Inr (host, port) \<and>
     list_all2 conversation (take i (zip hops (asked hops target))) convs \<and>
     inbox s = concat (map snd convs) @ inbox a \<and> outbox a = outbox s @ concat (map fst convs) \<and>
     hop_handshake env (hops ! i) host port a = (Inl e, t)"
  using assms
proof (induction hops arbitrary: s)
  case (Cons hop later)
  obtain host port where sp: "split_host_port (next_addr later target) = Inr (host, port)"
    using Cons.prems(2) by (auto simp: splittable_def isl_def split: sum.splits)
       (metis old.prod.exhaust sum.exhaust)
  from Cons.prems(1) sp consider "hop_handshake env hop host port s = (Inl e, t)"
    | a where "hop_handshake env hop host port s = (Inr (), a)" "hop_loop env target later a = (Inl e, t)"
    by (auto simp: ebind_Err_iff)
  then show ?case
  proof cases
    case 1
    with sp show ?thesis
      by (intro exI [of _ 0] exI [of _ host] exI [of _ port] exI [of _ "[]"] exI [of _ s]) simp
  next
    case (2 a)
    from Cons.IH [OF 2(2)] Cons.prems(2) obtain i h p convs b where ih: "i < length later"
      "split_host_port (asked later target ! i) = Inr (h, p)"
      "list_all2 conversation (take i (zip later (asked later target))) convs"
      "inbox a = concat (map snd convs) @ inbox b" "outbox b = outbox a @ concat (map fst convs)"
      "hop_handshake env (later ! i) h p b = (Inl e, t)" by auto
    obtain neg rep addr where c: "negotiation_ok (h_user hop) neg" "reply_ok rep" "encode_addr host = Inr addr"
      "inbox s = neg @ rep @ inbox a"
      "outbox a = outbox s @ client_opening (h_user hop) (h_pass hop) neg @ connect_request addr port"
      by (rule connect_Ok [OF handshake_Ok [OF 2(1)]])
    let ?c = "(client_opening (h_user hop) (h_pass hop) neg @ connect_request addr port, neg @ rep)"
    have "conversation (hop, next_addr later target) ?c" using c sp by (auto simp: conversation_def)
    with ih c show ?thesis
      by (intro exI [of _ "Suc i"] exI [of _ h] exI [of _ p] exI [of _ "?c # convs"] exI [of _ b]) simp
  qed
qed simp

lemma dialer_Err:
  assumes "dialer_connect env d target = Some run" "run tr = (Inl e, tr')"
    "list_all (\<lambda>h. splittable (h_addr h)) (d_chain d)" "splittable target"
  shows "fst (dial_tcp (e_os env) (e_dns env) (if d_chain d = [] then target else h_addr (hd (d_chain d)))
       DIAL_TIMEOUT (d_mark d) (d_sock d) tr) = Inl e \<or>
     (\<exists>i host port convs a. i < length (d_chain d) \<and>
        split_host_port ((map h_addr (tl (d_chain d)) @ [target]) ! i) = Inr (host, port) \<and>
        list_all2 conversation (take i (zip (d_chain d) (map h_addr (tl (d_chain d)) @ [target]))) convs \<and>
        inbox (e_conn env tr') = concat (map snd convs) @ inbox a \<and>
        outbox a = outbox (e_conn env tr') @ concat (map fst convs) \<and>
        fst (hop_handshake env (d_chain d ! i) host port a) = Inl e \<and>
        handshake_error env (d_chain d ! i) host e)"
proof (cases "d_chain d")
  case Nil
  with assms(1,2) show ?thesis by (auto simp: dialer_connect_def tcp_stream_def ebind_Err_iff)
next
  case (Cons first later)
  have asked: "asked (d_chain d) target = map h_addr (tl (d_chain d)) @ [target]"
    by (rule asked_eq) (simp add: Cons)
  then have ok: "list_all splittable (asked (d_chain d) target)"
    using assms(3,4) unfolding Cons by (simp add: list_all_iff del: asked.simps)
  have "run = ebind (tcp_stream env (h_addr first) (d_mark d) (d_sock d)) (on_stream (hop_loop env target (d_chain d)))"
    using assms(1) Cons by (simp add: dialer_connect_def dial_def)
  then consider "tcp_stream env (h_addr first) (d_mark d) (d_sock d) tr = (Inl e, tr')"
    | t where "hop_loop env target (d_chain d) (e_conn env tr') = (Inl e, t)"
    using assms(2) by (auto simp: ebind_Err_iff ebind_Ok_iff on_stream_Err tcp_stream_def)
  then show ?thesis
  proof cases
    case 1
    then have "fst (dial_tcp (e_os env) (e_dns env) (h_addr first) DIAL_TIMEOUT (d_mark d) (d_sock d) tr) = Inl e"
      by (simp add: tcp_stream_def ebind_Err_iff)
    then show ?thesis by (simp add: Cons)
  next
    case 2
    from hop_loop_Err [OF 2 ok, unfolded asked] obtain i host port convs a where
      "i < length (d_chain d)" "split_host_port ((map h_addr (tl (d_chain d)) @ [target]) ! i) = Inr (host, port)"
      "list_all2 conversation (take i (zip (d_chain d) (map h_addr (tl (d_chain d)) @ [target]))) convs"
      "inbox (e_conn env tr') = concat (map snd convs) @ inbox a"
      "outbox a = outbox (e_conn env tr') @ concat (map fst convs)"
      and h: "hop_handshake env (d_chain d ! i) host port a = (Inl e, t)" by blast
    moreover have "fst (hop_handshake env (d_chain d ! i) host port a) = Inl e" using h by simp
    ultimately show ?thesis using hop_handshake_Err [OF h] by blast
  qed
qed

end

end
