(* ===== verification/Shutdown.thy ===== *)
theory Shutdown
  imports Gust_Prelude
begin

text \<open>
  The \<open>Shutdown\<close> signal of \<open>src/runtime.rs\<close>, a boolean on a \<open>tokio::sync::watch\<close> channel, and the
  signal tasks of \<open>src/signals.rs\<close> that trigger it. The channel is a parameter: its operations are
  the argument \<open>w\<close> and the interface \<open>watch_channel\<close> states what is documented of them, in
  particular that \<open>send\<close> fails and keeps the old value while no receiver exists.
\<close>

section \<open>Model\<close>

record 'c watch =
  channel :: "bool \<Rightarrow> 'c"
  send :: "bool \<Rightarrow> 'c \<Rightarrow> bool \<times> 'c"
  subscribe :: "'c \<Rightarrow> 'c"
  drop_receiver :: "'c \<Rightarrow> 'c"
  borrow :: "'c \<Rightarrow> bool"

text \<open>\<open>let (tx, _) = watch::channel(false)\<close>: the first receiver is dropped at once.\<close>

definition shutdown_new :: "'c watch \<Rightarrow> 'c" where
  "shutdown_new w = drop_receiver w (channel w False)"

definition trigger :: "'c watch \<Rightarrow> 'c \<Rightarrow> 'c" where
  "trigger w c = snd (send w True c)"

definition is_triggered :: "'c watch \<Rightarrow> 'c \<Rightarrow> bool" where
  "is_triggered w c = borrow w c"

text \<open>
  \<open>cancelled\<close> up to its first suspension, and its continuation after each change of the value:
  \<open>True\<close> when it has returned (its receiver is dropped then), \<open>False\<close> while it waits.
\<close>

definition cancelled :: "'c watch \<Rightarrow> 'c \<Rightarrow> bool \<times> 'c" where
  "cancelled w c =
     (let c' = subscribe w c in
      if borrow w c' then (True, drop_receiver w c') else (False, c'))"

definition cancelled_changed :: "'c watch \<Rightarrow> 'c \<Rightarrow> bool \<times> 'c" where
  "cancelled_changed w c = (if borrow w c then (True, drop_receiver w c) else (False, c))"

datatype unix_signal = SIGINT | SIGTERM | SIGUSR1

text \<open>
  The two tasks of \<open>install\<close>: \<open>int_ok\<close>, \<open>term_ok\<close> and \<open>usr1_ok\<close> say whether registering the
  handler succeeded, \<open>sigs\<close> are the signals delivered, in order.
\<close>

definition shutdown_task :: "'c watch \<Rightarrow> bool \<Rightarrow> bool \<Rightarrow> unix_signal list \<Rightarrow> 'c \<Rightarrow> 'c" where
  "shutdown_task w int_ok term_ok sigs c =
     (if \<not> int_ok then c
      else if \<not> term_ok then c
      else if list_ex (\<lambda>s. s = SIGINT \<or> s = SIGTERM) sigs then trigger w c else c)"

fun dump_task :: "bool \<Rightarrow> unix_signal list \<Rightarrow> ('l \<Rightarrow> 'l) \<Rightarrow> 'l \<Rightarrow> 'l" where
  "dump_task usr1_ok [] dump l = l"
| "dump_task usr1_ok (s # sigs) dump l =
     (if \<not> usr1_ok then l
      else dump_task usr1_ok sigs dump (if s = SIGUSR1 then dump l else l))"

text \<open>
  \<open>install\<close> where there are no Unix signals: \<open>pressed\<close> is what \<open>ctrl_c()\<close> has given so far, an error
  when its handler cannot be registered.
\<close>

definition ctrl_c_task :: "'c watch \<Rightarrow> ('e + unit) option \<Rightarrow> 'c \<Rightarrow> 'c" where
  "ctrl_c_task w pressed c = (case pressed of Some (Inr _) \<Rightarrow> trigger w c | _ \<Rightarrow> c)"

section \<open>The channel\<close>

locale watch_channel =
  fixes w :: "'c watch"
    and receivers :: "'c \<Rightarrow> nat"
  assumes channel_new: "borrow w (channel w b) = b" "receivers (channel w b) = 1"
    and subscribe_law: "borrow w (subscribe w c) = borrow w c" "receivers (subscribe w c) = Suc (receivers c)"
    and drop_law: "borrow w (drop_receiver w c) = borrow w c" "receivers (drop_receiver w c) = receivers c - 1"
    and send_law: "0 < receivers c \<Longrightarrow> borrow w (snd (send w v c)) = v"
      "receivers (snd (send w v c)) = receivers c"
    and send_closed: "receivers c = 0 \<Longrightarrow> send w v c = (False, c)"
begin

lemmas channel_laws = channel_new subscribe_law drop_law send_law

lemma trigger_reaches:
  "0 < receivers c \<Longrightarrow> is_triggered w (trigger w c) \<and> fst (cancelled w (trigger w c)) \<and>
     fst (cancelled_changed w (trigger w c))"
  by (simp add: is_triggered_def trigger_def cancelled_def cancelled_changed_def Let_def channel_laws)

lemma trigger_closed: "receivers c = 0 \<Longrightarrow> trigger w c = c"
  by (simp add: trigger_def send_closed)

lemma new_closed: "receivers (shutdown_new w) = 0" "\<not> borrow w (shutdown_new w)"
  by (simp_all add: shutdown_new_def channel_laws)

lemma waiting_receiver: "\<not> fst (cancelled w c) \<Longrightarrow> 0 < receivers (snd (cancelled w c))"
  by (auto simp: cancelled_def Let_def channel_laws split: if_splits)

lemma triggered_stays:
  assumes "is_triggered w c"
  shows "is_triggered w (trigger w c)" "is_triggered w (snd (cancelled w c))" "fst (cancelled w c)"
proof -
  show "is_triggered w (trigger w c)"
    using assms by (cases "receivers c = 0") (auto simp: trigger_closed trigger_reaches)
qed (use assms in \<open>auto simp: is_triggered_def cancelled_def Let_def channel_laws\<close>)

end

text \<open>A value with a receiver count provides the interface.\<close>

definition counted_watch :: "(bool \<times> nat) watch" where
  "counted_watch =
     \<lparr>channel = (\<lambda>b. (b, 1)),
      send = (\<lambda>v c. if snd c = 0 then (False, c) else (True, (v, snd c))),
      subscribe = (\<lambda>c. (fst c, Suc (snd c))),
      drop_receiver = (\<lambda>c. (fst c, snd c - 1)),
      borrow = fst\<rparr>"

interpretation counted: watch_channel counted_watch snd
  by unfold_locales (auto simp: counted_watch_def)

section \<open>Properties\<close>

text \<open>
  A shutdown that is triggered while some task waits in \<open>cancelled\<close> is seen by everybody: the
  flag reads true, every waiting task returns when it is woken, every later \<open>cancelled\<close> returns at
  once, and no later trigger or wait takes the flag back.
\<close>

theorem trigger_is_seen:
  assumes "watch_channel w receivers" "\<not> fst (cancelled w c0)" "c = snd (cancelled w c0)"
  shows "is_triggered w (trigger w c) \<and> fst (cancelled w (trigger w c)) \<and>
     fst (cancelled_changed w (trigger w c)) \<and>
     is_triggered w (trigger w (trigger w c)) \<and> is_triggered w (snd (cancelled w (trigger w c)))"
  using watch_channel.waiting_receiver [OF assms(1,2)] watch_channel.trigger_reaches [OF assms(1), of c]
    watch_channel.triggered_stays [OF assms(1), of "trigger w c"] assms(3) by simp

theorem trigger_is_seen_witness:
  "is_triggered counted_watch (trigger counted_watch (snd (cancelled counted_watch (shutdown_new counted_watch))))"
proof -
  have "\<not> fst (cancelled counted_watch (shutdown_new counted_watch))" by code_simp
  from trigger_is_seen [OF counted.watch_channel_axioms this refl] show ?thesis by blast
qed

text \<open>
  A shutdown that is triggered before any task waits in \<open>cancelled\<close> is lost: the flag stays
  false and a task that then waits is not released, so it is not true that late subscribers always
  observe the final state.
\<close>

theorem early_trigger_is_lost:
  assumes "watch_channel w receivers"
  shows "\<not> is_triggered w (trigger w (shutdown_new w)) \<and>
     \<not> fst (cancelled w (trigger w (shutdown_new w)))"
proof -
  have "trigger w (shutdown_new w) = shutdown_new w"
    using watch_channel.trigger_closed [OF assms watch_channel.new_closed(1) [OF assms]] .
  then show ?thesis
    using watch_channel.new_closed(2) [OF assms] watch_channel.subscribe_law(1) [OF assms]
    by (simp add: is_triggered_def cancelled_def Let_def)
qed

theorem early_trigger_is_lost_witness:
  "\<not> fst (cancelled counted_watch (trigger counted_watch (shutdown_new counted_watch)))"
  using early_trigger_is_lost [OF counted.watch_channel_axioms] by blast

end
