(* ===== verification/Stats.thy ===== *)
theory Stats
  imports Rust_Num
begin

text \<open>
  \<open>src/stats.rs\<close>: the counters of a listener, the guard that takes an active connection back when it
  is dropped, and the lines printed for a status dump and a heartbeat. Counters are \<open>AtomicU64\<close>:
  \<open>fetch_add\<close> and \<open>fetch_sub\<close> wrap, and each is one atomic step, so concurrent updates are sequences of
  the events below. The sums of the totals wrap as in the release build.
\<close>

section \<open>Model\<close>

record listener_stats =
  st_name :: string
  st_proto :: string
  st_accepted :: u64
  st_active :: u64
  st_restarts :: u64
  st_errors :: u64
  st_last_error :: "string option"

definition stats_new :: "string \<Rightarrow> string \<Rightarrow> listener_stats" where
  "stats_new name proto =
     \<lparr>st_name = name, st_proto = proto, st_accepted = 0, st_active = 0, st_restarts = 0,
      st_errors = 0, st_last_error = None\<rparr>"

definition on_accept :: "listener_stats \<Rightarrow> listener_stats" where
  "on_accept s = s\<lparr>st_accepted := st_accepted s + 1, st_active := st_active s + 1\<rparr>"

definition guard_drop :: "listener_stats \<Rightarrow> listener_stats" where
  "guard_drop s = s\<lparr>st_active := st_active s - 1\<rparr>"

definition inc_restart :: "listener_stats \<Rightarrow> listener_stats" where
  "inc_restart s = s\<lparr>st_restarts := st_restarts s + 1\<rparr>"

definition inc_error :: "listener_stats \<Rightarrow> listener_stats" where
  "inc_error s = s\<lparr>st_errors := st_errors s + 1\<rparr>"

definition set_last_error :: "string \<Rightarrow> listener_stats \<Rightarrow> listener_stats" where
  "set_last_error e s = s\<lparr>st_last_error := Some e\<rparr>"

definition summary :: "listener_stats \<Rightarrow> string" where
  "summary s =
     st_name s @ '' accepted='' @ show_u64 (st_accepted s) @ '' active='' @ show_u64 (st_active s) @
     '' restarts='' @ show_u64 (st_restarts s) @ '' errors='' @ show_u64 (st_errors s) @
     (case st_last_error s of None \<Rightarrow> [] | Some e \<Rightarrow> '', last_error='' @ CHR 0x22 # e @ [CHR 0x22])"

type_synonym registry = "listener_stats list"

text \<open>The lines logged by \<open>dump\<close>.\<close>

definition dump :: "registry \<Rightarrow> string list" where
  "dump reg =
     [''--- status dump ('' @ show_nat (length reg) @ '' listeners) ---''] @ map summary reg @
     [''totals: accepted='' @ show_u64 (sum_list (map st_accepted reg)) @
      '' active='' @ show_u64 (sum_list (map st_active reg))]"

definition heartbeat_line :: "registry \<Rightarrow> string" where
  "heartbeat_line reg =
     ''heartbeat: listeners='' @ show_nat (length reg) @
     '' accepted='' @ show_u64 (sum_list (map st_accepted reg)) @
     '' active='' @ show_u64 (sum_list (map st_active reg)) @
     '' restarts='' @ show_u64 (sum_list (map st_restarts reg))"

section \<open>Interleavings of updates\<close>

datatype stat_event = Accepted | Closed | Restarted | Errored | Noted string

fun apply_event :: "stat_event \<Rightarrow> listener_stats \<Rightarrow> listener_stats" where
  "apply_event Accepted s = on_accept s"
| "apply_event Closed s = guard_drop s"
| "apply_event Restarted s = inc_restart s"
| "apply_event Errored s = inc_error s"
| "apply_event (Noted e) s = set_last_error e s"

text \<open>The number of live guards after a sequence of events; none when a guard that does not exist
  would be dropped, which ownership rules out.\<close>

fun live_guards :: "nat \<Rightarrow> stat_event list \<Rightarrow> nat option" where
  "live_guards n [] = Some n"
| "live_guards n (Accepted # es) = live_guards (Suc n) es"
| "live_guards n (Closed # es) = (case n of 0 \<Rightarrow> None | Suc m \<Rightarrow> live_guards m es)"
| "live_guards n (_ # es) = live_guards n es"

definition counted_events :: "stat_event \<Rightarrow> stat_event list \<Rightarrow> nat" where
  "counted_events e es = length (filter (\<lambda>x. x = e) es)"

lemma counted_events_simps [simp]:
  "counted_events e [] = 0"
  "counted_events e (x # es) = (if x = e then Suc (counted_events e es) else counted_events e es)"
  by (simp_all add: counted_events_def)

lemma gauge_fold:
  assumes "live_guards n es = Some m" "st_active s = word_of_nat n"
  shows "st_active (fold apply_event es s) = word_of_nat m"
  using assms
proof (induction n es arbitrary: s rule: live_guards.induct)
  case (3 n es)
  then show ?case by (cases n) (auto simp: guard_drop_def)
qed (auto simp: on_accept_def inc_restart_def inc_error_def set_last_error_def)

lemma counters_fold:
  "st_accepted (fold apply_event es s) = st_accepted s + word_of_nat (counted_events Accepted es)"
  "st_restarts (fold apply_event es s) = st_restarts s + word_of_nat (counted_events Restarted es)"
  "st_errors (fold apply_event es s) = st_errors s + word_of_nat (counted_events Errored es)"
proof (induction es arbitrary: s)
  case (Cons e es)
  { case 1 show ?case using Cons by (cases e) (simp_all add: on_accept_def guard_drop_def inc_restart_def inc_error_def set_last_error_def) }
  { case 2 show ?case using Cons by (cases e) (simp_all add: on_accept_def guard_drop_def inc_restart_def inc_error_def set_last_error_def) }
  { case 3 show ?case using Cons by (cases e) (simp_all add: on_accept_def guard_drop_def inc_restart_def inc_error_def set_last_error_def) }
qed simp_all

lemma live_guards_count:
  "live_guards n es = Some m \<Longrightarrow> m + counted_events Closed es = n + counted_events Accepted es"
proof (induction n es arbitrary: m rule: live_guards.induct)
  case (3 n es)
  then show ?case by (cases n) auto
qed auto

text \<open>
  In every interleaving of accepts, closes, restarts and errors in which only live guards are
  dropped, the active gauge is the number of live guards (accepted minus closed) and never goes
  below zero, and the other counters are the numbers of their events, all modulo \<open>2 ^ 64\<close>.
\<close>

theorem stats_count_events:
  assumes "live_guards 0 es = Some m" "s = fold apply_event es (stats_new name proto)"
  shows "st_active s = word_of_nat m \<and> m + counted_events Closed es = counted_events Accepted es \<and>
     st_accepted s = word_of_nat (counted_events Accepted es) \<and>
     st_restarts s = word_of_nat (counted_events Restarted es) \<and>
     st_errors s = word_of_nat (counted_events Errored es)"
  using assms live_guards_count [OF assms(1)] gauge_fold [OF assms(1), of "stats_new name proto"]
  by (simp add: counters_fold stats_new_def)

theorem stats_count_events_witness:
  "st_active (fold apply_event [Accepted, Accepted, Errored, Closed] (stats_new ''tcp://:80'' ''tcp'')) = 1"
proof -
  have "live_guards 0 [Accepted, Accepted, Errored, Closed] = Some 1" by simp
  from stats_count_events [OF this refl, of "''tcp://:80''" "''tcp''"] show ?thesis by simp
qed

end
