(* ===== verification/Relay.thy ===== *)
theory Relay
  imports Rust_Io
begin

text \<open>
  \<open>src/relay.rs\<close>: two copy loops between two streams, the first to finish ends both. A copy loop
  suspends at its read and, inside \<open>write_all\<close>, at each single write, so a step of the relay is one
  read or one write of one direction, in any order, and a direction may be cut off in the middle of
  a chunk when the other finishes. The lemmas show what was delivered, at any moment and when the relay
  ends, and that it ends when the peers do.
\<close>

section \<open>Model\<close>

datatype copy_pc =
    Reading
  | Writing nat bytes
  | Finished "(io_error, u64) result"

record copy_state =
  cp_pc :: copy_pc
  cp_total :: u64

definition copy_start :: copy_state where
  "copy_start = \<lparr>cp_pc = Reading, cp_total = 0\<rparr>"

text \<open>
  One step of \<open>copy_one(r, w, buf_size)\<close>: the states of the loop, of the source and of the sink.
  \<open>Writing n rest\<close> is inside \<open>write_all\<close>, with \<open>rest\<close> left of the \<open>n\<close> bytes read; a single write that
  takes nothing is the error \<open>WriteZero\<close>.
\<close>

definition copy_one :: "'s byte_io \<Rightarrow> nat \<Rightarrow> copy_state \<Rightarrow> 's \<Rightarrow> 's \<Rightarrow> copy_state \<times> 's \<times> 's" where
  "copy_one io buf_size c r w =
     (case cp_pc c of
        Reading \<Rightarrow>
          (case read_some io buf_size r of
             (Inl e, r') \<Rightarrow> (c\<lparr>cp_pc := Finished (Err e)\<rparr>, r', w)
           | (Inr buf, r') \<Rightarrow>
               if length buf = 0 then (c\<lparr>cp_pc := Finished (Ok (cp_total c))\<rparr>, r', w)
               else (c\<lparr>cp_pc := Writing (length buf) buf\<rparr>, r', w))
      | Writing n rest \<Rightarrow>
          (case write_some io rest w of
             (Inl e, w') \<Rightarrow> (c\<lparr>cp_pc := Finished (Err e)\<rparr>, r, w')
           | (Inr k, w') \<Rightarrow>
               if k = 0 then (c\<lparr>cp_pc := Finished (Err write_zero)\<rparr>, r, w')
               else if drop k rest = [] then (c\<lparr>cp_pc := Reading, cp_total := cp_total c + word_of_nat n\<rparr>, r, w')
               else (c\<lparr>cp_pc := Writing n (drop k rest)\<rparr>, r, w'))
      | Finished _ \<Rightarrow> (c, r, w))"

record 's relay =
  side_a :: 's
  side_b :: 's
  copy_ab :: copy_state
  copy_ba :: copy_state

definition relay_start :: "'s \<Rightarrow> 's \<Rightarrow> 's relay" where
  "relay_start a b = \<lparr>side_a = a, side_b = b, copy_ab = copy_start, copy_ba = copy_start\<rparr>"

definition step_ab :: "'s byte_io \<Rightarrow> nat \<Rightarrow> 's relay \<Rightarrow> 's relay" where
  "step_ab io n x =
     (case copy_one io n (copy_ab x) (side_a x) (side_b x) of
        (c, a, b) \<Rightarrow> x\<lparr>copy_ab := c, side_a := a, side_b := b\<rparr>)"

definition step_ba :: "'s byte_io \<Rightarrow> nat \<Rightarrow> 's relay \<Rightarrow> 's relay" where
  "step_ba io n x =
     (case copy_one io n (copy_ba x) (side_b x) (side_a x) of
        (c, b, a) \<Rightarrow> x\<lparr>copy_ba := c, side_b := b, side_a := a\<rparr>)"

fun outcome :: "copy_state \<Rightarrow> (io_error, unit) result option" where
  "outcome c = (case cp_pc c of Finished r \<Rightarrow> Some (and_then r (\<lambda>_. Ok ())) | _ \<Rightarrow> None)"

text \<open>\<open>transport\<close>: the result once a direction has finished, after which nothing moves.\<close>

definition transport_result :: "'s relay \<Rightarrow> (io_error, unit) result option" where
  "transport_result x =
     (case outcome (copy_ab x) of Some r \<Rightarrow> Some r | None \<Rightarrow> outcome (copy_ba x))"

inductive transport :: "'s byte_io \<Rightarrow> nat \<Rightarrow> 's relay \<Rightarrow> 's relay \<Rightarrow> bool"
  for io :: "'s byte_io" and n :: nat where
  ab: "transport_result x = None \<Longrightarrow> transport io n x (step_ab io n x)"
| ba: "transport_result x = None \<Longrightarrow> transport io n x (step_ba io n x)"

text \<open>The same under a given schedule, for evaluation.\<close>

fun run_transport :: "'s byte_io \<Rightarrow> nat \<Rightarrow> bool list \<Rightarrow> 's relay \<Rightarrow> 's relay" where
  "run_transport io n [] x = x"
| "run_transport io n (first # sched) x =
     (if transport_result x \<noteq> None then x
      else run_transport io n sched (if first then step_ab io n x else step_ba io n x))"

section \<open>What is delivered\<close>

definition pending :: "copy_state \<Rightarrow> bytes" where
  "pending c = (case cp_pc c of Writing _ rest \<Rightarrow> rest | _ \<Rightarrow> [])"

text \<open>
  The state of one direction relative to its start: what was taken from the source is what the sink
  was given followed by what is in the buffer (or, after a failed write, by what was lost), the
  total counts the chunks the sink was given completely, and the buffer bound holds.
\<close>

definition direction_ok ::
  "nat \<Rightarrow> bytes \<Rightarrow> bytes \<Rightarrow> copy_state \<Rightarrow> bytes \<Rightarrow> bytes \<Rightarrow> bool" where
  "direction_ok n in0 out0 c inb outb \<longleftrightarrow>
     (\<exists>taken given.
        in0 = taken @ inb \<and> outb = out0 @ given \<and> length (pending c) \<le> n \<and>
        (case cp_pc c of
           Reading \<Rightarrow> taken = given \<and> cp_total c = word_of_nat (length given)
         | Writing k rest \<Rightarrow> taken = given @ rest \<and> cp_total c + word_of_nat k = word_of_nat (length taken)
         | Finished (Inr tot) \<Rightarrow>
             taken = given \<and> tot = word_of_nat (length given) \<and> (0 < n \<longrightarrow> inb = [])
         | Finished (Inl e) \<Rightarrow> prefix given taken))"

lemma direction_start: "direction_ok n inb outb copy_start inb outb"
  by (simp add: direction_ok_def copy_start_def pending_def)

context byte_stream
begin

lemma copy_one_ok:
  assumes ok: "direction_ok n in0 out0 c (inbox r) (outbox w)"
    and step: "copy_one io n c r w = (c', r', w')"
  shows "direction_ok n in0 out0 c' (inbox r') (outbox w')" "outbox r' = outbox r" "inbox w' = inbox w"
proof -
  obtain taken given where d: "in0 = taken @ inbox r" "outbox w = out0 @ given"
    and pc: "case cp_pc c of
           Reading \<Rightarrow> taken = given \<and> cp_total c = word_of_nat (length given)
         | Writing k rest \<Rightarrow> taken = given @ rest \<and> cp_total c + word_of_nat k = word_of_nat (length taken)
         | Finished (Inr tot) \<Rightarrow>
             taken = given \<and> tot = word_of_nat (length given) \<and> (0 < n \<longrightarrow> inbox r = [])
         | Finished (Inl e) \<Rightarrow> prefix given taken"
    using ok by (auto simp: direction_ok_def)
  have "direction_ok n in0 out0 c' (inbox r') (outbox w') \<and> outbox r' = outbox r \<and> inbox w' = inbox w"
  proof (cases "cp_pc c")
    case Reading
    obtain res r1 where rd: "read_some io n r = (res, r1)" by fastforce
    show ?thesis
    proof (cases res)
      case (Inl e)
      with rd some_Err [of n r e r1] obtain lost where lost: "inbox r = lost @ inbox r1" "outbox r1 = outbox r"
        by (auto simp: suffix_def)
      then have "in0 = (taken @ lost) @ inbox r1" "prefix given (taken @ lost)" using d pc Reading by simp_all
      with d lost Inl rd Reading step show ?thesis
        by (auto simp: copy_one_def direction_ok_def pending_def)
    next
      case (Inr buf)
      note rd' = some_Ok [OF rd [unfolded Inr]]
      show ?thesis
      proof (cases "buf = []")
        case True
        then show ?thesis using some_Nil [of n r r1] rd rd' Inr d pc Reading step
          by (auto simp: copy_one_def direction_ok_def pending_def)
      next
        case False
        then show ?thesis using rd rd' Inr d pc Reading step
          by (auto simp: copy_one_def direction_ok_def pending_def)
      qed
    qed
  next
    case (Writing k rest)
    obtain res w1 where wr: "write_some io rest w = (res, w1)" by fastforce
    show ?thesis
    proof (cases res)
      case (Inl e)
      note wr' = one_Err [OF wr [unfolded Inl]]
      have "prefix given taken" using pc Writing by simp
      with d wr' Inl wr Writing step show ?thesis
        by (auto simp: copy_one_def direction_ok_def pending_def)
    next
      case (Inr m)
      note wr' = one_Ok [OF wr [unfolded Inr]]
      have t: "taken = (given @ take m rest) @ drop m rest" "outbox w1 = out0 @ given @ take m rest"
        using d pc wr' Writing by simp_all
      have "length rest \<le> n" using ok Writing by (auto simp: direction_ok_def pending_def)
      with t d pc wr' Inr wr Writing step show ?thesis
        by (auto simp: copy_one_def direction_ok_def pending_def split: if_splits)
    qed
  next
    case (Finished res)
    then show ?thesis using step ok by (auto simp: copy_one_def)
  qed
  then show "direction_ok n in0 out0 c' (inbox r') (outbox w')" "outbox r' = outbox r" "inbox w' = inbox w"
    by blast+
qed

end

definition relay_inv ::
  "('s \<Rightarrow> bytes) \<Rightarrow> ('s \<Rightarrow> bytes) \<Rightarrow> nat \<Rightarrow> 's \<Rightarrow> 's \<Rightarrow> 's relay \<Rightarrow> bool" where
  "relay_inv inbox outbox n a b x \<longleftrightarrow>
     direction_ok n (inbox a) (outbox b) (copy_ab x) (inbox (side_a x)) (outbox (side_b x)) \<and>
     direction_ok n (inbox b) (outbox a) (copy_ba x) (inbox (side_b x)) (outbox (side_a x))"

text \<open>Steps left: a read and a write for each byte that can still be read, and what the loops are in
  the middle of.\<close>

definition pc_weight :: "copy_state \<Rightarrow> nat" where
  "pc_weight c = (case cp_pc c of Reading \<Rightarrow> 1 | Writing _ rest \<Rightarrow> length rest + 1 | Finished _ \<Rightarrow> 0)"

definition relay_bound :: "('s \<Rightarrow> bytes) \<Rightarrow> 's relay \<Rightarrow> nat" where
  "relay_bound inbox x =
     2 * (length (inbox (side_a x)) + length (inbox (side_b x))) +
     pc_weight (copy_ab x) + pc_weight (copy_ba x)"

context byte_stream
begin

lemma transport_inv:
  assumes "relay_inv inbox outbox n a b x" "transport io n x y"
  shows "relay_inv inbox outbox n a b y"
  using assms(2)
proof cases
  case ab
  obtain c r w where s: "copy_one io n (copy_ab x) (side_a x) (side_b x) = (c, r, w)" by (metis prod_cases3)
  show ?thesis using copy_one_ok [OF _ s] assms(1) s ab by (auto simp: relay_inv_def step_ab_def)
next
  case ba
  obtain c r w where s: "copy_one io n (copy_ba x) (side_b x) (side_a x) = (c, r, w)" by (metis prod_cases3)
  show ?thesis using copy_one_ok [OF _ s] assms(1) s ba by (auto simp: relay_inv_def step_ba_def)
qed

lemma copy_one_bound:
  assumes "copy_one io n c r w = (c', r', w')" "\<forall>res. cp_pc c \<noteq> Finished res"
  shows "2 * length (inbox r') + pc_weight c' < 2 * length (inbox r) + pc_weight c" "inbox w' = inbox w"
proof -
  have "2 * length (inbox r') + pc_weight c' < 2 * length (inbox r) + pc_weight c \<and> inbox w' = inbox w"
  proof (cases "cp_pc c")
    case Reading
    obtain res r1 where rd: "read_some io n r = (res, r1)" by fastforce
    show ?thesis
    proof (cases res)
      case (Inl e)
      with rd some_Err [of n r e r1] have "length (inbox r1) \<le> length (inbox r)" by (auto simp: suffix_def)
      with Inl rd Reading assms(1) show ?thesis by (auto simp: copy_one_def pc_weight_def)
    next
      case (Inr buf)
      with rd some_Ok [of n r buf r1] have "length (inbox r) = length buf + length (inbox r1)" by simp
      with Inr rd Reading assms(1) show ?thesis
        by (cases buf) (auto simp: copy_one_def pc_weight_def)
    qed
  next
    case (Writing k rest)
    obtain res w1 where wr: "write_some io rest w = (res, w1)" by fastforce
    then have "inbox w1 = inbox w" using one_Ok [of rest w _ w1] one_Err [of rest w _ w1] by (cases res) auto
    moreover have "m \<le> length rest" if "res = Inr m" for m using that wr one_Ok by blast
    ultimately show ?thesis using wr Writing assms(1)
      by (cases res) (auto simp: copy_one_def pc_weight_def split: if_splits)
  qed (use assms(2) in auto)
  then show "2 * length (inbox r') + pc_weight c' < 2 * length (inbox r) + pc_weight c" "inbox w' = inbox w"
    by blast+
qed

lemma transport_bound:
  assumes "transport io n x y"
  shows "relay_bound inbox y < relay_bound inbox x"
  using assms
proof cases
  case ab
  obtain c r w where s: "copy_one io n (copy_ab x) (side_a x) (side_b x) = (c, r, w)" by (metis prod_cases3)
  have "\<forall>res. cp_pc (copy_ab x) \<noteq> Finished res" using ab by (auto simp: transport_result_def split: option.splits)
  from copy_one_bound [OF s this] show ?thesis using s ab by (simp add: relay_bound_def step_ab_def)
next
  case ba
  obtain c r w where s: "copy_one io n (copy_ba x) (side_b x) (side_a x) = (c, r, w)" by (metis prod_cases3)
  have "\<forall>res. cp_pc (copy_ba x) \<noteq> Finished res" using ba by (auto simp: transport_result_def split: option.splits)
  from copy_one_bound [OF s this] show ?thesis using s ba by (simp add: relay_bound_def step_ba_def)
qed

lemma run_transport_finishes:
  "relay_bound inbox x \<le> length sched \<Longrightarrow> transport_result (run_transport io n sched x) \<noteq> None"
proof (induction sched arbitrary: x)
  case Nil
  then have "relay_bound inbox x = 0" by simp
  then have "pc_weight (copy_ab x) = 0" by (simp add: relay_bound_def)
  then show ?case by (auto simp: pc_weight_def transport_result_def split: copy_pc.splits)
next
  case (Cons first sched)
  let ?y = "if first then step_ab io n x else step_ba io n x"
  show ?case
  proof (cases "transport_result x = None")
    case True
    then have "transport io n x ?y" by (auto intro: transport.intros)
    from transport_bound [OF this] Cons.prems have "relay_bound inbox ?y \<le> length sched" by simp
    from Cons.IH [OF this] True show ?thesis by simp
  qed simp
qed

end

sublocale byte_stream \<subseteq> relaying: machine "\<lambda>x. x = relay_start a b" "transport io n"
  "relay_inv inbox outbox n a b" for a b n
proof unfold_locales
  show "relay_inv inbox outbox n a b x" if "x = relay_start a b" for x
    using that by (simp add: relay_inv_def relay_start_def direction_start)
qed (rule transport_inv)

context byte_stream
begin

lemma relay_reachable:
  "(transport io n)\<^sup>*\<^sup>* (relay_start a b) x \<Longrightarrow> relay_inv inbox outbox n a b x"
  by (rule relaying.inv_reachable [OF refl])

end

lemma run_transport_steps: "(transport io n)\<^sup>*\<^sup>* x (run_transport io n sched x)"
proof (induction sched arbitrary: x)
  case (Cons first sched)
  show ?case
  proof (cases "transport_result x = None")
    case True
    then have "transport io n x (if first then step_ab io n x else step_ba io n x)"
      by (auto intro: transport.intros)
    then show ?thesis using Cons.IH True by (auto intro: converse_rtranclp_into_rtranclp)
  qed simp
qed simp

lemma direction_prefix:
  assumes "direction_ok n in0 out0 c inb outb"
  shows "\<exists>taken given. in0 = taken @ inb \<and> outb = out0 @ given \<and> prefix given taken"
proof (cases "cp_pc c")
  case (Finished r)
  then show ?thesis using assms by (cases r) (auto simp: direction_ok_def)
qed (use assms in \<open>auto simp: direction_ok_def\<close>)

lemma direction_done:
  assumes "direction_ok n in0 out0 c inb outb" "outcome c = Some (Inr u)" "0 < n"
  shows "inb = [] \<and> outb = out0 @ in0"
  using assms by (auto simp: direction_ok_def result_iffs split: copy_pc.splits sum.splits)

context byte_stream
begin

lemma relay_ok_all:
  assumes "(transport io n)\<^sup>*\<^sup>* (relay_start a b) x" "0 < n" "transport_result x = Some (Ok ())"
  shows "(inbox (side_a x) = [] \<and> outbox (side_b x) = outbox b @ inbox a) \<or>
     (inbox (side_b x) = [] \<and> outbox (side_a x) = outbox a @ inbox b)"
proof -
  have "relay_inv inbox outbox n a b x" using relay_reachable [OF assms(1)] .
  moreover have "outcome (copy_ab x) = Some (Ok ()) \<or> outcome (copy_ba x) = Some (Ok ())"
    using assms(3) by (auto simp: transport_result_def split: option.splits)
  ultimately show ?thesis using direction_done assms(2) unfolding relay_inv_def by blast
qed

end

section \<open>Properties\<close>

text \<open>
  C7: At every moment of a relay, in each direction, what the sink was given is a prefix of what was
  taken from the source, which is a prefix of what the source sends: no byte is invented, reordered,
  duplicated or sent to the wrong side, under every interleaving of the two directions.
\<close>

theorem relay_delivers_prefix:
  assumes "byte_stream io inbox outbox" "(transport io n)\<^sup>*\<^sup>* (relay_start a b) x"
  shows "(\<exists>taken given. inbox a = taken @ inbox (side_a x) \<and> outbox (side_b x) = outbox b @ given \<and> prefix given taken) \<and>
     (\<exists>taken given. inbox b = taken @ inbox (side_b x) \<and> outbox (side_a x) = outbox a @ given \<and> prefix given taken)"
  using byte_stream.relay_reachable [OF assms(1,2)] direction_prefix
  unfolding relay_inv_def by metis

definition sample_peer :: "bytes \<Rightarrow> stream" where
  "sample_peer bs = \<lparr>rx = bs, rx_end = None, tx = [], tx_room = None, tx_err = eof_error\<rparr>"

definition sample_relay :: "bool list \<Rightarrow> stream relay" where
  "sample_relay sched = run_transport stream_io 2 sched (relay_start (sample_peer [1, 2, 3]) (sample_peer [7]))"

theorem relay_delivers_prefix_witness:
  "tx (side_b (sample_relay [True, True, False, True])) = [1, 2] \<and>
   (\<exists>taken given. [1, 2, 3] = taken @ rx (side_a (sample_relay [True, True, False, True])) \<and>
      tx (side_b (sample_relay [True, True, False, True])) = given \<and> prefix given taken)"
proof -
  have "(transport stream_io 2)\<^sup>*\<^sup>* (relay_start (sample_peer [1, 2, 3]) (sample_peer [7]))
     (sample_relay [True, True, False, True])"
    unfolding sample_relay_def by (rule run_transport_steps)
  from relay_delivers_prefix [OF peer.byte_stream_axioms this]
  have "\<exists>taken given. [1, 2, 3] = taken @ rx (side_a (sample_relay [True, True, False, True])) \<and>
      tx (side_b (sample_relay [True, True, False, True])) = given \<and> prefix given taken"
    by (simp add: sample_peer_def)
  moreover have "tx (side_b (sample_relay [True, True, False, True])) = [1, 2]" by code_simp
  ultimately show ?thesis by blast
qed

text \<open>
  C8: A relay that returns without an error has delivered one direction completely: everything that
  side sent was written to the other before both are closed. (The buffer must not be empty, which
  the configuration guarantees: a read into an empty buffer returns at once.)
\<close>

theorem relay_ok_delivers_all:
  assumes "byte_stream io inbox outbox" "(transport io n)\<^sup>*\<^sup>* (relay_start a b) x" "0 < n"
    "transport_result x = Some (Ok ())"
  shows "(inbox (side_a x) = [] \<and> outbox (side_b x) = outbox b @ inbox a) \<or>
     (inbox (side_b x) = [] \<and> outbox (side_a x) = outbox a @ inbox b)"
  by (rule byte_stream.relay_ok_all [OF assms])

theorem relay_ok_delivers_all_witness:
  "tx (side_b (sample_relay [True, True, True, True, True])) = [1, 2, 3]"
proof -
  let ?x = "sample_relay [True, True, True, True, True]"
  have steps: "(transport stream_io 2)\<^sup>*\<^sup>* (relay_start (sample_peer [1, 2, 3]) (sample_peer [7])) ?x"
    unfolding sample_relay_def by (rule run_transport_steps)
  have r: "transport_result ?x = Some (Ok ())" by code_simp
  have "rx (side_b ?x) = [7]" by code_simp
  with relay_ok_delivers_all [OF peer.byte_stream_axioms steps _ r] show ?thesis
    by (auto simp: sample_peer_def)
qed

text \<open>
  C9: A relay ends when its peers do: with finite input left, every schedule of at least twice that
  many bytes and two more steps brings the relay to its result, so no half-finished connection is
  kept.
\<close>

theorem relay_terminates:
  assumes "byte_stream io inbox outbox" "2 * (length (inbox a) + length (inbox b)) + 2 \<le> length sched"
  shows "transport_result (run_transport io n sched (relay_start a b)) \<noteq> None"
  by (rule byte_stream.run_transport_finishes [OF assms(1)])
     (use assms(2) in \<open>simp add: relay_bound_def relay_start_def copy_start_def pc_weight_def\<close>)

theorem relay_terminates_witness:
  "transport_result (sample_relay (replicate 10 False)) \<noteq> None"
  unfolding sample_relay_def
  by (rule relay_terminates [OF peer.byte_stream_axioms]) (simp add: sample_peer_def)

end
