(* ===== verification/Supervisor.thy ===== *)
theory Supervisor
  imports Stats Netopt
begin

text \<open>
  \<open>src/supervisor.rs\<close>: the loop that keeps one listener running. A step is what happens between two
  suspension points (or between two reads of the shutdown flag, which another task may set in
  between): \<open>supervise\<close> checks the flag, spawns the serve task, waits for it or for the shutdown,
  handles the outcome, sleeps for the backoff. Time is in milliseconds and passes at suspension
  points. \<open>join_err.is_panic()\<close> and any other join error are two outcomes.
\<close>

section \<open>Model\<close>

datatype serve_outcome = ServeOk | ServeErr string | ServePanic | ServeCancelled

datatype sup_phase =
    Checking
  | Serving millis
  | Deciding millis
  | Sleeping millis
  | Returned

record supervisor =
  sup_phase :: sup_phase
  sup_backoff :: millis
  sup_stats :: listener_stats
  sup_down :: bool
  sup_now :: millis

definition supervise_start :: "listener_stats \<Rightarrow> millis \<Rightarrow> supervisor" where
  "supervise_start stats now =
     \<lparr>sup_phase = Checking, sup_backoff = BACKOFF_INITIAL, sup_stats = stats, sup_down = False, sup_now = now\<rparr>"

text \<open>The top of the loop.\<close>

definition sup_check :: "supervisor \<Rightarrow> supervisor" where
  "sup_check s =
     (if sup_down s then s\<lparr>sup_phase := Returned\<rparr> else s\<lparr>sup_phase := Serving (sup_now s)\<rparr>)"

text \<open>The match on the outcome of the serve task that was started at \<open>started\<close>.\<close>

definition sup_joined :: "serve_outcome \<Rightarrow> millis \<Rightarrow> supervisor \<Rightarrow> supervisor" where
  "sup_joined r started s =
     (case r of
        ServeOk \<Rightarrow> s\<lparr>sup_phase := Returned\<rparr>
      | ServeErr e \<Rightarrow> s\<lparr>sup_stats := set_last_error e (sup_stats s), sup_phase := Deciding started\<rparr>
      | ServePanic \<Rightarrow> s\<lparr>sup_stats := set_last_error ''panic'' (sup_stats s), sup_phase := Deciding started\<rparr>
      | ServeCancelled \<Rightarrow> s\<lparr>sup_phase := Returned\<rparr>)"

text \<open>From the second check of the flag to the sleep; the phase holds when the sleep began.\<close>

definition sup_decide :: "millis \<Rightarrow> supervisor \<Rightarrow> supervisor" where
  "sup_decide started s =
     (if sup_down s then s\<lparr>sup_phase := Returned\<rparr>
      else
        (let b = (if BACKOFF_HEALTHY \<le> sup_now s - started then BACKOFF_INITIAL else sup_backoff s) in
         s\<lparr>sup_backoff := b, sup_stats := inc_restart (sup_stats s), sup_phase := Sleeping (sup_now s)\<rparr>))"

definition sup_wake :: "supervisor \<Rightarrow> supervisor" where
  "sup_wake s = s\<lparr>sup_backoff := min (sup_backoff s * 2) BACKOFF_MAX, sup_phase := Checking\<rparr>"

inductive supervise :: "supervisor \<Rightarrow> supervisor \<Rightarrow> bool" where
  elapse: "supervise s (s\<lparr>sup_now := sup_now s + d\<rparr>)"
| shut: "supervise s (s\<lparr>sup_down := True\<rparr>)"
| check: "sup_phase s = Checking \<Longrightarrow> supervise s (sup_check s)"
| abort: "\<lbrakk>sup_phase s = Serving t; sup_down s\<rbrakk> \<Longrightarrow> supervise s (s\<lparr>sup_phase := Returned\<rparr>)"
| joined: "\<lbrakk>sup_phase s = Serving t; \<not> sup_down s\<rbrakk> \<Longrightarrow> supervise s (sup_joined r t s)"
| decide: "sup_phase s = Deciding t \<Longrightarrow> supervise s (sup_decide t s)"
| cancel: "\<lbrakk>sup_phase s = Sleeping t; sup_down s\<rbrakk> \<Longrightarrow> supervise s (s\<lparr>sup_phase := Returned\<rparr>)"
| wake: "\<lbrakk>sup_phase s = Sleeping t; t + sup_backoff s \<le> sup_now s\<rbrakk> \<Longrightarrow> supervise s (sup_wake s)"

text \<open>
  The steps the supervisor takes itself, for use where the flag and the clock belong to somebody
  else: the whole program of \<open>Lifecycle\<close>.
\<close>

inductive sup_own :: "supervisor \<Rightarrow> supervisor \<Rightarrow> bool" where
  own_check: "sup_phase s = Checking \<Longrightarrow> sup_own s (sup_check s)"
| own_abort: "\<lbrakk>sup_phase s = Serving t; sup_down s\<rbrakk> \<Longrightarrow> sup_own s (s\<lparr>sup_phase := Returned\<rparr>)"
| own_joined: "\<lbrakk>sup_phase s = Serving t; \<not> sup_down s\<rbrakk> \<Longrightarrow> sup_own s (sup_joined r t s)"
| own_decide: "sup_phase s = Deciding t \<Longrightarrow> sup_own s (sup_decide t s)"
| own_cancel: "\<lbrakk>sup_phase s = Sleeping t; sup_down s\<rbrakk> \<Longrightarrow> sup_own s (s\<lparr>sup_phase := Returned\<rparr>)"
| own_wake: "\<lbrakk>sup_phase s = Sleeping t; t + sup_backoff s \<le> sup_now s\<rbrakk> \<Longrightarrow> sup_own s (sup_wake s)"

lemma sup_own_supervise: "sup_own s t \<Longrightarrow> supervise s t"
  by (erule sup_own.cases) (auto intro: supervise.intros)

lemma supervise_own: "supervise s t \<Longrightarrow> sup_own s t \<or> (\<exists>d. t = s\<lparr>sup_now := sup_now s + d\<rparr>) \<or> t = s\<lparr>sup_down := True\<rparr>"
  by (erule supervise.cases) (auto intro: sup_own.intros)

lemma sup_own_frame: "sup_own s t \<Longrightarrow> sup_down t = sup_down s \<and> sup_now t = sup_now s"
  by (erule sup_own.cases)
     (auto simp: sup_check_def sup_joined_def sup_decide_def sup_wake_def Let_def split: serve_outcome.splits)

section \<open>The backoff\<close>

definition is_backoff :: "millis \<Rightarrow> bool" where
  "is_backoff b \<longleftrightarrow> (\<exists>k. b = min (BACKOFF_INITIAL * 2 ^ k) BACKOFF_MAX)"

lemma is_backoff_initial: "is_backoff BACKOFF_INITIAL"
  unfolding is_backoff_def by (rule exI [of _ 0]) (simp add: BACKOFF_INITIAL_def BACKOFF_MAX_def)

lemma is_backoff_double: "is_backoff b \<Longrightarrow> is_backoff (min (b * 2) BACKOFF_MAX)"
  unfolding is_backoff_def
  by (elim exE, rule_tac x = "Suc k" in exI) (simp add: BACKOFF_MAX_def BACKOFF_INITIAL_def min_def)

lemma is_backoff_range: "is_backoff b \<Longrightarrow> BACKOFF_INITIAL \<le> b \<and> b \<le> BACKOFF_MAX"
  by (auto simp: is_backoff_def BACKOFF_INITIAL_def BACKOFF_MAX_def)

lemmas sup_step_defs = sup_check_def sup_joined_def sup_decide_def sup_wake_def Let_def

interpretation backing_off: machine "\<lambda>s. \<exists>st now. s = supervise_start st now" supervise
  "\<lambda>s. is_backoff (sup_backoff s)"
proof unfold_locales
  show "is_backoff (sup_backoff t)" if inv: "is_backoff (sup_backoff s)" and "supervise s t" for s t
    using that(2) by cases
      (use inv in \<open>auto simp: sup_step_defs is_backoff_initial is_backoff_double split: serve_outcome.splits\<close>)
qed (auto simp: supervise_start_def is_backoff_initial)

section \<open>Restarts\<close>

text \<open>
  One failure and restart in a run without shutdown: the serve task is started, runs for \<open>d\<close> and
  ends with \<open>r\<close>, and the supervisor sleeps exactly as long as it must.
\<close>

definition pass_time :: "millis \<Rightarrow> supervisor \<Rightarrow> supervisor" where
  "pass_time d s = s\<lparr>sup_now := sup_now s + d\<rparr>"

definition fail_cycle :: "serve_outcome \<Rightarrow> millis \<Rightarrow> supervisor \<Rightarrow> supervisor" where
  "fail_cycle r d s =
     (let s1 = pass_time d (sup_check s);
          s2 = sup_decide (sup_now s) (sup_joined r (sup_now s) s1)
      in sup_wake (pass_time (sup_backoff s2) s2))"

fun fail_cycles :: "(serve_outcome \<times> millis) list \<Rightarrow> supervisor \<Rightarrow> supervisor" where
  "fail_cycles [] s = s"
| "fail_cycles ((r, d) # fs) s = fail_cycles fs (fail_cycle r d s)"

definition failing :: "serve_outcome \<Rightarrow> bool" where
  "failing r \<longleftrightarrow> r \<noteq> ServeOk \<and> r \<noteq> ServeCancelled"

lemma pass_time_step: "supervise s (pass_time d s)"
  unfolding pass_time_def by (rule supervise.elapse)

lemma fail_cycle_steps:
  assumes "sup_phase s = Checking" "\<not> sup_down s" "failing r"
  shows "supervise\<^sup>*\<^sup>* s (fail_cycle r d s)"
proof -
  let ?t = "sup_now s" and ?s1 = "pass_time d (sup_check s)"
  let ?s2 = "sup_joined r ?t ?s1"
  let ?s3 = "sup_decide ?t ?s2"
  have c: "supervise s (sup_check s)" using assms by (intro supervise.check)
  have p1: "sup_phase ?s1 = Serving ?t" "\<not> sup_down ?s1" using assms by (simp_all add: sup_check_def pass_time_def)
  have j: "supervise ?s1 ?s2" using p1 by (intro supervise.joined)
  have p2: "sup_phase ?s2 = Deciding ?t" "\<not> sup_down ?s2"
    using assms(3) p1 by (cases r; simp add: sup_joined_def failing_def)+
  have d: "supervise ?s2 ?s3" using p2 by (intro supervise.decide)
  have p3: "sup_phase ?s3 = Sleeping (sup_now ?s3)" using p2 by (simp add: sup_decide_def Let_def)
  have "supervise (pass_time (sup_backoff ?s3) ?s3) (sup_wake (pass_time (sup_backoff ?s3) ?s3))"
    by (rule supervise.wake [of _ "sup_now ?s3"]) (use p3 in \<open>simp_all add: pass_time_def\<close>)
  with c pass_time_step [of "sup_check s" d] j d pass_time_step [of ?s3 "sup_backoff ?s3"] show ?thesis
    unfolding fail_cycle_def Let_def by (meson converse_rtranclp_into_rtranclp r_into_rtranclp)
qed

lemma fail_cycle_effect:
  assumes "sup_phase s = Checking" "\<not> sup_down s" "failing r"
  shows "sup_phase (fail_cycle r d s) = Checking" "\<not> sup_down (fail_cycle r d s)"
    "st_restarts (sup_stats (fail_cycle r d s)) = st_restarts (sup_stats s) + 1"
    "sup_backoff (fail_cycle r d s) =
       min (2 * (if BACKOFF_HEALTHY \<le> d then BACKOFF_INITIAL else sup_backoff s)) BACKOFF_MAX"
    "sup_now (fail_cycle r d s) =
       sup_now s + d + (if BACKOFF_HEALTHY \<le> d then BACKOFF_INITIAL else sup_backoff s)"
proof -
  obtain e where j: "\<And>t x. sup_joined r t x =
      x\<lparr>sup_stats := set_last_error e (sup_stats x), sup_phase := Deciding t\<rparr>"
    using assms(3) by (cases r) (auto simp: sup_joined_def failing_def)
  have c: "sup_check s = s\<lparr>sup_phase := Serving (sup_now s)\<rparr>" using assms by (simp add: sup_check_def)
  note eqs = fail_cycle_def Let_def pass_time_def sup_decide_def sup_wake_def inc_restart_def
    set_last_error_def c j
  show "sup_phase (fail_cycle r d s) = Checking" "\<not> sup_down (fail_cycle r d s)"
    using assms(2) by (simp_all add: eqs)
  show "st_restarts (sup_stats (fail_cycle r d s)) = st_restarts (sup_stats s) + 1"
    using assms(2) by (simp add: eqs)
  show "sup_backoff (fail_cycle r d s) =
       min (2 * (if BACKOFF_HEALTHY \<le> d then BACKOFF_INITIAL else sup_backoff s)) BACKOFF_MAX"
    using assms(2) by (simp add: eqs mult.commute)
  show "sup_now (fail_cycle r d s) =
       sup_now s + d + (if BACKOFF_HEALTHY \<le> d then BACKOFF_INITIAL else sup_backoff s)"
    using assms(2) by (simp add: eqs)
qed

lemma fail_cycles_run:
  assumes "sup_phase s = Checking" "\<not> sup_down s" "list_all (\<lambda>(r, d). failing r) fs"
  shows "supervise\<^sup>*\<^sup>* s (fail_cycles fs s) \<and> sup_phase (fail_cycles fs s) = Checking \<and>
     \<not> sup_down (fail_cycles fs s) \<and>
     st_restarts (sup_stats (fail_cycles fs s)) = st_restarts (sup_stats s) + word_of_nat (length fs)"
  using assms
proof (induction fs s rule: fail_cycles.induct)
  case (2 r d fs s)
  then have "failing r" by simp
  note e = fail_cycle_effect [OF 2(2,3) this, of d] fail_cycle_steps [OF 2(2,3) this, of d]
  from 2(1) [OF e(1,2)] 2(4) e(3)
  have t: "supervise\<^sup>*\<^sup>* (fail_cycle r d s) (fail_cycles fs (fail_cycle r d s))"
    and "sup_phase (fail_cycles fs (fail_cycle r d s)) = Checking \<and>
     \<not> sup_down (fail_cycles fs (fail_cycle r d s)) \<and>
     st_restarts (sup_stats (fail_cycles fs (fail_cycle r d s))) =
       st_restarts (sup_stats s) + 1 + word_of_nat (length fs)" by simp_all
  with rtranclp_trans [OF e(6) t] show ?case by (simp add: add.assoc)
qed simp

lemma min_double_cap: "min (2 * min (a * 2 ^ k) m) m = min (a * 2 ^ Suc k) (m :: nat)"
  by (auto simp: min_def)

lemma fail_cycles_backoff:
  assumes "sup_phase s = Checking" "\<not> sup_down s" "list_all (\<lambda>(r, d). failing r \<and> d < BACKOFF_HEALTHY) fs"
    "sup_backoff s = min (BACKOFF_INITIAL * 2 ^ k) BACKOFF_MAX"
  shows "sup_backoff (fail_cycles fs s) = min (BACKOFF_INITIAL * 2 ^ (k + length fs)) BACKOFF_MAX"
  using assms
proof (induction fs s arbitrary: k rule: fail_cycles.induct)
  case (2 r d fs s)
  then have r: "failing r" "\<not> BACKOFF_HEALTHY \<le> d" by auto
  note e = fail_cycle_effect [OF 2(2,3) r(1), of d]
  have "sup_backoff (fail_cycle r d s) = min (BACKOFF_INITIAL * 2 ^ Suc k) BACKOFF_MAX"
    using e(4) r(2) 2(5) min_double_cap by simp
  from 2(1) [OF e(1,2) _ this] 2(4) show ?case by simp
qed simp

section \<open>Spacing and shutdown\<close>

definition spaced :: "millis \<Rightarrow> supervisor \<Rightarrow> bool" where
  "spaced t0 s \<longleftrightarrow>
     is_backoff (sup_backoff s) \<and> t0 \<le> sup_now s \<and>
     (case sup_phase s of
        Checking \<Rightarrow> t0 + BACKOFF_INITIAL \<le> sup_now s
      | Serving t \<Rightarrow> t = t0 \<or> t0 + BACKOFF_INITIAL \<le> t
      | Deciding t \<Rightarrow> True
      | Sleeping t \<Rightarrow> t0 \<le> t
      | Returned \<Rightarrow> True)"

lemma spaced_step: "\<lbrakk>spaced t0 s; supervise s t\<rbrakk> \<Longrightarrow> spaced t0 t"
proof -
  assume inv: "spaced t0 s" and step: "supervise s t"
  have b: "is_backoff (sup_backoff t)"
    using backing_off.inv_step [OF _ step] inv by (simp add: spaced_def)
  from step show "spaced t0 t"
  proof cases
    case (wake u)
    then show ?thesis using inv b is_backoff_range [of "sup_backoff s"]
      by (auto simp: spaced_def sup_wake_def)
  next
    case (elapse d)
    then show ?thesis using inv b by (auto simp: spaced_def split: sup_phase.splits)
  next
    case (joined u r)
    then show ?thesis using inv b by (cases r) (auto simp: spaced_def sup_joined_def)
  qed (use inv b in \<open>auto simp: spaced_def sup_check_def sup_decide_def Let_def split: sup_phase.splits\<close>)
qed

interpretation spacing: machine "\<lambda>s. sup_phase s = Serving t0 \<and> t0 \<le> sup_now s \<and> is_backoff (sup_backoff s)"
  supervise "spaced t0" for t0
proof unfold_locales
  show "spaced t0 s" if "sup_phase s = Serving t0 \<and> t0 \<le> sup_now s \<and> is_backoff (sup_backoff s)" for s
    using that by (simp add: spaced_def)
qed (rule spaced_step)

definition not_serving :: "supervisor \<Rightarrow> bool" where
  "not_serving s \<longleftrightarrow> (\<forall>t. sup_phase s \<noteq> Serving t)"

interpretation stopping: machine "\<lambda>s. sup_down s \<and> sup_phase s = p" supervise
  "\<lambda>s. sup_down s \<and> (sup_phase s = p \<or> not_serving s)" for p
proof unfold_locales
  show "sup_down t \<and> (sup_phase t = p \<or> not_serving t)"
    if inv: "sup_down s \<and> (sup_phase s = p \<or> not_serving s)" and "supervise s t" for s t
    using that(2) by cases
      (use inv in \<open>auto simp: not_serving_def sup_step_defs split: serve_outcome.splits\<close>)
qed simp

lemma down_can_return: "sup_down s \<Longrightarrow> \<exists>s'. supervise\<^sup>*\<^sup>* s s' \<and> sup_phase s' = Returned"
proof (cases "sup_phase s")
  case Checking
  moreover assume "sup_down s"
  ultimately show ?thesis using supervise.check [of s]
    by (intro exI [of _ "sup_check s"]) (auto simp: sup_check_def)
next
  case (Serving t)
  moreover assume "sup_down s"
  ultimately show ?thesis using supervise.abort [of s t]
    by (intro exI [of _ "s\<lparr>sup_phase := Returned\<rparr>"]) auto
next
  case (Deciding t)
  moreover assume "sup_down s"
  ultimately show ?thesis using supervise.decide [of s t]
    by (intro exI [of _ "sup_decide t s"]) (auto simp: sup_decide_def)
next
  case (Sleeping t)
  moreover assume "sup_down s"
  ultimately show ?thesis using supervise.cancel [of s t]
    by (intro exI [of _ "s\<lparr>sup_phase := Returned\<rparr>"]) auto
qed blast

section \<open>Properties\<close>

text \<open>
  At every moment the backoff is one of 100, 200, 400, ... milliseconds capped at 5 seconds:
  between \<open>BACKOFF_INITIAL\<close> and \<open>BACKOFF_MAX\<close>, however often the listener fails and whenever it was
  healthy.
\<close>

theorem backoff_bounded:
  assumes "supervise\<^sup>*\<^sup>* (supervise_start st now) s"
  shows "(\<exists>k. sup_backoff s = min (BACKOFF_INITIAL * 2 ^ k) BACKOFF_MAX) \<and>
     BACKOFF_INITIAL \<le> sup_backoff s \<and> sup_backoff s \<le> BACKOFF_MAX"
  using backing_off.inv_reachable [OF _ assms] is_backoff_range
  unfolding is_backoff_def [symmetric] by blast

theorem backoff_bounded_witness:
  "sup_backoff (fail_cycle ServePanic 0 (supervise_start (stats_new ''tcp://:80'' ''tcp'') 0)) = 200 \<and>
   (\<exists>k. (200 :: nat) = min (BACKOFF_INITIAL * 2 ^ k) BACKOFF_MAX)"
proof -
  let ?s = "supervise_start (stats_new ''tcp://:80'' ''tcp'') 0"
  have "supervise\<^sup>*\<^sup>* ?s (fail_cycle ServePanic 0 ?s)"
    by (rule fail_cycle_steps) code_simp+
  moreover have "sup_backoff (fail_cycle ServePanic 0 ?s) = 200" by code_simp
  ultimately show ?thesis using backoff_bounded [of "stats_new ''tcp://:80'' ''tcp''" 0] by metis
qed

text \<open>
  A listener that keeps failing or panicking is restarted every time, whatever the errors are:
  after \<open>n\<close> failures the supervisor is ready to serve again, has counted \<open>n\<close> restarts, and, when no
  run was healthy, the next backoff is \<open>100 * 2 ^ n\<close> milliseconds capped at 5 seconds.
\<close>

theorem failures_are_restarted:
  assumes "list_all (\<lambda>(r, d). failing r \<and> d < BACKOFF_HEALTHY) fs"
  shows "\<exists>s. supervise\<^sup>*\<^sup>* (supervise_start st now) s \<and> s = fail_cycles fs (supervise_start st now) \<and>
     sup_phase s = Checking \<and> st_restarts (sup_stats s) = st_restarts st + word_of_nat (length fs) \<and>
     sup_backoff s = min (BACKOFF_INITIAL * 2 ^ length fs) BACKOFF_MAX"
proof -
  have s: "sup_phase (supervise_start st now) = Checking" "\<not> sup_down (supervise_start st now)"
    "sup_stats (supervise_start st now) = st"
    "sup_backoff (supervise_start st now) = min (BACKOFF_INITIAL * 2 ^ 0) BACKOFF_MAX"
    by (simp_all add: supervise_start_def BACKOFF_INITIAL_def BACKOFF_MAX_def)
  have "list_all (\<lambda>(r, d). failing r) fs" using assms by (auto simp: list_all_iff)
  from fail_cycles_run [OF s(1,2) this] fail_cycles_backoff [OF s(1,2) assms s(4)] s(3)
  show ?thesis by simp
qed

theorem failures_are_restarted_witness:
  "sup_backoff (fail_cycles [(ServeErr ''bind failed'', 0), (ServePanic, 5)]
     (supervise_start (stats_new ''tcp://:80'' ''tcp'') 0)) = 400"
proof -
  have "list_all (\<lambda>(r, d). failing r \<and> d < BACKOFF_HEALTHY) [(ServeErr ''bind failed'', 0), (ServePanic, 5)]"
    by (simp add: failing_def BACKOFF_HEALTHY_def)
  from failures_are_restarted [OF this, of "stats_new ''tcp://:80'' ''tcp''" 0] show ?thesis
    by (auto simp: BACKOFF_INITIAL_def BACKOFF_MAX_def)
qed

text \<open>The serve task was started in the past.\<close>

lemma serving_began:
  assumes "supervise\<^sup>*\<^sup>* (supervise_start st now) s" "sup_phase s = Serving t"
  shows "t \<le> sup_now s"
  using assms
proof (induction arbitrary: t rule: rtranclp_induct)
  case (step s s')
  from step(2) step(3,4) show ?case
    by cases (auto simp: sup_step_defs split: if_splits serve_outcome.splits)
qed (simp add: supervise_start_def)

text \<open>
  C22: There is no restart storm: two starts of the serve task are at least \<open>BACKOFF_INITIAL\<close> apart,
  even when the task fails or panics at once every time.
\<close>

theorem restarts_are_spaced:
  assumes "supervise\<^sup>*\<^sup>* (supervise_start st now) s" "sup_phase s = Serving t0"
    "supervise\<^sup>*\<^sup>* s s'" "sup_phase s' = Serving t" "t \<noteq> t0"
  shows "t0 + BACKOFF_INITIAL \<le> t"
proof -
  have "is_backoff (sup_backoff s)" using backing_off.inv_reachable [OF _ assms(1)] by blast
  then have "spaced t0 s'"
    using spacing.inv_reachable [OF _ assms(3)] assms(2) serving_began [OF assms(1,2)] by blast
  then show ?thesis using assms(4,5) by (simp add: spaced_def)
qed

theorem restarts_are_spaced_witness:
  "\<exists>s s' t. sup_phase s = Serving 0 \<and> supervise\<^sup>*\<^sup>* s s' \<and> sup_phase s' = Serving t \<and> 0 + BACKOFF_INITIAL \<le> t"
proof -
  let ?start = "supervise_start (stats_new ''tcp://:80'' ''tcp'') 0"
  let ?run = "sup_check ?start"
  let ?j = "sup_joined ServePanic 0 ?run" let ?d = "sup_decide 0 ?j"
  let ?p = "pass_time 100 ?d" let ?w = "sup_wake ?p" let ?again = "sup_check ?w"
  have "supervise ?start ?run" by (rule supervise.check) code_simp
  then have a: "supervise\<^sup>*\<^sup>* ?start ?run" by (rule r_into_rtranclp)
  have p: "sup_phase ?run = Serving 0" "sup_phase ?again = Serving 100" by code_simp+
  have "supervise ?run ?j" by (rule supervise.joined) code_simp+
  moreover have "supervise ?j ?d" by (rule supervise.decide) code_simp
  moreover have "supervise ?d ?p" by (rule pass_time_step)
  moreover have "supervise ?p ?w" by (rule supervise.wake [of _ 0]) code_simp+
  moreover have "supervise ?w ?again" by (rule supervise.check) code_simp
  ultimately have st: "supervise\<^sup>*\<^sup>* ?run ?again" by (meson converse_rtranclp_into_rtranclp r_into_rtranclp)
  have "0 + BACKOFF_INITIAL \<le> (100 :: millis)"
    using restarts_are_spaced [OF a p(1) st p(2)] by simp
  with p st show ?thesis by blast
qed

text \<open>
  After a shutdown nothing is served again: no serve task is started once the flag is set (one
  that runs is at most still the same one), and from every state the supervisor can return.
\<close>

theorem shutdown_stops_serving:
  assumes "sup_down s" "supervise\<^sup>*\<^sup>* s s'"
  shows "(sup_phase s' = sup_phase s \<or> not_serving s') \<and>
     (\<exists>s''. supervise\<^sup>*\<^sup>* s' s'' \<and> sup_phase s'' = Returned)"
  using stopping.inv_reachable [OF _ assms(2), of "sup_phase s"] assms(1) down_can_return by blast

theorem shutdown_stops_serving_witness:
  "\<exists>s'. supervise\<^sup>*\<^sup>* ((supervise_start (stats_new ''tcp://:80'' ''tcp'') 0)\<lparr>sup_down := True\<rparr>) s' \<and>
     sup_phase s' = Returned"
proof -
  have "sup_down ((supervise_start (stats_new ''tcp://:80'' ''tcp'') 0)\<lparr>sup_down := True\<rparr>)" by simp
  from shutdown_stops_serving [OF this rtranclp.rtrancl_refl] show ?thesis by blast
qed

end
