(* ===== verification/Round_Robin.thy ===== *)
theory Round_Robin
  imports Gust_Prelude
begin

text \<open>
  The interface of target selection shared by the TCP and the UDP forwarder: a counter of machine
  width and a non-empty list of targets; the counter advances only when there is a choice. \<open>None\<close>
  is the panic of a remainder by zero on an empty list.
\<close>

fun picks :: "('t list \<Rightarrow> u64 \<Rightarrow> ('t \<times> u64) option) \<Rightarrow> nat \<Rightarrow> 't list \<Rightarrow> u64 \<Rightarrow> ('t list \<times> u64) option" where
  "picks pick 0 ts rr = Some ([], rr)"
| "picks pick (Suc n) ts rr =
     (case pick ts rr of
        None \<Rightarrow> None
      | Some (t, rr') \<Rightarrow> map_option (\<lambda>(us, r). (t # us, r)) (picks pick n ts rr'))"

lemma unat_plus_one: "unat (rr :: u64) + 1 < 2 ^ 64 \<Longrightarrow> unat (rr + 1) = unat rr + 1"
  by (simp add: unat_word_ariths)

locale round_robin =
  fixes pick :: "'t list \<Rightarrow> u64 \<Rightarrow> ('t \<times> u64) option"
  assumes pick_one: "pick [t] rr = Some (t, rr)"
    and pick_many: "2 \<le> length ts \<Longrightarrow> pick ts rr = Some (ts ! (unat rr mod length ts), rr + 1)"
begin

lemma pick_target_eq:
  "ts \<noteq> [] \<Longrightarrow> pick ts rr = Some (ts ! (unat rr mod length ts), if length ts = 1 then rr else rr + 1)"
proof (cases "length ts = 1")
  case False
  moreover assume "ts \<noteq> []"
  ultimately have "2 \<le> length ts" by (cases ts) (auto simp: Suc_le_eq)
  then show ?thesis using False by (simp add: pick_many)
qed (auto simp: length_Suc_conv pick_one)

lemma pick_in_targets: "\<lbrakk>ts \<noteq> []; pick ts rr = Some (t, rr')\<rbrakk> \<Longrightarrow> t \<in> set ts"
  by (auto simp: pick_target_eq)

lemma picks_eq:
  assumes "ts \<noteq> []" "unat rr + n < 2 ^ 64"
  shows "map_option fst (picks pick n ts rr) = Some (map (\<lambda>k. ts ! ((unat rr + k) mod length ts)) [0..<n])"
  using assms(2)
proof (induction n arbitrary: rr)
  case (Suc n)
  show ?case
  proof (cases "length ts = 1")
    case True
    then obtain t where ts: "ts = [t]" by (auto simp: length_Suc_conv)
    have "map_option fst (picks pick n ts rr) = Some (map (\<lambda>k. ts ! ((unat rr + k) mod length ts)) [0..<n])"
      using Suc by simp
    then show ?thesis using ts
      by (auto simp: pick_one map_replicate_const split: prod.splits simp flip: replicate_Suc)
  next
    case False
    then have l: "2 \<le> length ts" using assms(1) by (cases ts) (auto simp: Suc_le_eq)
    have u: "unat (rr + 1) = unat rr + 1" using Suc.prems by (intro unat_plus_one) simp
    have "map_option fst (picks pick n ts (rr + 1)) =
        Some (map (\<lambda>k. ts ! ((unat rr + 1 + k) mod length ts)) [0..<n])"
      using Suc.IH [of "rr + 1"] Suc.prems u by simp
    moreover have "map (\<lambda>k. ts ! ((unat rr + k) mod length ts)) [0..<Suc n] =
        ts ! (unat rr mod length ts) # map (\<lambda>k. ts ! ((unat rr + 1 + k) mod length ts)) [0..<n]"
      by (simp only: upt_conv_Cons [of 0 "Suc n"] map_Suc_upt [symmetric]) (simp add: comp_def)
    ultimately show ?thesis
      by (auto simp: pick_many [OF l] split: prod.splits)
  qed
qed simp

lemma picks_rotate:
  assumes "ts \<noteq> []" "unat rr + length ts < 2 ^ 64"
  shows "map_option fst (picks pick (length ts) ts rr) = Some (rotate (unat rr) ts)"
  unfolding picks_eq [OF assms]
  by (auto intro!: nth_equalityI simp: nth_rotate)

end

end
