(* ===== verification/Tcp.thy ===== *)
theory Tcp
  imports Round_Robin Stats Chain Relay
begin

text \<open>
  \<open>src/forward/tcp.rs\<close>: the accept loop of a TCP listener and the task of one connection. The loop
  and the connection tasks interleave; a step is an accept, a failed accept, the start of a task (it
  takes its guard then) or its end. \<open>usize\<close> is 64 bits wide.
\<close>

section \<open>Model\<close>

definition pick_target :: "string list \<Rightarrow> u64 \<Rightarrow> (string \<times> u64) option" where
  "pick_target tgts rr =
     (if length tgts = 1 then Some (tgts ! 0, rr)
      else if length tgts = 0 then None
      else Some (tgts ! (unat rr mod length tgts), rr + 1))"

interpretation tcp_rr: round_robin pick_target
  by unfold_locales (auto simp: pick_target_def)

text \<open>
  \<open>handle_conn\<close>, under a schedule of the relay: the error that ends it early, or the relay with its
  result (none while the schedule has not brought it to an end). \<open>None\<close> is a panic.
\<close>

definition dial_error :: "string \<Rightarrow> io_error \<Rightarrow> io_error" where
  "dial_error target e = io_new (io_kind e) (''dial '' @ target @ '' failed: '' @ io_msg e)"

definition handle_conn ::
  "'s net_env \<Rightarrow> run_context \<Rightarrow> 's \<Rightarrow> string \<Rightarrow> bool list \<Rightarrow> trace \<Rightarrow>
     ((io_error, 's relay) result \<times> trace) option" where
  "handle_conn env ctx client target sched tr =
     (case tune_accepted (e_os env) (ctx_sock ctx) tr of
        (Inl e, tr1) \<Rightarrow> Some (Err e, tr1)
      | (Inr _, tr1) \<Rightarrow>
          (case dialer_connect env (ctx_dialer ctx) target of
             None \<Rightarrow> None
           | Some run \<Rightarrow>
               (case run tr1 of
                  (Inl e, tr2) \<Rightarrow> Some (Err (dial_error target e), tr2)
                | (Inr backend, tr2) \<Rightarrow>
                    Some (Ok (run_transport (e_io env) (unat (ctx_buf_size ctx)) sched
                                (relay_start client backend)), tr2))))"

definition conn_result :: "(io_error, 's relay) result \<Rightarrow> (io_error, unit) result option" where
  "conn_result r = (case r of Inl e \<Rightarrow> Some (Err e) | Inr x \<Rightarrow> transport_result x)"

text \<open>The accept loop and its connection tasks.\<close>

datatype conn_task = Spawned string | Running string

datatype task_end = ConnOk | ConnErr | ConnPanic

record tcp_listener =
  tl_listening :: bool
  tl_rr :: u64
  tl_stats :: listener_stats
  tl_next :: nat
  tl_tasks :: "nat \<rightharpoonup> conn_task"

text \<open>\<open>serve\<close> up to its loop: the bind error is passed to the supervisor with its kind kept.\<close>

definition bind_error :: "string \<Rightarrow> io_error \<Rightarrow> io_error" where
  "bind_error bind e = io_new (io_kind e) (''bind '' @ bind @ '' failed: '' @ io_msg e)"

definition tcp_serve :: "(io_error, unit) result \<Rightarrow> listener_spec \<Rightarrow> listener_stats \<Rightarrow> (io_error, tcp_listener) result" where
  "tcp_serve bound spec stats =
     and_then (map_err (bind_error (l_bind spec)) bound) (\<lambda>_.
       Ok \<lparr>tl_listening = True, tl_rr = 0, tl_stats = stats, tl_next = 0, tl_tasks = Map.empty\<rparr>)"

definition tcp_accept :: "string list \<Rightarrow> tcp_listener \<Rightarrow> tcp_listener option" where
  "tcp_accept tgts s =
     (case pick_target tgts (tl_rr s) of
        None \<Rightarrow> None
      | Some (target, rr) \<Rightarrow>
          Some (s\<lparr>tl_rr := rr, tl_next := tl_next s + 1, tl_tasks := (tl_tasks s)(tl_next s \<mapsto> Spawned target)\<rparr>))"

definition tcp_accept_error :: "tcp_listener \<Rightarrow> tcp_listener" where
  "tcp_accept_error s = s\<lparr>tl_stats := inc_error (tl_stats s)\<rparr>"

definition task_begin :: "nat \<Rightarrow> string \<Rightarrow> tcp_listener \<Rightarrow> tcp_listener" where
  "task_begin i target s =
     s\<lparr>tl_stats := on_accept (tl_stats s), tl_tasks := (tl_tasks s)(i \<mapsto> Running target)\<rparr>"

definition task_finish :: "nat \<Rightarrow> task_end \<Rightarrow> tcp_listener \<Rightarrow> tcp_listener" where
  "task_finish i r s =
     s\<lparr>tl_stats := guard_drop (if r = ConnErr then inc_error (tl_stats s) else tl_stats s),
        tl_tasks := (tl_tasks s)(i := None)\<rparr>"

inductive tcp_step :: "string list \<Rightarrow> tcp_listener \<Rightarrow> tcp_listener \<Rightarrow> bool" for tgts :: "string list" where
  accept: "\<lbrakk>tl_listening s; tcp_accept tgts s = Some t\<rbrakk> \<Longrightarrow> tcp_step tgts s t"
| accept_error: "tl_listening s \<Longrightarrow> tcp_step tgts s (tcp_accept_error s)"
| start_task: "tl_tasks s i = Some (Spawned target) \<Longrightarrow> tcp_step tgts s (task_begin i target s)"
| end_task: "tl_tasks s i = Some (Running target) \<Longrightarrow> tcp_step tgts s (task_finish i r s)"
| stop: "tl_listening s \<Longrightarrow> tcp_step tgts s (s\<lparr>tl_listening := False\<rparr>)"

section \<open>The listener's invariant\<close>

definition running :: "tcp_listener \<Rightarrow> nat set" where
  "running s = {i. \<exists>target. tl_tasks s i = Some (Running target)}"

fun task_target :: "conn_task \<Rightarrow> string" where
  "task_target (Spawned t) = t"
| "task_target (Running t) = t"

definition tcp_inv :: "string list \<Rightarrow> tcp_listener \<Rightarrow> bool" where
  "tcp_inv tgts s \<longleftrightarrow>
     finite (running s) \<and>
     st_active (tl_stats s) = word_of_nat (card (running s)) \<and>
     (length tgts = 1 \<or> tl_rr s = word_of_nat (tl_next s)) \<and>
     (\<forall>i task. tl_tasks s i = Some task \<longrightarrow>
        i < tl_next s \<and> task_target task = tgts ! (i mod 2 ^ 64 mod length tgts))"

lemma running_accept: "tl_tasks s i = None \<Longrightarrow> running (s\<lparr>tl_rr := rr, tl_next := n, tl_tasks := (tl_tasks s)(i \<mapsto> Spawned t)\<rparr>) = running s"
  by (auto simp: running_def)

lemma running_begin: "running (task_begin i t s) = insert i (running s)"
  by (auto simp: running_def task_begin_def)

lemma running_finish: "running (task_finish i r s) = running s - {i}"
  by (auto simp: running_def task_finish_def split: if_splits)

lemma active_drop: "\<lbrakk>finite A; i \<in> A\<rbrakk> \<Longrightarrow> (word_of_nat (card A) - 1 :: u64) = word_of_nat (card (A - {i}))"
  by (metis add_diff_cancel_right' card_Suc_Diff1 of_nat_Suc add.commute)

lemma pick_at:
  assumes "tgts \<noteq> []" "length tgts = 1 \<or> rr = word_of_nat n"
  shows "fst (the (pick_target tgts rr)) = tgts ! (n mod 2 ^ 64 mod length tgts)"
    and "length tgts = 1 \<or> snd (the (pick_target tgts rr)) = word_of_nat (n + 1)"
  using assms by (auto simp: pick_target_def unsigned_of_nat take_bit_eq_mod mod_Suc)

lemma tcp_inv_task:
  "\<lbrakk>tcp_inv tgts s; tl_tasks s i = Some task\<rbrakk> \<Longrightarrow>
     i < tl_next s \<and> task_target task = tgts ! (i mod 2 ^ 64 mod length tgts)"
  by (simp add: tcp_inv_def)

lemma tcp_inv_step:
  assumes ts: "tgts \<noteq> []" and inv: "tcp_inv tgts s" and step: "tcp_step tgts s t"
  shows "tcp_inv tgts t"
  using step
proof cases
  case accept
  obtain tg rr where p: "pick_target tgts (tl_rr s) = Some (tg, rr)"
    and t: "t = s\<lparr>tl_rr := rr, tl_next := tl_next s + 1, tl_tasks := (tl_tasks s)(tl_next s \<mapsto> Spawned tg)\<rparr>"
    using accept(2) by (auto simp: tcp_accept_def split: option.splits)
  have fresh: "tl_tasks s (tl_next s) = None"
    using inv by (metis less_irrefl option.exhaust tcp_inv_def)
  have at: "tg = tgts ! (tl_next s mod 2 ^ 64 mod length tgts)" "length tgts = 1 \<or> rr = word_of_nat (tl_next s + 1)"
    using pick_at [OF ts, of "tl_rr s" "tl_next s"] inv p by (auto simp: tcp_inv_def)
  show ?thesis using inv at fresh unfolding t tcp_inv_def running_accept [OF fresh]
    by (auto simp: less_Suc_eq)
next
  case accept_error
  then show ?thesis using inv by (simp add: tcp_inv_def tcp_accept_error_def running_def inc_error_def)
next
  case (start_task i tg)
  have "i \<notin> running s" using start_task by (simp add: running_def)
  moreover note tcp_inv_task [OF inv start_task(2)]
  ultimately show ?thesis using inv unfolding start_task(1) tcp_inv_def running_begin
    by (auto simp: task_begin_def on_accept_def)
next
  case (end_task i tg r)
  have "i \<in> running s" using end_task by (simp add: running_def)
  then show ?thesis using inv unfolding end_task(1) tcp_inv_def running_finish
    by (auto simp: task_finish_def guard_drop_def inc_error_def active_drop split: if_splits)
next
  case stop
  then show ?thesis using inv by (simp add: tcp_inv_def running_def)
qed

definition tcp_start :: "listener_stats \<Rightarrow> tcp_listener" where
  "tcp_start stats =
     \<lparr>tl_listening = True, tl_rr = 0, tl_stats = stats, tl_next = 0, tl_tasks = Map.empty\<rparr>"

lemma tcp_serve_Ok:
  "tcp_serve bound spec stats = Inr s \<longleftrightarrow> (\<exists>u. bound = Inr u) \<and> s = tcp_start stats"
  by (auto simp: tcp_serve_def result_iffs tcp_start_def)

lemma tcp_inv_start: "st_active st = 0 \<Longrightarrow> tcp_inv tgts (tcp_start st)"
  by (simp add: tcp_start_def tcp_inv_def running_def)

interpretation accepting: machine "\<lambda>s. tgts \<noteq> [] \<and> (\<exists>st. st_active st = 0 \<and> s = tcp_start st)"
  "tcp_step tgts" "\<lambda>s. tgts \<noteq> [] \<and> tcp_inv tgts s" for tgts
  by unfold_locales (auto intro: tcp_inv_step tcp_inv_start)

lemma tcp_reachable:
  assumes "tcp_serve bound spec stats = Inr s0" "st_active stats = 0" "tgts \<noteq> []" "(tcp_step tgts)\<^sup>*\<^sup>* s0 s"
  shows "tcp_inv tgts s"
  using accepting.inv_reachable [OF _ assms(4)] assms(1-3) unfolding tcp_serve_Ok by blast

text \<open>Accepting never panics when there is a target.\<close>

lemma tcp_accept_total: "tgts \<noteq> [] \<Longrightarrow> \<exists>t. tcp_accept tgts s = Some t"
  by (cases "length tgts = 1") (auto simp: tcp_accept_def pick_target_def)

section \<open>Properties\<close>

text \<open>
  In every state a TCP listener reaches, the active gauge is the number of connection tasks that
  hold a guard, and connection number \<open>i\<close> (from zero) goes to target \<open>i\<close> modulo the number of
  targets: round robin in accept order, however accepts, failures and tasks interleave. The counter
  is 64 bits wide.
\<close>

theorem tcp_round_robin_and_gauge:
  assumes "tcp_serve bound spec stats = Ok s0" "st_active stats = 0" "tgts \<noteq> []"
    "(tcp_step tgts)\<^sup>*\<^sup>* s0 s"
  shows "st_active (tl_stats s) = word_of_nat (card (running s)) \<and> finite (running s) \<and>
     (\<forall>i task. tl_tasks s i = Some task \<longrightarrow>
        i < tl_next s \<and> task_target task = tgts ! (i mod 2 ^ 64 mod length tgts)) \<and>
     (\<exists>t. tcp_accept tgts s = Some t)"
  using tcp_reachable [OF assms] tcp_accept_total [OF assms(3)] unfolding tcp_inv_def by blast

definition sample_spec :: listener_spec where
  "sample_spec =
     \<lparr>l_proto = Tcp, l_bind = ''0.0.0.0:80'', l_port = 80, l_targets = [''a:1'', ''b:2''], l_nodelay = False,
      l_name = ''tcp://:80''\<rparr>"

theorem tcp_round_robin_and_gauge_witness:
  "\<exists>s. (tcp_step [''a:1'', ''b:2''])\<^sup>*\<^sup>* (tcp_start (stats_new ''tcp://:80'' ''tcp'')) s \<and>
     st_active (tl_stats s) = 1 \<and> tl_tasks s 1 = Some (Running ''b:2'')"
proof -
  let ?ts = "[''a:1'', ''b:2'']" let ?st = "stats_new ''tcp://:80'' ''tcp''"
  let ?a = "the (tcp_accept ?ts (tcp_start ?st))" let ?b = "the (tcp_accept ?ts ?a)"
  let ?c = "task_begin 1 ''b:2'' ?b"
  have "tcp_step ?ts (tcp_start ?st) ?a" "tcp_step ?ts ?a ?b"
    by (rule tcp_step.accept; simp add: tcp_start_def tcp_accept_def pick_target_def)+
  moreover have "tcp_step ?ts ?b ?c"
    by (rule tcp_step.start_task) (simp add: tcp_start_def tcp_accept_def pick_target_def)
  ultimately have steps: "(tcp_step ?ts)\<^sup>*\<^sup>* (tcp_start ?st) ?c"
    by (meson converse_rtranclp_into_rtranclp r_into_rtranclp)
  have t: "tl_tasks ?c = [0 \<mapsto> Spawned ''a:1'', 1 \<mapsto> Running ''b:2'']"
    by (simp add: tcp_start_def tcp_accept_def pick_target_def task_begin_def fun_eq_iff)
  then have r: "running ?c = {1}" by (auto simp: running_def)
  have "tcp_serve (Ok ()) sample_spec ?st = Ok (tcp_start ?st)" by (simp add: tcp_serve_Ok)
  from tcp_round_robin_and_gauge [OF this _ _ steps] r have "st_active (tl_stats ?c) = 1"
    by (simp add: stats_new_def)
  with steps t show ?thesis by (intro exI [of _ ?c]) simp
qed

text \<open>
  Over one full round the listener uses every target exactly once, in list order, starting
  where the counter stands: the picks are the target list rotated by the counter. (As long as the
  counter does not wrap during the round.)
\<close>

theorem tcp_picks_rotate:
  assumes "tgts \<noteq> []" "unat rr + length tgts < 2 ^ 64"
  shows "map_option fst (picks pick_target (length tgts) tgts rr) = Some (rotate (unat rr) tgts)"
  by (rule tcp_rr.picks_rotate [OF assms])

theorem tcp_picks_rotate_witness:
  "map_option fst (picks pick_target 3 [''a'', ''b'', ''c''] 4) = Some [''b'', ''c'', ''a'']"
proof -
  have "unat (4 :: u64) + length [''a'', ''b'', ''c''] < 2 ^ 64" by simp
  from tcp_picks_rotate [OF _ this]
  have "map_option fst (picks pick_target (length [''a'', ''b'', ''c'']) [''a'', ''b'', ''c''] 4) =
      Some (rotate (unat (4 :: u64)) [''a'', ''b'', ''c''])" by simp
  moreover have "rotate (unat (4 :: u64)) [''a'', ''b'', ''c''] = [''b'', ''c'', ''a'']" by code_simp
  moreover have "length [''a'', ''b'', ''c''] = 3" by simp
  ultimately show ?thesis by metis
qed

section \<open>One connection end to end\<close>

lemma dialer_Ok:
  assumes env: "tunnel_env env inbox outbox" and d: "dialer_connect env d target = Some run" and r: "run tr = (Inr s, tr')"
  shows "\<exists>convs. list_all2 conversation (zip (d_chain d) (asked (d_chain d) target)) convs \<and>
     inbox (e_conn env tr') = concat (map snd convs) @ inbox s \<and>
     outbox s = outbox (e_conn env tr') @ concat (map fst convs)"
proof (cases "d_chain d")
  case Nil
  with d r have "s = e_conn env tr'" by (auto simp: dialer_connect_def tcp_stream_Ok)
  then show ?thesis using Nil by simp
next
  case (Cons first later)
  then have "run = ebind (tcp_stream env (h_addr first) (d_mark d) (d_sock d)) (on_stream (hop_loop env target (d_chain d)))"
    using d by (simp add: dialer_connect_def dial_def)
  with r have "hop_loop env target (d_chain d) (e_conn env tr') = (Inr (), s)"
    by (auto simp: ebind_Ok_iff tcp_stream_Ok on_stream_Ok)
  from tunnel_env.hop_loop_Ok [OF env this] show ?thesis .
qed

lemma handle_conn_Ok:
  assumes "handle_conn env ctx client target sched tr = Some (Inr x, tr')"
  obtains run tr1 backend where "dialer_connect env (ctx_dialer ctx) target = Some run" "run tr1 = (Inr backend, tr')"
    "x = run_transport (e_io env) (unat (ctx_buf_size ctx)) sched (relay_start client backend)"
  using assms by (auto simp: handle_conn_def split: prod.splits sum.splits option.splits)

text \<open>
  A connection that ends without an error has been forwarded: over the one TCP connection that
  was opened, after one complete conversation per hop of the chain, either everything the client
  sent was written to the backend, or everything the backend sent after the last reply was written
  to the client; no handshake byte reaches the client and none is mixed into the payload.
\<close>

lemma handle_conn_forwards:
  assumes "tunnel_env env inbox outbox" "0 < ctx_buf_size ctx"
    "handle_conn env ctx client target sched tr = Some (Ok x, tr')" "conn_result (Ok x) = Some (Ok ())"
  shows "\<exists>convs payload.
     list_all2 conversation (zip (d_chain (ctx_dialer ctx)) (asked (d_chain (ctx_dialer ctx)) target)) convs \<and>
     inbox (e_conn env tr') = concat (map snd convs) @ payload \<and>
     ((inbox (side_a x) = [] \<and>
       outbox (side_b x) = outbox (e_conn env tr') @ concat (map fst convs) @ inbox client) \<or>
      (inbox (side_b x) = [] \<and> outbox (side_a x) = outbox client @ payload))"
proof -
  obtain run tr1 backend where d: "dialer_connect env (ctx_dialer ctx) target = Some run" "run tr1 = (Inr backend, tr')"
    and x: "x = run_transport (e_io env) (unat (ctx_buf_size ctx)) sched (relay_start client backend)"
    by (rule handle_conn_Ok [OF assms(3)])
  obtain convs where c: "list_all2 conversation (zip (d_chain (ctx_dialer ctx)) (asked (d_chain (ctx_dialer ctx)) target)) convs"
    "inbox (e_conn env tr') = concat (map snd convs) @ inbox backend"
    "outbox backend = outbox (e_conn env tr') @ concat (map fst convs)"
    using dialer_Ok [OF assms(1) d] by blast
  have io: "byte_stream (e_io env) inbox outbox" using assms(1) by (simp add: tunnel_env_def)
  have n: "0 < unat (ctx_buf_size ctx)" using assms(2) by (simp add: unat_gt_0 word_greater_zero_iff)
  have "(inbox (side_a x) = [] \<and> outbox (side_b x) = outbox backend @ inbox client) \<or>
      (inbox (side_b x) = [] \<and> outbox (side_a x) = outbox client @ inbox backend)"
  proof (rule byte_stream.relay_ok_all [OF io _ n])
    show "(transport (e_io env) (unat (ctx_buf_size ctx)))\<^sup>*\<^sup>* (relay_start client backend) x"
      unfolding x by (rule run_transport_steps)
    show "transport_result x = Some (Ok ())" using assms(4) by (simp add: conn_result_def)
  qed
  with c show ?thesis by (intro exI [of _ convs] exI [of _ "inbox backend"]) auto
qed

end
