(* ===== verification/Udp.thy ===== *)
theory Udp
  imports Round_Robin Stats Netopt Tcp
begin

text \<open>
  \<open>src/forward/udp.rs\<close>: the receive loop of a UDP listener, its table of per-client sessions and
  the reverse task of each session. The loop and the reverse tasks run concurrently and share the
  table (behind a mutex) and, per session, the time of the last activity; a step is what one of
  them does between two suspension points. The receive loop handles a datagram in up to three
  steps: it looks the session up, waits for the outbound socket of a new session, and sends; the
  reverse tasks run in between, and the loop may be cancelled at each of them. Sessions are numbered
  in the order they are opened; the number stands for the outbound socket and the shared activity
  cell. \<open>mono_ms\<close> is the clock of the state, in milliseconds.
\<close>

section \<open>Model\<close>

definition udp_pick_target :: "string list \<Rightarrow> u64 \<Rightarrow> (string \<times> u64) option" where
  "udp_pick_target tgts rr =
     (if length tgts = 1 then Some (tgts ! 0, rr)
      else if length tgts = 0 then None
      else (let i = unat rr mod length tgts in Some (tgts ! i, rr + 1)))"

interpretation udp_rr: round_robin udp_pick_target
  by unfold_locales (auto simp: udp_pick_target_def)

text \<open>Opening the outbound socket.\<close>

definition bind_any :: "socket_addr \<Rightarrow> ip_addr" where
  "bind_any sa =
     (case sa of
        SocketAddrV4 _ _ \<Rightarrow> V4 (Ipv4Addr 0 0 0 0)
      | SocketAddrV6 _ _ _ \<Rightarrow> V6 (Ipv6Addr 0 0 0 0 0 0 0 0))"

definition bind_connected :: "os \<Rightarrow> socket_addr \<Rightarrow> u32 option \<Rightarrow> (trace, socket_addr) eff" where
  "bind_connected os sa mark =
     ebind (sys_try os (SocketNew (sa_ip sa) Dgram)) (\<lambda>_.
     ebind (sys_try os SetNonblocking) (\<lambda>_.
     ebind (opt_call os SetMark mark) (\<lambda>_.
     ebind (sys_try os (Bind (bind_any sa))) (\<lambda>_.
     ebind (sys_try os (Connect sa)) (\<lambda>_.
     ebind (sys_try os FromStd) (\<lambda>_.
     eret sa))))))"

definition new_session :: "os \<Rightarrow> dns \<Rightarrow> string \<Rightarrow> u32 option \<Rightarrow> (trace, socket_addr) eff" where
  "new_session os dns target mark =
     (case parse_socket_addr target of
        Some sa \<Rightarrow> bind_connected os sa mark
      | None \<Rightarrow>
          ebind (lookup_host os dns target) (\<lambda>sas.
            dial_each (\<lambda>sa. bind_connected os sa mark) (io_other ''no target address'') sas))"

text \<open>The listener's state.\<close>

record session =
  ss_out :: nat

datatype rev_phase = RevLoop millis | RevBroken | RevRemoved

record rev_task =
  rv_peer :: socket_addr
  rv_target :: string
  rv_phase :: rev_phase

text \<open>
  What leaves the listener: a client's datagram on a session's socket, and a reply of a session's
  socket to a client.
\<close>

datatype udp_event =
  ToTarget (ev_out: nat) (ev_client: socket_addr) (ev_data: bytes)
| ToClient (ev_out: nat) (ev_client: socket_addr) (ev_data: bytes)

text \<open>Where the receive loop is: at \<open>recv_from\<close>, at \<open>new_session\<close>, or at the \<open>send\<close>.\<close>

datatype recv_pc =
    Receiving
  | Opening socket_addr string bytes
  | Forwarding nat socket_addr bytes

record udp_listener =
  ul_listening :: bool
  ul_pc :: recv_pc
  ul_now :: millis
  ul_rr :: u64
  ul_stats :: listener_stats
  ul_next :: nat
  ul_sessions :: "socket_addr \<rightharpoonup> session"
  ul_last :: "nat \<Rightarrow> millis"
  ul_tasks :: "nat \<rightharpoonup> rev_task"
  ul_sent :: "udp_event list"

definition udp_serve ::
  "(io_error, unit) result \<Rightarrow> listener_spec \<Rightarrow> listener_stats \<Rightarrow> millis \<Rightarrow> (io_error, udp_listener) result" where
  "udp_serve bound spec stats now =
     and_then (map_err (bind_error (l_bind spec)) bound) (\<lambda>_.
       Ok \<lparr>ul_listening = True, ul_pc = Receiving, ul_now = now, ul_rr = 0, ul_stats = stats, ul_next = 0,
           ul_sessions = Map.empty, ul_last = (\<lambda>_. 0), ul_tasks = Map.empty, ul_sent = []\<rparr>)"

definition lookup :: "udp_listener \<Rightarrow> socket_addr \<Rightarrow> nat option" where
  "lookup s peer = map_option ss_out (ul_sessions s peer)"

text \<open>The datagram of a session: the activity is noted, then the datagram is sent (the result of
  the send is only logged). Both are one step here; between them only the clock could move.\<close>

definition forward_datagram :: "nat \<Rightarrow> socket_addr \<Rightarrow> bytes \<Rightarrow> udp_listener \<Rightarrow> udp_listener" where
  "forward_datagram out peer buf s =
     s\<lparr>ul_last := (ul_last s)(out := ul_now s), ul_sent := ul_sent s @ [ToTarget out peer buf],
        ul_pc := Receiving\<rparr>"

definition spawn_reverse :: "socket_addr \<Rightarrow> string \<Rightarrow> nat \<Rightarrow> udp_listener \<Rightarrow> udp_listener" where
  "spawn_reverse peer target out s =
     s\<lparr>ul_tasks := (ul_tasks s)(out \<mapsto>
          \<lparr>rv_peer = peer, rv_target = target, rv_phase = RevLoop (ul_now s)\<rparr>)\<rparr>"

definition open_session :: "socket_addr \<Rightarrow> string \<Rightarrow> udp_listener \<Rightarrow> udp_listener" where
  "open_session peer target s =
     (let out = ul_next s;
          s1 = s\<lparr>ul_next := out + 1, ul_last := (ul_last s)(out := ul_now s),
                 ul_sessions := (ul_sessions s)(peer \<mapsto> \<lparr>ss_out = out\<rparr>),
                 ul_stats := on_accept (ul_stats s)\<rparr>
      in spawn_reverse peer target out s1)"

text \<open>
  A received datagram: the session is looked up, and without one the next target is picked.
  \<open>None\<close> is a panic.
\<close>

definition udp_received :: "string list \<Rightarrow> socket_addr \<Rightarrow> bytes \<Rightarrow> udp_listener \<Rightarrow> udp_listener option" where
  "udp_received tgts peer buf s =
     (case lookup s peer of
        Some out \<Rightarrow> Some (s\<lparr>ul_pc := Forwarding out peer buf\<rparr>)
      | None \<Rightarrow>
          (case udp_pick_target tgts (ul_rr s) of
             None \<Rightarrow> None
           | Some (target, rr) \<Rightarrow> Some (s\<lparr>ul_rr := rr, ul_pc := Opening peer target buf\<rparr>)))"

text \<open>The match on the result of \<open>new_session\<close>.\<close>

definition udp_opened ::
  "(io_error, socket_addr) result \<Rightarrow> socket_addr \<Rightarrow> string \<Rightarrow> bytes \<Rightarrow> udp_listener \<Rightarrow> udp_listener" where
  "udp_opened r peer target buf s =
     (case r of
        Inl e \<Rightarrow> s\<lparr>ul_stats := inc_error (ul_stats s), ul_pc := Receiving\<rparr>
      | Inr _ \<Rightarrow> (open_session peer target s)\<lparr>ul_pc := Forwarding (ul_next s) peer buf\<rparr>)"

text \<open>
  The whole handling of one datagram when nothing else runs in between; \<open>opened\<close> is the result of
  \<open>new_session\<close> for the chosen target.
\<close>

definition udp_datagram ::
  "string list \<Rightarrow> (string \<Rightarrow> (io_error, socket_addr) result) \<Rightarrow> socket_addr \<Rightarrow> bytes \<Rightarrow>
     udp_listener \<Rightarrow> udp_listener option" where
  "udp_datagram tgts opened peer buf s =
     map_option (\<lambda>s1.
       let s2 = (case ul_pc s1 of Opening p target b \<Rightarrow> udp_opened (opened target) p target b s1 | _ \<Rightarrow> s1)
       in (case ul_pc s2 of Forwarding out p b \<Rightarrow> forward_datagram out p b s2 | _ \<Rightarrow> s2))
     (udp_received tgts peer buf s)"

definition udp_recv_error :: "udp_listener \<Rightarrow> udp_listener" where
  "udp_recv_error s = s\<lparr>ul_stats := inc_error (ul_stats s)\<rparr>"

text \<open>The reverse task: a reply, an error on either socket, the timer, and the end of the task.\<close>

definition set_phase :: "nat \<Rightarrow> rev_task \<Rightarrow> rev_phase \<Rightarrow> udp_listener \<Rightarrow> udp_listener" where
  "set_phase i task p s = s\<lparr>ul_tasks := (ul_tasks s)(i \<mapsto> task\<lparr>rv_phase := p\<rparr>)\<rparr>"

definition rev_reply :: "nat \<Rightarrow> rev_task \<Rightarrow> bytes \<Rightarrow> bool \<Rightarrow> udp_listener \<Rightarrow> udp_listener" where
  "rev_reply i task buf sent s =
     (let s1 = s\<lparr>ul_last := (ul_last s)(i := ul_now s), ul_sent := ul_sent s @ [ToClient i (rv_peer task) buf]\<rparr> in
      set_phase i task (if sent then RevLoop (ul_now s) else RevBroken) s1)"

definition rev_timeout :: "nat \<Rightarrow> rev_task \<Rightarrow> udp_listener \<Rightarrow> udp_listener" where
  "rev_timeout i task s =
     set_phase i task (if UDP_TTL \<le> ul_now s - ul_last s i then RevBroken else RevLoop (ul_now s)) s"

definition rev_remove :: "nat \<Rightarrow> rev_task \<Rightarrow> udp_listener \<Rightarrow> udp_listener" where
  "rev_remove i task s =
     set_phase i task RevRemoved (s\<lparr>ul_sessions := (ul_sessions s)(rv_peer task := None)\<rparr>)"

definition rev_end :: "nat \<Rightarrow> udp_listener \<Rightarrow> udp_listener" where
  "rev_end i s = s\<lparr>ul_stats := guard_drop (ul_stats s), ul_tasks := (ul_tasks s)(i := None)\<rparr>"

inductive udp_step :: "string list \<Rightarrow> udp_listener \<Rightarrow> udp_listener \<Rightarrow> bool" for tgts :: "string list" where
  received: "\<lbrakk>ul_listening s; ul_pc s = Receiving; udp_received tgts peer buf s = Some t\<rbrakk> \<Longrightarrow> udp_step tgts s t"
| opened: "\<lbrakk>ul_listening s; ul_pc s = Opening peer target buf\<rbrakk> \<Longrightarrow>
    udp_step tgts s (udp_opened r peer target buf s)"
| forward: "\<lbrakk>ul_listening s; ul_pc s = Forwarding out peer buf\<rbrakk> \<Longrightarrow>
    udp_step tgts s (forward_datagram out peer buf s)"
| recv_error: "\<lbrakk>ul_listening s; ul_pc s = Receiving\<rbrakk> \<Longrightarrow> udp_step tgts s (udp_recv_error s)"
| stop: "ul_listening s \<Longrightarrow> udp_step tgts s (s\<lparr>ul_listening := False\<rparr>)"
| elapse: "udp_step tgts s (s\<lparr>ul_now := ul_now s + d\<rparr>)"
| reply: "\<lbrakk>ul_tasks s i = Some task; rv_phase task = RevLoop t0\<rbrakk> \<Longrightarrow> udp_step tgts s (rev_reply i task buf sent s)"
| reply_error: "\<lbrakk>ul_tasks s i = Some task; rv_phase task = RevLoop t0\<rbrakk> \<Longrightarrow> udp_step tgts s (set_phase i task RevBroken s)"
| timeout: "\<lbrakk>ul_tasks s i = Some task; rv_phase task = RevLoop t0; t0 + UDP_TTL \<le> ul_now s\<rbrakk> \<Longrightarrow>
    udp_step tgts s (rev_timeout i task s)"
| remove: "\<lbrakk>ul_tasks s i = Some task; rv_phase task = RevBroken\<rbrakk> \<Longrightarrow> udp_step tgts s (rev_remove i task s)"
| finish: "\<lbrakk>ul_tasks s i = Some task; rv_phase task = RevRemoved\<rbrakk> \<Longrightarrow> udp_step tgts s (rev_end i s)"

section \<open>The session table\<close>

definition owns :: "rev_task \<Rightarrow> bool" where
  "owns task \<longleftrightarrow> rv_phase task \<noteq> RevRemoved"

text \<open>
  The table and the reverse tasks that have not yet removed their entry are in bijection; the gauge
  counts the tasks; the clock is ahead of every timestamp; a running timer was started less than a
  lifetime after the last activity; a session is opened only for a client that has none, and a
  datagram is only sent on a socket of its own client.
\<close>

definition table_ok :: "udp_listener \<Rightarrow> bool" where
  "table_ok s \<longleftrightarrow>
     (\<forall>peer i. lookup s peer = Some i \<longleftrightarrow>
        (\<exists>task. ul_tasks s i = Some task \<and> owns task \<and> rv_peer task = peer))"

definition gauge_ok :: "udp_listener \<Rightarrow> bool" where
  "gauge_ok s \<longleftrightarrow>
     finite (dom (ul_tasks s)) \<and> dom (ul_tasks s) \<subseteq> {..<ul_next s} \<and>
     st_active (ul_stats s) = word_of_nat (card (dom (ul_tasks s)))"

definition timer_ok :: "udp_listener \<Rightarrow> bool" where
  "timer_ok s \<longleftrightarrow>
     (\<forall>i. ul_last s i \<le> ul_now s) \<and>
     (\<forall>i task t0. ul_tasks s i = Some task \<and> rv_phase task = RevLoop t0 \<longrightarrow>
        t0 \<le> ul_now s \<and> t0 < ul_last s i + UDP_TTL)"

definition pc_ok :: "string list \<Rightarrow> udp_listener \<Rightarrow> bool" where
  "pc_ok tgts s \<longleftrightarrow>
     (case ul_pc s of
        Receiving \<Rightarrow> True
      | Opening peer target buf \<Rightarrow> lookup s peer = None \<and> target \<in> set tgts
      | Forwarding out peer buf \<Rightarrow>
          out < ul_next s \<and> (\<forall>task. ul_tasks s out = Some task \<longrightarrow> rv_peer task = peer))"

definition udp_inv :: "udp_listener \<Rightarrow> bool" where
  "udp_inv s \<longleftrightarrow> table_ok s \<and> gauge_ok s \<and> timer_ok s"

lemma pick_member: "udp_pick_target tgts rr = Some (target, rr') \<Longrightarrow> target \<in> set tgts"
  using udp_rr.pick_in_targets [of tgts rr target rr'] by (cases "tgts = []") (auto simp: udp_pick_target_def)

lemma received_cases:
  assumes "udp_received tgts peer buf s = Some t"
  obtains (existing) out where "lookup s peer = Some out" "t = s\<lparr>ul_pc := Forwarding out peer buf\<rparr>"
  | (fresh) rr target where "lookup s peer = None" "target \<in> set tgts"
      "t = s\<lparr>ul_rr := rr, ul_pc := Opening peer target buf\<rparr>"
proof (cases "lookup s peer")
  case None
  then obtain target rr where "udp_pick_target tgts (ul_rr s) = Some (target, rr)"
    "t = s\<lparr>ul_rr := rr, ul_pc := Opening peer target buf\<rparr>"
    using assms by (auto simp: udp_received_def split: option.splits)
  then show thesis using fresh None pick_member by blast
next
  case (Some out)
  then show thesis using assms existing by (simp add: udp_received_def)
qed

text \<open>Steps that only touch the phase of one task.\<close>

lemma table_phase:
  assumes "table_ok s" "ul_tasks s i = Some task" "owns task" "p \<noteq> RevRemoved"
  shows "table_ok (set_phase i task p s)"
  using assms by (auto simp: table_ok_def set_phase_def lookup_def owns_def)

lemma table_remove:
  assumes ok: "table_ok s" and i: "ul_tasks s i = Some task" "owns task"
  shows "table_ok (rev_remove i task s)"
proof -
  have a: "lookup s peer = Some j \<and> peer \<noteq> rv_peer task \<longleftrightarrow>
      (\<exists>task'. ul_tasks s j = Some task' \<and> owns task' \<and> rv_peer task' = peer) \<and> j \<noteq> i" for peer j
    using ok i unfolding table_ok_def by (metis option.inject)
  have b: "lookup (rev_remove i task s) peer = Some j \<longleftrightarrow> lookup s peer = Some j \<and> peer \<noteq> rv_peer task" for peer j
    by (simp add: rev_remove_def set_phase_def lookup_def)
  have c: "(\<exists>task'. ul_tasks (rev_remove i task s) j = Some task' \<and> owns task' \<and> rv_peer task' = peer) \<longleftrightarrow>
      (\<exists>task'. ul_tasks s j = Some task' \<and> owns task' \<and> rv_peer task' = peer) \<and> j \<noteq> i" for peer j
    by (auto simp: rev_remove_def set_phase_def owns_def)
  show ?thesis unfolding table_ok_def b c a by simp
qed

lemma table_open:
  assumes ok: "table_ok s" and fresh: "ul_tasks s (ul_next s) = None" and free: "lookup s peer = None"
  shows "table_ok (open_session peer target s)"
proof -
  have "lookup s p \<noteq> Some (ul_next s)" for p using ok fresh unfolding table_ok_def by auto
  moreover have "\<not> (ul_tasks s i = Some task \<and> owns task \<and> rv_peer task = peer)" for i task
    using ok free unfolding table_ok_def by (metis option.distinct(1))
  ultimately show ?thesis using ok fresh
    by (auto simp: table_ok_def open_session_def spawn_reverse_def lookup_def owns_def Let_def)
qed

lemma gauge_same_dom:
  assumes "gauge_ok s" "dom (ul_tasks t) = dom (ul_tasks s)" "ul_next t = ul_next s"
    "st_active (ul_stats t) = st_active (ul_stats s)"
  shows "gauge_ok t"
  using assms by (simp add: gauge_ok_def)

lemma fresh_task: "gauge_ok s \<Longrightarrow> ul_tasks s (ul_next s) = None"
  by (auto simp: gauge_ok_def)

lemma gauge_open: "gauge_ok s \<Longrightarrow> gauge_ok (open_session peer target s)"
proof -
  assume g: "gauge_ok s"
  then have "ul_next s \<notin> dom (ul_tasks s)" by (simp add: fresh_task domIff)
  with g show ?thesis
    by (auto simp: gauge_ok_def open_session_def spawn_reverse_def on_accept_def Let_def less_Suc_eq)
qed

lemma gauge_end:
  assumes "gauge_ok s" "ul_tasks s i = Some task"
  shows "gauge_ok (rev_end i s)"
proof -
  have "dom (ul_tasks (rev_end i s)) = dom (ul_tasks s) - {i}" by (auto simp: rev_end_def)
  moreover have "i \<in> dom (ul_tasks s)" using assms(2) by blast
  ultimately show ?thesis using assms(1) active_drop [of "dom (ul_tasks s)" i]
    by (auto simp: gauge_ok_def rev_end_def guard_drop_def)
qed

lemma table_end:
  assumes ok: "table_ok s" and i: "ul_tasks s i = Some task" "\<not> owns task"
  shows "table_ok (rev_end i s)"
proof -
  have t: "(\<exists>task'. ul_tasks (rev_end i s) j = Some task' \<and> owns task' \<and> rv_peer task' = peer) \<longleftrightarrow>
      (\<exists>task'. ul_tasks s j = Some task' \<and> owns task' \<and> rv_peer task' = peer)" for peer j
    using i by (auto simp: rev_end_def)
  have l: "lookup (rev_end i s) peer = lookup s peer" for peer by (simp add: rev_end_def lookup_def)
  show ?thesis unfolding table_ok_def t l using ok unfolding table_ok_def .
qed

lemma timer_forward: "timer_ok s \<Longrightarrow> timer_ok (forward_datagram out peer buf s)"
  unfolding timer_ok_def forward_datagram_def by (fastforce simp: UDP_TTL_def)

lemma timer_open: "timer_ok s \<Longrightarrow> timer_ok (open_session peer target s)"
  unfolding timer_ok_def open_session_def spawn_reverse_def Let_def
  by (fastforce simp: UDP_TTL_def split: if_splits)

lemma timer_phase:
  assumes "timer_ok s" "\<And>t0. p = RevLoop t0 \<Longrightarrow> t0 \<le> ul_now s \<and> t0 < ul_last s i + UDP_TTL"
  shows "timer_ok (set_phase i task p s)"
  using assms by (auto simp: timer_ok_def set_phase_def)

lemma timer_last: "timer_ok s \<Longrightarrow> timer_ok (s\<lparr>ul_last := (ul_last s)(i := ul_now s), ul_sent := h\<rparr>)"
  unfolding timer_ok_def by (fastforce simp: UDP_TTL_def)

lemma udp_inv_frame:
  assumes "udp_inv s" "ul_sessions t = ul_sessions s" "ul_tasks t = ul_tasks s" "ul_next t = ul_next s"
    "ul_last t = ul_last s" "ul_now s \<le> ul_now t" "st_active (ul_stats t) = st_active (ul_stats s)"
  shows "udp_inv t"
proof -
  have "table_ok t" using assms(1-3) by (simp add: udp_inv_def table_ok_def lookup_def)
  moreover have "gauge_ok t" using assms by (simp add: udp_inv_def gauge_ok_def)
  moreover have "timer_ok t" using assms unfolding udp_inv_def timer_ok_def by (metis le_trans)
  ultimately show ?thesis by (simp add: udp_inv_def)
qed

lemma udp_inv_forward: "udp_inv s \<Longrightarrow> udp_inv (forward_datagram out peer buf s)"
proof -
  assume inv: "udp_inv s"
  have "table_ok (forward_datagram out peer buf s) = table_ok s"
    by (simp add: table_ok_def lookup_def forward_datagram_def)
  moreover have "gauge_ok (forward_datagram out peer buf s) = gauge_ok s"
    by (simp add: gauge_ok_def forward_datagram_def)
  ultimately show ?thesis using inv by (simp add: udp_inv_def timer_forward)
qed

lemma udp_inv_opened:
  assumes inv: "udp_inv s" and free: "lookup s peer = None"
  shows "udp_inv (udp_opened r peer target buf s)"
proof (cases r)
  case (Inl e)
  then show ?thesis by (intro udp_inv_frame [OF inv]) (simp_all add: udp_opened_def inc_error_def)
next
  case (Inr sa)
  have parts: "table_ok s" "gauge_ok s" "timer_ok s" using inv by (simp_all add: udp_inv_def)
  have "udp_inv (open_session peer target s)"
    using table_open [OF parts(1) fresh_task [OF parts(2)] free] gauge_open [OF parts(2)] timer_open [OF parts(3)]
    by (simp add: udp_inv_def)
  then show ?thesis by (rule udp_inv_frame) (simp_all add: Inr udp_opened_def)
qed

lemma udp_inv_phase:
  assumes inv: "udp_inv s" and task: "ul_tasks s i = Some task" "rv_phase task = RevLoop t0"
    and p: "p \<noteq> RevRemoved" "\<And>t0. p = RevLoop t0 \<Longrightarrow> t0 \<le> ul_now s \<and> t0 < ul_last s i + UDP_TTL"
  shows "udp_inv (set_phase i task p s)"
proof -
  have "timer_ok (set_phase i task p s)"
    using inv p(2) by (intro timer_phase) (simp_all add: udp_inv_def)
  moreover have "table_ok (set_phase i task p s)"
    using inv task p(1) by (intro table_phase) (simp_all add: udp_inv_def owns_def)
  moreover have "gauge_ok (set_phase i task p s)"
    using inv task(1) by - (rule gauge_same_dom [of s], auto simp: udp_inv_def set_phase_def)
  ultimately show ?thesis by (simp add: udp_inv_def)
qed

lemma udp_inv_last: "udp_inv s \<Longrightarrow> udp_inv (s\<lparr>ul_last := (ul_last s)(i := ul_now s), ul_sent := h\<rparr>)"
  by (simp add: udp_inv_def table_ok_def lookup_def timer_last gauge_ok_def)

lemma udp_inv_remove:
  assumes inv: "udp_inv s" and task: "ul_tasks s i = Some task" "rv_phase task = RevBroken"
  shows "udp_inv (rev_remove i task s)"
proof -
  have "table_ok (rev_remove i task s)" using inv task by (intro table_remove) (simp_all add: udp_inv_def owns_def)
  moreover have "gauge_ok (rev_remove i task s)"
    using inv task by - (rule gauge_same_dom [of s], auto simp: udp_inv_def rev_remove_def set_phase_def)
  moreover have "timer_ok (s\<lparr>ul_sessions := (ul_sessions s)(rv_peer task := None)\<rparr>)"
    using inv unfolding udp_inv_def timer_ok_def by auto
  then have "timer_ok (rev_remove i task s)" unfolding rev_remove_def by (intro timer_phase) simp_all
  ultimately show ?thesis by (simp add: udp_inv_def)
qed

lemma udp_inv_end:
  assumes inv: "udp_inv s" and task: "ul_tasks s i = Some task" "rv_phase task = RevRemoved"
  shows "udp_inv (rev_end i s)"
proof -
  have "gauge_ok (rev_end i s)" using inv task by (intro gauge_end) (simp_all add: udp_inv_def)
  moreover have "table_ok (rev_end i s)"
    using inv task by (intro table_end) (simp_all add: udp_inv_def owns_def)
  moreover have "timer_ok (rev_end i s)"
    using inv unfolding udp_inv_def timer_ok_def rev_end_def by auto
  ultimately show ?thesis by (simp add: udp_inv_def)
qed

lemma udp_inv_step:
  assumes inv: "udp_inv s" and pc: "pc_ok tgts s" and step: "udp_step tgts s t"
  shows "udp_inv t"
  using step
proof cases
  case (received peer buf)
  then show ?thesis
    by (intro udp_inv_frame [OF inv]) (auto elim!: received_cases)
next
  case (opened peer target buf r)
  then show ?thesis using pc by (auto simp: pc_ok_def intro: udp_inv_opened [OF inv])
next
  case (forward out peer buf)
  then show ?thesis using udp_inv_forward [OF inv] by simp
next
  case recv_error
  then show ?thesis by (intro udp_inv_frame [OF inv]) (simp_all add: udp_recv_error_def inc_error_def)
next
  case stop
  then show ?thesis by (intro udp_inv_frame [OF inv]) simp_all
next
  case (elapse d)
  then show ?thesis by (intro udp_inv_frame [OF inv]) simp_all
next
  case (reply i task t0 buf sent)
  show ?thesis unfolding reply(1) rev_reply_def Let_def
    by (rule udp_inv_phase [OF udp_inv_last [OF inv]]) (use reply(2,3) in \<open>auto simp: UDP_TTL_def split: if_splits\<close>)
next
  case (reply_error i task t0)
  show ?thesis unfolding reply_error(1)
    by (rule udp_inv_phase [OF inv reply_error(2,3)]) simp_all
next
  case (timeout i task t0)
  have "ul_now s < ul_last s i + UDP_TTL" if "\<not> UDP_TTL \<le> ul_now s - ul_last s i" using that by simp
  then show ?thesis unfolding timeout(1) rev_timeout_def
    by (intro udp_inv_phase [OF inv timeout(2,3)]) (auto split: if_splits)
next
  case (remove i task)
  show ?thesis unfolding remove(1) by (rule udp_inv_remove [OF inv remove(2,3)])
next
  case (finish i task)
  show ?thesis unfolding finish(1) by (rule udp_inv_end [OF inv finish(2,3)])
qed

text \<open>The position of the receive loop.\<close>

definition tasks_within :: "udp_listener \<Rightarrow> udp_listener \<Rightarrow> bool" where
  "tasks_within s t \<longleftrightarrow> ul_next s \<le> ul_next t \<and>
     (\<forall>i task. ul_tasks t i = Some task \<and> i < ul_next s \<longrightarrow>
        (\<exists>old. ul_tasks s i = Some old \<and> rv_peer old = rv_peer task))"

lemma pc_frame:
  assumes "pc_ok tgts s" "ul_pc t = ul_pc s" "tasks_within s t" "\<And>peer. lookup s peer = None \<Longrightarrow> lookup t peer = None"
  shows "pc_ok tgts t"
proof (cases "ul_pc s")
  case (Forwarding out peer buf)
  then show ?thesis using assms unfolding pc_ok_def tasks_within_def by fastforce
qed (use assms in \<open>auto simp: pc_ok_def\<close>)

lemma within_phase: "ul_tasks s i = Some task \<Longrightarrow> tasks_within s (set_phase i task p s)"
  by (simp add: tasks_within_def set_phase_def)

lemma within_reply: "ul_tasks s i = Some task \<Longrightarrow> tasks_within s (rev_reply i task buf sent s)"
  by (simp add: tasks_within_def set_phase_def rev_reply_def Let_def)

lemma within_remove: "ul_tasks s i = Some task \<Longrightarrow> tasks_within s (rev_remove i task s)"
  by (simp add: tasks_within_def set_phase_def rev_remove_def)

lemma within_end: "tasks_within s (rev_end i s)"
  by (simp add: tasks_within_def rev_end_def)

lemma within_same: "\<lbrakk>ul_tasks t = ul_tasks s; ul_next t = ul_next s\<rbrakk> \<Longrightarrow> tasks_within s t"
  by (simp add: tasks_within_def)

lemmas within = within_phase within_reply within_remove within_end within_same

lemma pc_step:
  assumes inv: "udp_inv s" and pc: "pc_ok tgts s" and step: "udp_step tgts s t"
  shows "pc_ok tgts t"
  using step
proof cases
  case (received peer buf)
  from received(3) show ?thesis
  proof (cases rule: received_cases)
    case (existing out)
    then obtain task where "ul_tasks s out = Some task" "rv_peer task = peer"
      using inv unfolding udp_inv_def table_ok_def by blast
    moreover have "out < ul_next s" using calculation inv by (auto simp: udp_inv_def gauge_ok_def)
    ultimately show ?thesis using existing by (simp add: pc_ok_def)
  next
    case (fresh rr target)
    then show ?thesis by (simp add: pc_ok_def lookup_def)
  qed
next
  case (opened peer target buf r)
  then show ?thesis
    by (cases r) (auto simp: pc_ok_def udp_opened_def open_session_def spawn_reverse_def Let_def)
next
  case (forward out peer buf)
  then show ?thesis by (simp add: pc_ok_def forward_datagram_def)
next
  case (reply i task t0 buf sent)
  show ?thesis unfolding reply(1)
    by (rule pc_frame [OF pc _ within_reply [OF reply(2)]])
       (simp_all add: rev_reply_def set_phase_def lookup_def Let_def)
next
  case (reply_error i task t0)
  show ?thesis unfolding reply_error(1)
    by (rule pc_frame [OF pc _ within_phase [OF reply_error(2)]]) (simp_all add: set_phase_def lookup_def)
next
  case (timeout i task t0)
  show ?thesis unfolding timeout(1) rev_timeout_def
    by (rule pc_frame [OF pc _ within_phase [OF timeout(2)]]) (simp_all add: set_phase_def lookup_def)
next
  case (remove i task)
  show ?thesis unfolding remove(1)
    by (rule pc_frame [OF pc _ within_remove [OF remove(2)]]) (simp_all add: rev_remove_def set_phase_def lookup_def)
next
  case (finish i task)
  show ?thesis unfolding finish(1)
    by (rule pc_frame [OF pc _ within_end]) (simp_all add: rev_end_def lookup_def)
next
  case recv_error
  then show ?thesis by (intro pc_frame [OF pc]) (simp_all add: within udp_recv_error_def lookup_def)
next
  case stop
  then show ?thesis by (intro pc_frame [OF pc]) (simp_all add: within lookup_def)
next
  case (elapse d)
  then show ?thesis by (intro pc_frame [OF pc]) (simp_all add: within lookup_def)
qed

definition udp_start :: "listener_stats \<Rightarrow> millis \<Rightarrow> udp_listener" where
  "udp_start stats now =
     \<lparr>ul_listening = True, ul_pc = Receiving, ul_now = now, ul_rr = 0, ul_stats = stats, ul_next = 0,
      ul_sessions = Map.empty, ul_last = (\<lambda>_. 0), ul_tasks = Map.empty, ul_sent = []\<rparr>"

lemma udp_serve_Ok:
  "udp_serve bound spec stats now = Inr s \<longleftrightarrow> (\<exists>u. bound = Inr u) \<and> s = udp_start stats now"
  by (auto simp: udp_serve_def result_iffs udp_start_def)

lemma udp_inv_start: "st_active stats = 0 \<Longrightarrow> udp_inv (udp_start stats now)"
  by (simp add: udp_inv_def table_ok_def gauge_ok_def timer_ok_def udp_start_def lookup_def)

lemma pc_start: "pc_ok tgts (udp_start stats now)"
  by (simp add: pc_ok_def udp_start_def)

interpretation sessions: machine "\<lambda>s. \<exists>st now. st_active st = 0 \<and> s = udp_start st now" "udp_step tgts"
  "\<lambda>s. udp_inv s \<and> pc_ok tgts s" for tgts
  by unfold_locales (auto intro: udp_inv_step udp_inv_start pc_step pc_start)

lemma udp_reachable:
  assumes "udp_serve bound spec stats now = Inr s0" "st_active stats = 0" "(udp_step tgts)\<^sup>*\<^sup>* s0 s"
  shows "udp_inv s" "pc_ok tgts s"
  using sessions.inv_reachable [OF _ assms(3)] assms(1,2) unfolding udp_serve_Ok by blast+

section \<open>The table as an address translation\<close>

text \<open>
  What a UDP forwarder promises its clients: a table from clients to targets that changes one entry
  at a time, where a client without an entry may be given one of the targets and a client with one
  keeps it or loses it. This is a relation between a table and the next one; that a client is never
  moved is a matter of single steps.
\<close>

inductive translation :: "string list \<Rightarrow> (socket_addr \<rightharpoonup> string) \<Rightarrow> (socket_addr \<rightharpoonup> string) \<Rightarrow> bool"
  for tgts :: "string list" where
  assign: "\<lbrakk>m peer = None; target \<in> set tgts\<rbrakk> \<Longrightarrow> translation tgts m (m(peer \<mapsto> target))"
| forget: "m peer = Some target \<Longrightarrow> translation tgts m (m(peer := None))"
| keep: "translation tgts m m"

definition table_of :: "udp_listener \<Rightarrow> socket_addr \<rightharpoonup> string" where
  "table_of s peer = Option.bind (lookup s peer) (\<lambda>i. map_option rv_target (ul_tasks s i))"

lemma table_of_cong:
  "\<lbrakk>ul_sessions t = ul_sessions s; ul_tasks t = ul_tasks s\<rbrakk> \<Longrightarrow> table_of t = table_of s"
  by (simp add: table_of_def lookup_def fun_eq_iff)

lemma table_of_phase:
  "ul_tasks s i = Some task \<Longrightarrow> table_of (set_phase i task p s) = table_of s"
  by (auto simp: table_of_def lookup_def set_phase_def fun_eq_iff split: Option.bind_split)

lemma table_of_remove:
  "ul_tasks s i = Some task \<Longrightarrow> table_of (rev_remove i task s) = (table_of s)(rv_peer task := None)"
  by (auto simp: table_of_def lookup_def rev_remove_def set_phase_def fun_eq_iff split: Option.bind_split)

lemma table_of_end:
  assumes "table_ok s" "ul_tasks s i = Some task" "\<not> owns task"
  shows "table_of (rev_end i s) = table_of s"
proof
  fix peer
  have "lookup s peer \<noteq> Some i" using assms unfolding table_ok_def by (metis option.inject)
  then show "table_of (rev_end i s) peer = table_of s peer"
    by (auto simp: table_of_def lookup_def rev_end_def split: Option.bind_split)
qed

lemma table_of_open:
  assumes "table_ok s" "ul_tasks s (ul_next s) = None"
  shows "table_of (open_session peer target s) = (table_of s)(peer \<mapsto> target)"
proof
  fix p
  have "lookup s p \<noteq> Some (ul_next s)" using assms unfolding table_ok_def by (metis option.distinct(1))
  then show "table_of (open_session peer target s) p = ((table_of s)(peer \<mapsto> target)) p"
    by (auto simp: table_of_def lookup_def open_session_def spawn_reverse_def Let_def split: Option.bind_split)
qed

lemma table_of_owned: "\<lbrakk>table_ok s; ul_tasks s i = Some task; owns task\<rbrakk> \<Longrightarrow> table_of s (rv_peer task) = Some (rv_target task)"
proof -
  assume "table_ok s" and t: "ul_tasks s i = Some task" "owns task"
  then have "lookup s (rv_peer task) = Some i" unfolding table_ok_def by blast
  with t show ?thesis by (simp add: table_of_def)
qed

lemma opened_translates:
  assumes inv: "udp_inv s" and free: "lookup s peer = None" and member: "target \<in> set tgts"
  shows "translation tgts (table_of s) (table_of (udp_opened r peer target buf s))"
proof (cases r)
  case (Inl e)
  then have "table_of (udp_opened r peer target buf s) = table_of s"
    by (intro table_of_cong) (simp_all add: udp_opened_def)
  then show ?thesis by (simp add: translation.keep)
next
  case (Inr sa)
  have "table_of (udp_opened r peer target buf s) = table_of (open_session peer target s)"
    using Inr by (intro table_of_cong) (simp_all add: udp_opened_def)
  also have "\<dots> = (table_of s)(peer \<mapsto> target)"
    using inv fresh_task by (intro table_of_open) (simp_all add: udp_inv_def)
  finally have "table_of (udp_opened r peer target buf s) = (table_of s)(peer \<mapsto> target)" .
  moreover have "table_of s peer = None" using free by (simp add: table_of_def)
  ultimately show ?thesis using member by (simp add: translation.assign)
qed

lemma step_translates:
  assumes inv: "udp_inv s" and pc: "pc_ok tgts s" and step: "udp_step tgts s t"
  shows "translation tgts (table_of s) (table_of t)"
  using step
proof cases
  case (received peer buf)
  then have "table_of t = table_of s" by (intro table_of_cong) (auto elim!: received_cases)
  then show ?thesis by (simp add: translation.keep)
next
  case (opened peer target buf r)
  then show ?thesis using pc by (auto simp: pc_ok_def intro: opened_translates [OF inv])
next
  case (forward out peer buf)
  then have "table_of t = table_of s" by (intro table_of_cong) (simp_all add: forward_datagram_def)
  then show ?thesis by (simp add: translation.keep)
next
  case (reply i task t0 buf sent)
  let ?s = "s\<lparr>ul_last := (ul_last s)(i := ul_now s), ul_sent := ul_sent s @ [ToClient i (rv_peer task) buf]\<rparr>"
  have "table_of t = table_of ?s" using reply by (simp add: rev_reply_def table_of_phase)
  also have "table_of ?s = table_of s" by (rule table_of_cong) simp_all
  finally show ?thesis by (simp add: translation.keep)
next
  case (remove i task)
  have ok: "table_ok s" "owns task" using inv remove by (simp_all add: udp_inv_def owns_def)
  show ?thesis unfolding remove(1) table_of_remove [OF remove(2)]
    by (rule translation.forget) (rule table_of_owned [OF ok(1) remove(2) ok(2)])
next
  case (finish i task)
  then have "table_of t = table_of s" using inv by (simp add: table_of_end udp_inv_def owns_def)
  then show ?thesis by (simp add: translation.keep)
next
  case recv_error
  then have "table_of t = table_of s" by (intro table_of_cong) (simp_all add: udp_recv_error_def)
  then show ?thesis by (simp add: translation.keep)
next
  case stop
  then have "table_of t = table_of s" by (intro table_of_cong) simp_all
  then show ?thesis by (simp add: translation.keep)
next
  case (elapse d)
  then have "table_of t = table_of s" by (intro table_of_cong) simp_all
  then show ?thesis by (simp add: translation.keep)
next
  case (reply_error i task t0)
  then show ?thesis by (simp add: table_of_phase translation.keep)
next
  case (timeout i task t0)
  then show ?thesis by (simp add: rev_timeout_def table_of_phase translation.keep)
qed

section \<open>Isolation of the clients\<close>

text \<open>
  A socket belongs to a client when its reverse task serves that client and everything sent on it
  or passed back from it was the client's.
\<close>

definition belongs :: "udp_listener \<Rightarrow> nat \<Rightarrow> socket_addr \<Rightarrow> bool" where
  "belongs s out peer \<longleftrightarrow>
     out < ul_next s \<and> (\<forall>task. ul_tasks s out = Some task \<longrightarrow> rv_peer task = peer) \<and>
     (\<forall>e \<in> set (ul_sent s). ev_out e = out \<longrightarrow> ev_client e = peer)"

definition history_ok :: "udp_listener \<Rightarrow> bool" where
  "history_ok s \<longleftrightarrow>
     (\<forall>e \<in> set (ul_sent s). belongs s (ev_out e) (ev_client e)) \<and>
     (\<forall>out peer buf. ul_pc s = Forwarding out peer buf \<longrightarrow> belongs s out peer)"

lemma belongs_frame:
  "\<lbrakk>belongs s out peer; tasks_within s t; ul_sent t = ul_sent s\<rbrakk> \<Longrightarrow> belongs t out peer"
  unfolding belongs_def tasks_within_def by fastforce

lemma belongs_send:
  "\<lbrakk>belongs s out peer; tasks_within s t; ul_sent t = ul_sent s @ [e]; ev_out e = out \<Longrightarrow> ev_client e = peer\<rbrakk>
     \<Longrightarrow> belongs t out peer"
  unfolding belongs_def tasks_within_def by fastforce

lemma history_move:
  assumes "history_ok s" "ul_sent t = ul_sent s" "tasks_within s t"
    "\<And>out peer buf. ul_pc t = Forwarding out peer buf \<Longrightarrow> belongs s out peer"
  shows "history_ok t"
  using assms(1,2,4) belongs_frame [OF _ assms(3,2)] unfolding history_ok_def by auto

lemma history_frame:
  assumes "history_ok s" "ul_sent t = ul_sent s" "tasks_within s t" "ul_pc t = ul_pc s"
  shows "history_ok t"
proof (rule history_move [OF assms(1-3)])
  show "belongs s out peer" if "ul_pc t = Forwarding out peer buf" for out peer buf
    using assms(1) that unfolding assms(4) history_ok_def by blast
qed

lemma history_send:
  assumes "history_ok s" "ul_sent t = ul_sent s @ [e]" "tasks_within s t" "belongs s (ev_out e) (ev_client e)"
    and "ul_pc t = ul_pc s \<and> (\<exists>task. ul_tasks s (ev_out e) = Some task) \<or> ul_pc t = Receiving"
  shows "history_ok t"
proof -
  have "belongs t (ev_out d) (ev_client d)" if "d \<in> set (ul_sent t)" for d
  proof (cases "d = e")
    case True
    then show ?thesis using belongs_send [OF assms(4,3,2)] by simp
  next
    case False
    then have d: "d \<in> set (ul_sent s)" using that assms(2) by simp
    then have "ev_out e = ev_out d \<Longrightarrow> ev_client e = ev_client d"
      using assms(4) unfolding belongs_def by metis
    then show ?thesis using d assms(1) belongs_send [OF _ assms(3,2)] by (simp add: history_ok_def)
  qed
  moreover have "belongs t out peer" if pc: "ul_pc t = Forwarding out peer buf" for out peer buf
  proof -
    have "ul_pc s = Forwarding out peer buf" "\<exists>task. ul_tasks s (ev_out e) = Some task"
      using pc assms(5) by auto
    then have b: "belongs s out peer" "\<exists>task. ul_tasks s (ev_out e) = Some task"
      using assms(1) unfolding history_ok_def by blast+
    then have "ev_out e = out \<Longrightarrow> ev_client e = peer" using assms(4) unfolding belongs_def by auto
    then show ?thesis using belongs_send [OF b(1) assms(3,2)] by blast
  qed
  ultimately show ?thesis unfolding history_ok_def by blast
qed

lemma task_belongs:
  assumes "udp_inv s" "history_ok s" "ul_tasks s i = Some task"
  shows "belongs s i (rv_peer task)"
proof -
  have "i < ul_next s" using assms(1,3) by (auto simp: udp_inv_def gauge_ok_def)
  moreover have "ev_client e = rv_peer task" if "e \<in> set (ul_sent s)" "ev_out e = i" for e
    using assms(2,3) that unfolding history_ok_def belongs_def by metis
  ultimately show ?thesis using assms(3) by (simp add: belongs_def)
qed

lemma history_received:
  assumes inv: "udp_inv s" and h: "history_ok s" and d: "udp_received tgts peer buf s = Some t"
  shows "history_ok t"
  using d
proof (cases rule: received_cases)
  case (existing out)
  then obtain task where "ul_tasks s out = Some task" "rv_peer task = peer"
    using inv unfolding udp_inv_def table_ok_def by blast
  then have "belongs s out peer" using task_belongs [OF inv h] by blast
  then show ?thesis using existing by (intro history_move [OF h]) (simp_all add: within)
next
  case (fresh rr target)
  then show ?thesis by (intro history_move [OF h]) (simp_all add: within)
qed

lemma within_open: "tasks_within s (udp_opened r peer target buf s)"
  by (cases r)
     (auto simp: tasks_within_def udp_opened_def open_session_def spawn_reverse_def Let_def split: if_splits)

lemma history_opened:
  assumes h: "history_ok s"
  shows "history_ok (udp_opened r peer target buf s)" (is "history_ok ?t")
proof -
  have sent: "ul_sent ?t = ul_sent s"
    by (cases r) (simp_all add: udp_opened_def open_session_def spawn_reverse_def Let_def)
  have "belongs ?t (ev_out e) (ev_client e)" if "e \<in> set (ul_sent ?t)" for e
  proof (rule belongs_frame [OF _ within_open sent])
    show "belongs s (ev_out e) (ev_client e)" using that h sent by (simp add: history_ok_def)
  qed
  moreover have "belongs ?t out p" if "ul_pc ?t = Forwarding out p b" for out p b
  proof -
    have fresh: "ev_out e \<noteq> ul_next s" if "e \<in> set (ul_sent s)" for e
      using h that unfolding history_ok_def belongs_def by (metis less_irrefl)
    have "out = ul_next s" "p = peer" "ul_next ?t = Suc (ul_next s)" "\<forall>task. ul_tasks ?t (ul_next s) = Some task \<longrightarrow> rv_peer task = peer"
      using that by (cases r; simp add: udp_opened_def open_session_def spawn_reverse_def Let_def)+
    then show ?thesis using fresh by (simp add: belongs_def sent)
  qed
  ultimately show ?thesis unfolding history_ok_def by blast
qed

lemma history_step:
  assumes inv: "udp_inv s" and h: "history_ok s" and step: "udp_step tgts s t"
  shows "history_ok t"
  using step
proof cases
  case (received peer buf)
  then show ?thesis using history_received [OF inv h] by blast
next
  case (opened peer target buf r)
  then show ?thesis using history_opened [OF h] by simp
next
  case (forward out peer buf)
  have "belongs s out peer" using h forward by (simp add: history_ok_def)
  then show ?thesis
    by (intro history_send [OF h, where e = "ToTarget out peer buf"])
       (simp_all add: forward within forward_datagram_def)
next
  case (reply i task t0 buf sent)
  then show ?thesis using task_belongs [OF inv h reply(2)]
    by (intro history_send [OF h, where e = "ToClient i (rv_peer task) buf"])
       (simp_all add: within, simp_all add: rev_reply_def set_phase_def Let_def)
next
  case (remove i task)
  then show ?thesis by (intro history_frame [OF h]) (simp_all add: within, simp_all add: rev_remove_def set_phase_def)
next
  case (finish i task)
  then show ?thesis by (intro history_frame [OF h]) (simp_all add: within, simp_all add: rev_end_def)
next
  case (timeout i task t0)
  then show ?thesis by (intro history_frame [OF h]) (simp_all add: within rev_timeout_def, simp_all add: set_phase_def)
next
  case (reply_error i task t0)
  then show ?thesis by (intro history_frame [OF h]) (simp_all add: within, simp_all add: set_phase_def)
next
  case recv_error
  then show ?thesis by (intro history_frame [OF h]) (simp_all add: within udp_recv_error_def)
next
  case stop
  then show ?thesis by (intro history_frame [OF h]) (simp_all add: within)
next
  case (elapse d)
  then show ?thesis by (intro history_frame [OF h]) (simp_all add: within)
qed

lemma history_start: "history_ok (udp_start st now)"
  by (simp add: history_ok_def udp_start_def)

interpretation isolated: machine "\<lambda>s. \<exists>st now. st_active st = 0 \<and> s = udp_start st now" "udp_step tgts"
  "\<lambda>s. (udp_inv s \<and> pc_ok tgts s) \<and> history_ok s" for tgts
  by unfold_locales (auto intro: udp_inv_step udp_inv_start pc_step pc_start history_step history_start)

section \<open>Opening a socket\<close>

definition session_calls :: "socket_addr \<Rightarrow> u32 option \<Rightarrow> trace" where
  "session_calls sa mark =
     [SocketNew (sa_ip sa) Dgram, SetNonblocking] @ map SetMark (opt_list mark) @
     [Bind (bind_any sa), Connect sa, FromStd]"

lemma bind_connected_follows: "follows (bind_connected os sa mark) (session_calls sa mark)"
proof -
  have "follows (bind_connected os sa mark)
     ([SocketNew (sa_ip sa) Dgram] @ [SetNonblocking] @ map SetMark (opt_list mark) @
      [Bind (bind_any sa)] @ [Connect sa] @ [FromStd] @ [])"
    unfolding bind_connected_def opt_list_def by (intro follows_intros)
  then show ?thesis by (simp add: session_calls_def)
qed

interpretation opening_session: scripted "bind_connected os sa mark" "session_calls sa mark" for os sa mark
  by unfold_locales (rule bind_connected_follows)

lemma bind_connected_result: "bind_connected os sa mark t = (Inr c, t') \<Longrightarrow> c = sa"
  by (auto simp: bind_connected_def ebind_Ok_iff)

section \<open>Every run\<close>

lemma translation_keeps:
  "\<lbrakk>translation tgts m m'; m peer = Some target; m' peer = Some target'\<rbrakk> \<Longrightarrow> target' = target"
  by (cases rule: translation.cases) (auto split: if_splits)

lemma udp_step_translates:
  assumes "udp_serve bound spec stats now = Ok s0" "st_active stats = 0" "(udp_step tgts)\<^sup>*\<^sup>* s0 s" "udp_step tgts s t"
  shows "translation tgts (table_of s) (table_of t)"
  by (rule step_translates [OF udp_reachable [OF assms(1-3)] assms(4)])

lemma udp_table_targets:
  assumes "udp_serve bound spec stats now = Ok s0" "st_active stats = 0" "(udp_step tgts)\<^sup>*\<^sup>* s0 s"
    "table_of s peer = Some target"
  shows "target \<in> set tgts"
  using assms(3,4)
proof (induction arbitrary: peer target rule: rtranclp_induct)
  case base
  then show ?case using assms(1) by (auto simp: udp_serve_Ok udp_start_def table_of_def lookup_def)
next
  case (step y z)
  from udp_step_translates [OF assms(1,2) step(1,2)] show ?case
    by cases (use step in \<open>auto split: if_splits\<close>)
qed

lemma udp_isolated:
  assumes "udp_serve bound spec stats now = Ok s0" "st_active stats = 0" "(udp_step tgts)\<^sup>*\<^sup>* s0 s"
    "e \<in> set (ul_sent s)" "e' \<in> set (ul_sent s)" "ev_out e = ev_out e'"
  shows "ev_client e = ev_client e'"
proof -
  have "history_ok s"
    using isolated.inv_reachable [OF _ assms(3)] assms(1,2) unfolding udp_serve_Ok by blast
  then show ?thesis using assms(4-6) unfolding history_ok_def belongs_def by metis
qed

section \<open>A plain forwarder\<close>

text \<open>
  A forwarder with nothing but a table, a turn and a log of what it sent where: the reference for
  the receive loop between two interruptions. The turn counts every new client; it is read modulo
  the width of the loop's counter.
\<close>

record forwarder =
  fw_table :: "socket_addr \<rightharpoonup> string"
  fw_turn :: nat
  fw_out :: "(string \<times> socket_addr \<times> bytes) list"
  fw_opened :: nat
  fw_failed :: nat

definition fw_datagram ::
  "string list \<Rightarrow> (string \<Rightarrow> (io_error, socket_addr) result) \<Rightarrow> socket_addr \<Rightarrow> bytes \<Rightarrow> forwarder \<Rightarrow> forwarder" where
  "fw_datagram tgts opened peer buf f =
     (case fw_table f peer of
        Some target \<Rightarrow> f\<lparr>fw_out := fw_out f @ [(target, peer, buf)]\<rparr>
      | None \<Rightarrow>
          (let target = tgts ! (fw_turn f mod 2 ^ 64 mod length tgts)
           in (case opened target of
                 Inl e \<Rightarrow> f\<lparr>fw_turn := fw_turn f + 1, fw_failed := fw_failed f + 1\<rparr>
               | Inr _ \<Rightarrow>
                   f\<lparr>fw_turn := fw_turn f + 1, fw_opened := fw_opened f + 1, fw_table := (fw_table f)(peer \<mapsto> target),
                     fw_out := fw_out f @ [(target, peer, buf)]\<rparr>)))"

fun fw_datagrams ::
  "string list \<Rightarrow> (socket_addr \<times> bytes \<times> (string \<Rightarrow> (io_error, socket_addr) result)) list \<Rightarrow> forwarder \<Rightarrow> forwarder" where
  "fw_datagrams tgts [] f = f"
| "fw_datagrams tgts ((peer, buf, opened) # ds) f = fw_datagrams tgts ds (fw_datagram tgts opened peer buf f)"

fun udp_datagrams ::
  "string list \<Rightarrow> (socket_addr \<times> bytes \<times> (string \<Rightarrow> (io_error, socket_addr) result)) list \<Rightarrow>
     udp_listener \<Rightarrow> udp_listener option" where
  "udp_datagrams tgts [] s = Some s"
| "udp_datagrams tgts ((peer, buf, opened) # ds) s =
     Option.bind (udp_datagram tgts opened peer buf s) (udp_datagrams tgts ds)"

text \<open>Where an event went: the target of the task of its socket.\<close>

definition sent_to :: "udp_listener \<Rightarrow> udp_event \<Rightarrow> (string \<times> socket_addr \<times> bytes) option" where
  "sent_to s e = map_option (\<lambda>task. (rv_target task, ev_client e, ev_data e)) (ul_tasks s (ev_out e))"

definition forwards :: "string list \<Rightarrow> udp_listener \<Rightarrow> udp_listener \<Rightarrow> forwarder \<Rightarrow> bool" where
  "forwards tgts s t f \<longleftrightarrow>
     udp_inv t \<and> ul_listening t \<and> ul_pc t = Receiving \<and> table_of t = fw_table f \<and>
     (\<exists>evs. ul_sent t = ul_sent s @ evs \<and> map (sent_to t) evs = map Some (fw_out f)) \<and>
     (if length tgts = 1 then ul_rr t = ul_rr s else ul_rr t = word_of_nat (fw_turn f)) \<and>
     fw_turn f = unat (ul_rr s) + fw_opened f + fw_failed f \<and>
     st_accepted (ul_stats t) = st_accepted (ul_stats s) + word_of_nat (fw_opened f) \<and>
     st_errors (ul_stats t) = st_errors (ul_stats s) + word_of_nat (fw_failed f)"

lemma sent_to_kept:
  assumes "map (sent_to s) evs = map Some outs" "\<And>i task. ul_tasks s i = Some task \<Longrightarrow> ul_tasks t i = Some task"
  shows "map (sent_to t) evs = map Some outs"
  using assms(1)
proof (induction evs arbitrary: outs)
  case (Cons e evs)
  then show ?case using assms(2) by (cases outs) (auto simp: sent_to_def)
qed simp

text \<open>The listener after one datagram, without interruption.\<close>

lemma datagram_existing:
  "lookup s peer = Some out \<Longrightarrow> udp_datagram tgts opened peer buf s = Some (forward_datagram out peer buf s)"
  by (simp add: udp_datagram_def udp_received_def forward_datagram_def Let_def)

lemma datagram_new:
  assumes "lookup s peer = None" "tgts \<noteq> []"
  shows "udp_datagram tgts opened peer buf s =
     (let target = tgts ! (unat (ul_rr s) mod length tgts);
          s1 = s\<lparr>ul_rr := if length tgts = 1 then ul_rr s else ul_rr s + 1\<rparr> in
      Some (case opened target of
              Inl e \<Rightarrow> s1\<lparr>ul_stats := inc_error (ul_stats s), ul_pc := Receiving\<rparr>
            | Inr _ \<Rightarrow> forward_datagram (ul_next s) peer buf (open_session peer target s1)))"
  using assms(1) udp_rr.pick_target_eq [OF assms(2), of "ul_rr s"]
  by (simp add: udp_datagram_def udp_received_def udp_opened_def Let_def open_session_def spawn_reverse_def
      forward_datagram_def split: sum.split)

lemma turn_index:
  assumes "tgts \<noteq> []" "length tgts = 1 \<or> rr = (word_of_nat n :: u64)"
  shows "unat rr mod length tgts = n mod 2 ^ 64 mod length tgts"
  using assms(2)
proof
  assume "rr = word_of_nat n"
  then show ?thesis by (simp add: unat_of_nat)
qed simp

text \<open>Handling a datagram without interruption is a run of steps.\<close>

lemma datagram_steps:
  assumes d: "udp_datagram tgts opened peer buf s = Some t" and l: "ul_listening s" "ul_pc s = Receiving"
  shows "(udp_step tgts)\<^sup>*\<^sup>* s t"
proof -
  obtain s1 where s1: "udp_received tgts peer buf s = Some s1" using d by (auto simp: udp_datagram_def)
  have l1: "ul_listening s1" using s1 l(1) by (auto elim!: received_cases)
  define s2 where "s2 = (case ul_pc s1 of Opening p target b \<Rightarrow> udp_opened (opened target) p target b s1 | _ \<Rightarrow> s1)"
  have "udp_datagram tgts opened peer buf s =
      Some (case ul_pc s2 of Forwarding out p b \<Rightarrow> forward_datagram out p b s2 | _ \<Rightarrow> s2)"
    unfolding udp_datagram_def s1 s2_def Let_def by simp
  with d have t: "t = (case ul_pc s2 of Forwarding out p b \<Rightarrow> forward_datagram out p b s2 | _ \<Rightarrow> s2)" by simp
  have "udp_step tgts s s1" by (rule udp_step.received [OF l s1])
  moreover have "(udp_step tgts)\<^sup>*\<^sup>* s1 s2" unfolding s2_def using l1 by (cases "ul_pc s1") (auto intro: udp_step.opened)
  moreover have "ul_listening s2" unfolding s2_def using l1
    by (auto simp: udp_opened_def open_session_def spawn_reverse_def Let_def split: recv_pc.split sum.split)
  then have "(udp_step tgts)\<^sup>*\<^sup>* s2 t" unfolding t by (cases "ul_pc s2") (auto intro: udp_step.forward)
  ultimately show ?thesis by (meson converse_rtranclp_into_rtranclp rtranclp_trans)
qed

lemma datagram_inv:
  assumes "(udp_step tgts)\<^sup>*\<^sup>* s t" "udp_inv s" "pc_ok tgts s"
  shows "udp_inv t"
proof -
  have "udp_inv t \<and> pc_ok tgts t"
    using assms(1) by (induction rule: rtranclp_induct) (use assms(2,3) udp_inv_step pc_step in blast)+
  then show ?thesis ..
qed

lemma datagram_forward:
  assumes ts: "tgts \<noteq> []" and f: "forwards tgts s0 s f"
  shows "\<exists>t. udp_datagram tgts opened peer buf s = Some t \<and> (udp_step tgts)\<^sup>*\<^sup>* s t \<and>
     forwards tgts s0 t (fw_datagram tgts opened peer buf f)"
proof -
  have inv: "udp_inv s" and l: "ul_listening s" "ul_pc s = Receiving" using f by (simp_all add: forwards_def)
  have ok: "table_ok s" "gauge_ok s" using inv by (simp_all add: udp_inv_def)
  have pc: "pc_ok tgts s" using l(2) by (simp add: pc_ok_def)
  have tab: "table_of s = fw_table f" using f by (simp add: forwards_def)
  obtain evs where evs: "ul_sent s = ul_sent s0 @ evs" "map (sent_to s) evs = map Some (fw_out f)"
    using f unfolding forwards_def by blast
  obtain t where t: "udp_datagram tgts opened peer buf s = Some t"
    using datagram_existing datagram_new [OF _ ts] by (cases "lookup s peer") (fastforce simp: Let_def)+
  note steps = datagram_steps [OF t l]
  have inv_t: "udp_inv t" using steps inv pc by (rule datagram_inv)
  show ?thesis
  proof (cases "lookup s peer")
    case (Some out)
    obtain task where task: "ul_tasks s out = Some task" "table_of s peer = Some (rv_target task)"
      using Some ok(1) by (auto simp: table_ok_def table_of_def)
    have eq: "t = forward_datagram out peer buf s" using t datagram_existing [OF Some] by simp
    have "fw_datagram tgts opened peer buf f = f\<lparr>fw_out := fw_out f @ [(rv_target task, peer, buf)]\<rparr>"
      using task(2) tab by (simp add: fw_datagram_def)
    moreover have "table_of t = table_of s" unfolding eq by (rule table_of_cong) (simp_all add: forward_datagram_def)
    moreover have "map (sent_to t) (evs @ [ToTarget out peer buf]) = map Some (fw_out f @ [(rv_target task, peer, buf)])"
      using sent_to_kept [OF evs(2), of t] task(1) by (simp add: eq forward_datagram_def sent_to_def)
    ultimately have "forwards tgts s0 t (fw_datagram tgts opened peer buf f)"
      using f evs(1) inv_t tab l unfolding forwards_def
      by (auto simp: eq forward_datagram_def intro!: exI [of _ "evs @ [ToTarget out peer buf]"])
    with t steps show ?thesis by blast
  next
    case None
    let ?target = "tgts ! (unat (ul_rr s) mod length tgts)"
    have tgt: "?target = tgts ! (fw_turn f mod 2 ^ 64 mod length tgts)"
      using f turn_index [OF ts, of "ul_rr s" "fw_turn f"] by (auto simp: forwards_def split: if_splits)
    have new: "fw_table f peer = None" using None tab by (simp add: table_of_def flip: tab)
    show ?thesis
    proof (cases "opened ?target")
      case (Inl e)
      have eq: "t = s\<lparr>ul_rr := if length tgts = 1 then ul_rr s else ul_rr s + 1,
          ul_stats := inc_error (ul_stats s), ul_pc := Receiving\<rparr>"
        using t datagram_new [OF None ts, of opened buf] Inl by (simp add: Let_def)
      have "fw_datagram tgts opened peer buf f = f\<lparr>fw_turn := fw_turn f + 1, fw_failed := fw_failed f + 1\<rparr>"
        using new Inl tgt by (simp add: fw_datagram_def Let_def)
      moreover have "table_of t = table_of s" unfolding eq by (rule table_of_cong) simp_all
      moreover have "map (sent_to t) evs = map Some (fw_out f)" by (rule sent_to_kept [OF evs(2)]) (simp add: eq)
      ultimately have "forwards tgts s0 t (fw_datagram tgts opened peer buf f)"
        using f evs(1) inv_t tab l unfolding forwards_def by (auto simp: eq inc_error_def)
      with t steps show ?thesis by blast
    next
      case (Inr sa)
      let ?s1 = "s\<lparr>ul_rr := if length tgts = 1 then ul_rr s else ul_rr s + 1\<rparr>"
      have eq: "t = forward_datagram (ul_next s) peer buf (open_session peer ?target ?s1)"
        using t datagram_new [OF None ts, of opened buf] Inr by (simp add: Let_def)
      have fr: "ul_tasks s (ul_next s) = None" by (rule fresh_task [OF ok(2)])
      have "fw_datagram tgts opened peer buf f =
          f\<lparr>fw_turn := fw_turn f + 1, fw_opened := fw_opened f + 1, fw_table := (fw_table f)(peer \<mapsto> ?target),
            fw_out := fw_out f @ [(?target, peer, buf)]\<rparr>"
        using new Inr tgt by (simp add: fw_datagram_def Let_def)
      moreover have "table_of t = (table_of s)(peer \<mapsto> ?target)"
      proof -
        have "table_of t = table_of (open_session peer ?target s)"
          unfolding eq by (rule table_of_cong) (simp_all add: forward_datagram_def open_session_def spawn_reverse_def Let_def)
        then show ?thesis using table_of_open [OF ok(1) fr] None by simp
      qed
      moreover have "map (sent_to t) (evs @ [ToTarget (ul_next s) peer buf]) = map Some (fw_out f @ [(?target, peer, buf)])"
      proof -
        have "map (sent_to t) evs = map Some (fw_out f)"
          by (rule sent_to_kept [OF evs(2)]) (use fr in \<open>auto simp: eq forward_datagram_def open_session_def spawn_reverse_def Let_def\<close>)
        then show ?thesis by (simp add: sent_to_def eq forward_datagram_def open_session_def spawn_reverse_def Let_def)
      qed
      ultimately have "forwards tgts s0 t (fw_datagram tgts opened peer buf f)"
        using f evs(1) inv_t tab l unfolding forwards_def
        by (auto simp: eq forward_datagram_def open_session_def spawn_reverse_def on_accept_def Let_def
            intro!: exI [of _ "evs @ [ToTarget (ul_next s) peer buf]"])
      with t steps show ?thesis by blast
    qed
  qed
qed

lemma datagrams_forward:
  assumes "tgts \<noteq> []" "forwards tgts s0 s f"
  shows "\<exists>t. udp_datagrams tgts ds s = Some t \<and> (udp_step tgts)\<^sup>*\<^sup>* s t \<and> forwards tgts s0 t (fw_datagrams tgts ds f)"
  using assms(2)
proof (induction ds arbitrary: s f)
  case (Cons d ds)
  obtain peer buf opened where d: "d = (peer, buf, opened)" by (rule prod_cases3)
  obtain u where u: "udp_datagram tgts opened peer buf s = Some u" "(udp_step tgts)\<^sup>*\<^sup>* s u"
    "forwards tgts s0 u (fw_datagram tgts opened peer buf f)"
    using datagram_forward [OF assms(1) Cons.prems] by blast
  from Cons.IH [OF u(3)] u(1) rtranclp_trans [OF u(2)] show ?case by (auto simp: d)
qed auto

section \<open>Properties\<close>

definition sample_client :: socket_addr where
  "sample_client = SocketAddrV4 (Ipv4Addr 9 9 9 9) 5000"

definition sample_opened :: udp_listener where
  "sample_opened =
     the (udp_datagram [''1.2.3.4:53''] (\<lambda>_. Ok (SocketAddrV4 (Ipv4Addr 1 2 3 4) 53)) sample_client [7]
            (udp_start (stats_new ''udp://:53'' ''udp'') 0))"

lemma sample_opened_eq:
  "sample_opened = (udp_start (stats_new ''udp://:53'' ''udp'') 0)
     \<lparr>ul_stats := on_accept (stats_new ''udp://:53'' ''udp''), ul_next := 1,
      ul_sessions := [sample_client \<mapsto> \<lparr>ss_out = 0\<rparr>], ul_last := (\<lambda>_. 0),
      ul_tasks := [0 \<mapsto> \<lparr>rv_peer = sample_client, rv_target = ''1.2.3.4:53'', rv_phase = RevLoop 0\<rparr>],
      ul_sent := [ToTarget 0 sample_client [7]]\<rparr>"
  by (simp add: sample_opened_def udp_start_def udp_datagram_def udp_received_def udp_opened_def lookup_def
      udp_pick_target_def Let_def open_session_def spawn_reverse_def forward_datagram_def fun_upd_idem)

lemma sample_opened_steps:
  "(udp_step [''1.2.3.4:53''])\<^sup>*\<^sup>* (udp_start (stats_new ''udp://:53'' ''udp'') 0) sample_opened"
proof (rule datagram_steps)
  show "udp_datagram [''1.2.3.4:53''] (\<lambda>_. Ok (SocketAddrV4 (Ipv4Addr 1 2 3 4) 53)) sample_client [7]
      (udp_start (stats_new ''udp://:53'' ''udp'') 0) = Some sample_opened"
    by (simp add: sample_opened_def udp_start_def udp_datagram_def udp_received_def lookup_def udp_pick_target_def)
qed (simp_all add: udp_start_def)

lemma sample_udp_serve:
  "udp_serve (Ok ()) sample_spec (stats_new ''udp://:53'' ''udp'') 0 = Ok (udp_start (stats_new ''udp://:53'' ''udp'') 0)"
  "st_active (stats_new ''udp://:53'' ''udp'') = 0"
  by (simp_all add: udp_serve_Ok stats_new_def)

text \<open>
  In every state a UDP listener reaches, the session table and the reverse tasks agree: a peer
  has a table entry exactly when exactly one reverse task serves it that has not yet taken its entry
  out, so no task removes the entry of another session and no entry outlives its task; and the
  active gauge is the number of sessions whose task still runs.
\<close>

theorem udp_sessions_match_tasks:
  assumes "udp_serve bound spec stats now = Ok s0" "st_active stats = 0" "(udp_step tgts)\<^sup>*\<^sup>* s0 s"
  shows "(\<forall>peer i. lookup s peer = Some i \<longleftrightarrow>
        (\<exists>task. ul_tasks s i = Some task \<and> owns task \<and> rv_peer task = peer)) \<and>
     finite (dom (ul_tasks s)) \<and> st_active (ul_stats s) = word_of_nat (card (dom (ul_tasks s)))"
  using udp_reachable [OF assms] unfolding udp_inv_def table_ok_def gauge_ok_def by blast

theorem udp_sessions_match_tasks_witness:
  "lookup sample_opened sample_client = Some 0 \<and> st_active (ul_stats sample_opened) = 1"
proof -
  note t = udp_sessions_match_tasks [OF sample_udp_serve sample_opened_steps]
  have "ul_tasks sample_opened =
      [0 \<mapsto> \<lparr>rv_peer = sample_client, rv_target = ''1.2.3.4:53'', rv_phase = RevLoop 0\<rparr>]"
    by (simp add: sample_opened_eq)
  with t show ?thesis by (auto simp: owns_def)
qed

text \<open>
  C11: The UDP listener implements an address translation table, step by step: in every state it
  reaches, whatever the receive loop, a reverse task or the clock does next, the map from clients to
  targets stays as it is, or one client that has no target is given one of the listener's targets,
  or one client is forgotten. So a client that has a target before and after a step has the same:
  nobody is ever moved from one target to another.
\<close>

theorem udp_refines_translation:
  assumes "udp_serve bound spec stats now = Ok s0" "st_active stats = 0" "(udp_step tgts)\<^sup>*\<^sup>* s0 s" "udp_step tgts s t"
  shows "translation tgts (table_of s) (table_of t) \<and>
     (\<forall>peer target target'. table_of s peer = Some target \<and> table_of t peer = Some target' \<longrightarrow> target' = target)"
  using udp_step_translates [OF assms] translation_keeps by blast

text \<open>The session of the sample client breaks and is removed.\<close>

theorem udp_refines_translation_witness:
  "\<exists>s t. (udp_step [''1.2.3.4:53''])\<^sup>*\<^sup>* sample_opened s \<and> udp_step [''1.2.3.4:53''] s t \<and>
     table_of s = [sample_client \<mapsto> ''1.2.3.4:53''] \<and> table_of t = Map.empty \<and>
     translation [''1.2.3.4:53''] (table_of s) (table_of t)"
proof -
  let ?task = "\<lparr>rv_peer = sample_client, rv_target = ''1.2.3.4:53'', rv_phase = RevLoop 0\<rparr>"
  let ?broken = "?task\<lparr>rv_phase := RevBroken\<rparr>"
  define s where "s = set_phase 0 ?task RevBroken sample_opened"
  define t where "t = rev_remove 0 ?broken s"
  have "udp_step [''1.2.3.4:53''] sample_opened s"
    unfolding s_def by (rule udp_step.reply_error) (simp_all add: sample_opened_eq)
  then have run: "(udp_step [''1.2.3.4:53''])\<^sup>*\<^sup>* sample_opened s" by blast
  have task: "ul_tasks s 0 = Some ?broken" by (simp add: s_def set_phase_def)
  have step: "udp_step [''1.2.3.4:53''] s t" unfolding t_def by (rule udp_step.remove [OF task]) simp
  have "table_of s = [sample_client \<mapsto> ''1.2.3.4:53'']" "table_of t = Map.empty"
    by (auto simp: table_of_def lookup_def s_def t_def rev_remove_def set_phase_def sample_opened_eq)
  with udp_refines_translation [OF sample_udp_serve rtranclp_trans [OF sample_opened_steps run] step] run step
  show ?thesis by blast
qed

text \<open>
  UDP clients are isolated from each other: at every moment, everything that was ever sent on
  one outbound socket and every reply that was ever passed back from it belong to the same client,
  whatever the interleaving of datagrams, replies, errors, timeouts and reopened sessions.
\<close>

theorem udp_clients_isolated:
  assumes "udp_serve bound spec stats now = Ok s0" "st_active stats = 0" "(udp_step tgts)\<^sup>*\<^sup>* s0 s"
    "e \<in> set (ul_sent s)" "e' \<in> set (ul_sent s)" "ev_out e = ev_out e'"
  shows "ev_client e = ev_client e'"
  using assms by (rule udp_isolated)

theorem udp_clients_isolated_witness:
  "\<exists>s. (udp_step [''1.2.3.4:53''])\<^sup>*\<^sup>* (udp_start (stats_new ''udp://:53'' ''udp'') 0) s \<and>
     ul_sent s = [ToTarget 0 sample_client [7], ToClient 0 sample_client [8]] \<and>
     ev_client (ul_sent s ! 0) = ev_client (ul_sent s ! 1)"
proof -
  let ?task = "\<lparr>rv_peer = sample_client, rv_target = ''1.2.3.4:53'', rv_phase = RevLoop 0\<rparr>"
  let ?s = "rev_reply 0 ?task [8] True sample_opened"
  have "udp_step [''1.2.3.4:53''] sample_opened ?s"
    by (rule udp_step.reply) (simp_all add: sample_opened_eq)
  then have steps: "(udp_step [''1.2.3.4:53''])\<^sup>*\<^sup>* (udp_start (stats_new ''udp://:53'' ''udp'') 0) ?s"
    using sample_opened_steps by (rule rtranclp.rtrancl_into_rtrancl [rotated])
  have log: "ul_sent ?s = [ToTarget 0 sample_client [7], ToClient 0 sample_client [8]]"
    by (simp add: rev_reply_def set_phase_def sample_opened_eq)
  have "ev_client (ul_sent ?s ! 0) = ev_client (ul_sent ?s ! 1)"
    by (rule udp_clients_isolated [OF sample_udp_serve steps]) (simp_all add: log)
  with steps log show ?thesis by blast
qed

text \<open>
  C12: Idle sessions are reaped, and only idle ones: a reverse task that meets its timer gives up
  exactly when there was no activity in either direction for \<open>UDP_TTL\<close>, and a session that is idle
  for twice \<open>UDP_TTL\<close> has a timer that is due and that ends it.
\<close>

theorem udp_idle_reaping:
  assumes "udp_serve bound spec stats now = Ok s0" "st_active stats = 0" "(udp_step tgts)\<^sup>*\<^sup>* s0 s"
    "ul_tasks s i = Some task" "rv_phase task = RevLoop t0"
  shows "((\<exists>task'. ul_tasks (rev_timeout i task s) i = Some task' \<and> rv_phase task' = RevBroken) \<longleftrightarrow>
        ul_last s i + UDP_TTL \<le> ul_now s) \<and>
     (ul_last s i + 2 * UDP_TTL \<le> ul_now s \<longrightarrow>
        t0 + UDP_TTL \<le> ul_now s \<and> udp_step tgts s (rev_timeout i task s))"
proof -
  have t: "ul_last s i \<le> ul_now s" "t0 < ul_last s i + UDP_TTL"
    using udp_reachable [OF assms(1-3)] assms(4,5) unfolding udp_inv_def timer_ok_def by blast+
  have "(\<exists>task'. ul_tasks (rev_timeout i task s) i = Some task' \<and> rv_phase task' = RevBroken) \<longleftrightarrow>
      UDP_TTL \<le> ul_now s - ul_last s i"
    by (simp add: rev_timeout_def set_phase_def)
  moreover have "UDP_TTL \<le> ul_now s - ul_last s i \<longleftrightarrow> ul_last s i + UDP_TTL \<le> ul_now s"
    using t(1) by auto
  moreover have "t0 + UDP_TTL \<le> ul_now s" if "ul_last s i + 2 * UDP_TTL \<le> ul_now s" using that t(2) by simp
  ultimately show ?thesis using udp_step.timeout [OF assms(4,5)] by blast
qed

theorem udp_idle_reaping_witness:
  "udp_step [''1.2.3.4:53''] (sample_opened\<lparr>ul_now := 120000\<rparr>)
     (rev_timeout 0 (the (ul_tasks sample_opened 0)) (sample_opened\<lparr>ul_now := 120000\<rparr>))"
proof -
  let ?s = "sample_opened\<lparr>ul_now := 120000\<rparr>"
  have "udp_step [''1.2.3.4:53''] sample_opened (sample_opened\<lparr>ul_now := ul_now sample_opened + 120000\<rparr>)"
    by (rule udp_step.elapse)
  then have e: "udp_step [''1.2.3.4:53''] sample_opened ?s" by (simp add: sample_opened_eq udp_start_def)
  then have steps: "(udp_step [''1.2.3.4:53''])\<^sup>*\<^sup>* (udp_start (stats_new ''udp://:53'' ''udp'') 0) ?s"
    using sample_opened_steps by (rule rtranclp.rtrancl_into_rtrancl [rotated])
  have task: "ul_tasks ?s 0 = Some (the (ul_tasks sample_opened 0))" "rv_phase (the (ul_tasks sample_opened 0)) = RevLoop 0"
    by (simp_all add: sample_opened_eq)
  have "ul_last ?s 0 + 2 * UDP_TTL \<le> ul_now ?s" by (simp add: sample_opened_eq UDP_TTL_def)
  with udp_idle_reaping [OF sample_udp_serve steps task] show ?thesis by blast
qed

text \<open>
  C13: The receive loop forwards like the plain forwarder of \<open>fw_datagram\<close>, from any state it reaches
  and for any sequence of datagrams handled without interruption: a client that has a target is sent
  there, a client that has none takes the next target in turn and keeps it when the socket opens,
  and is dropped and counted as an error when it does not. The same clients have the same targets
  afterwards, the datagrams went to the same targets in the same order, the turn has moved on by one
  for each new client, served or not (with a single target there is no turn), and as many sessions and errors were counted. There is no
  panic, and the whole is a run of the listener.
\<close>

theorem udp_forwards_in_turn:
  assumes "udp_serve bound spec stats now = Ok s0" "st_active stats = 0" "(udp_step tgts)\<^sup>*\<^sup>* s0 s"
    "tgts \<noteq> []" "ul_listening s" "ul_pc s = Receiving"
  shows "\<exists>t evs. udp_datagrams tgts ds s = Some t \<and> (udp_step tgts)\<^sup>*\<^sup>* s t \<and>
     (let f = fw_datagrams tgts ds \<lparr>fw_table = table_of s, fw_turn = unat (ul_rr s), fw_out = [], fw_opened = 0, fw_failed = 0\<rparr> in
      table_of t = fw_table f \<and>
      ul_sent t = ul_sent s @ evs \<and> map (sent_to t) evs = map Some (fw_out f) \<and>
      (if length tgts = 1 then ul_rr t = ul_rr s else ul_rr t = word_of_nat (fw_turn f)) \<and>
      fw_turn f = unat (ul_rr s) + fw_opened f + fw_failed f \<and>
      st_accepted (ul_stats t) = st_accepted (ul_stats s) + word_of_nat (fw_opened f) \<and>
      st_errors (ul_stats t) = st_errors (ul_stats s) + word_of_nat (fw_failed f))"
proof -
  let ?f = "\<lparr>fw_table = table_of s, fw_turn = unat (ul_rr s), fw_out = [], fw_opened = 0, fw_failed = 0\<rparr>"
  have "forwards tgts s s ?f" using udp_reachable [OF assms(1-3)] assms(5,6) by (simp add: forwards_def)
  from datagrams_forward [OF assms(4) this] obtain t where "udp_datagrams tgts ds s = Some t" "(udp_step tgts)\<^sup>*\<^sup>* s t"
    "forwards tgts s t (fw_datagrams tgts ds ?f)" by blast
  then show ?thesis unfolding forwards_def Let_def by metis
qed

text \<open>Two clients, two targets, and a third client for which the socket of the first does not open.\<close>

definition sample_datagrams :: "(socket_addr \<times> bytes \<times> (string \<Rightarrow> (io_error, socket_addr) result)) list" where
  "sample_datagrams =
     [(SocketAddrV4 (Ipv4Addr 9 9 9 9) 1, [1], \<lambda>_. Ok (SocketAddrV4 (Ipv4Addr 1 2 3 4) 53)),
      (SocketAddrV4 (Ipv4Addr 9 9 9 9) 2, [2], \<lambda>_. Ok (SocketAddrV4 (Ipv4Addr 1 2 3 4) 53)),
      (SocketAddrV4 (Ipv4Addr 9 9 9 9) 1, [3], \<lambda>_. Err eof_error),
      (SocketAddrV4 (Ipv4Addr 9 9 9 9) 3, [4], \<lambda>_. Err eof_error)]"

theorem udp_forwards_in_turn_witness:
  "\<exists>t. udp_datagrams [''a:1'', ''b:1''] sample_datagrams (udp_start (stats_new ''udp://:53'' ''udp'') 0) = Some t \<and>
     ul_rr t = 3 \<and> st_accepted (ul_stats t) = 2 \<and> st_errors (ul_stats t) = 1 \<and>
     map (sent_to t) (ul_sent t) =
       [Some (''a:1'', SocketAddrV4 (Ipv4Addr 9 9 9 9) 1, [1]), Some (''b:1'', SocketAddrV4 (Ipv4Addr 9 9 9 9) 2, [2]),
        Some (''a:1'', SocketAddrV4 (Ipv4Addr 9 9 9 9) 1, [3])]"
proof -
  let ?s = "udp_start (stats_new ''udp://:53'' ''udp'') 0"
  have s: "ul_listening ?s" "ul_pc ?s = Receiving" "table_of ?s = Map.empty" "ul_rr ?s = 0" "ul_sent ?s = []"
    "st_accepted (ul_stats ?s) = 0" "st_errors (ul_stats ?s) = 0"
    by (simp_all add: udp_start_def stats_new_def table_of_def lookup_def fun_eq_iff)
  have f: "fw_datagrams [''a:1'', ''b:1''] sample_datagrams
      \<lparr>fw_table = Map.empty, fw_turn = 0, fw_out = [], fw_opened = 0, fw_failed = 0\<rparr> =
      \<lparr>fw_table = [SocketAddrV4 (Ipv4Addr 9 9 9 9) 1 \<mapsto> ''a:1'', SocketAddrV4 (Ipv4Addr 9 9 9 9) 2 \<mapsto> ''b:1''],
       fw_turn = 3,
       fw_out = [(''a:1'', SocketAddrV4 (Ipv4Addr 9 9 9 9) 1, [1]), (''b:1'', SocketAddrV4 (Ipv4Addr 9 9 9 9) 2, [2]),
                 (''a:1'', SocketAddrV4 (Ipv4Addr 9 9 9 9) 1, [3])],
       fw_opened = 2, fw_failed = 1\<rparr>"
    by (simp add: sample_datagrams_def fw_datagram_def Let_def)
  from udp_forwards_in_turn [OF sample_udp_serve rtranclp.rtrancl_refl, of "[''a:1'', ''b:1'']" sample_datagrams]
  show ?thesis using s by (auto simp: f)
qed

text \<open>
  Opening a session's socket makes the documented calls in order and stops at the first failure:
  the mark is set before the socket is bound and connected, so no datagram leaves unmarked, and for
  an IPv4 literal no name is resolved.
\<close>

theorem udp_socket_calls:
  "new_session os dns (show_ipv4 a @ '':'' @ show_u16 p) mark = bind_connected os (SocketAddrV4 a p) mark \<and>
   (\<exists>cs. prefix cs (session_calls sa mark) \<and> snd (bind_connected os sa mark tr) = tr @ cs \<and>
      (isl (fst (bind_connected os sa mark tr)) \<or>
         cs = session_calls sa mark \<and> fst (bind_connected os sa mark tr) = Ok sa))"
proof -
  obtain r t' where d: "bind_connected os sa mark tr = (r, t')" by fastforce
  have "isl r \<or> r = Inr sa" using bind_connected_result [of os sa mark tr _ t'] d by (cases r) auto
  with opening_session.calls [OF d] d parse_socket_addr_show_v4 [of a p] show ?thesis
    by (auto simp: new_session_def)
qed

end
