(* ===== verification/Ipv6_Text.thy ===== *)
theory Ipv6_Text
  imports Rust_Net
begin

text \<open>
  The textual form of IPv6 addresses: what \<open>Display\<close> prints, with its compressed run of zero
  segments or its embedded IPv4 address, is read back by \<open>FromStr\<close> as the same address, alone and
  in front of a port.
\<close>

section \<open>Groups\<close>

text \<open>The groups with their separators; \<open>i\<close> groups come before.\<close>

fun sep_groups :: "nat \<Rightarrow> u16 list \<Rightarrow> string" where
  "sep_groups i [] = []"
| "sep_groups i (g # gs) =
     (if 0 < i then '':'' else []) @ show_radix 16 (unat g) @ sep_groups (Suc i) gs"

lemma show_groups_sep: "show_groups gs = sep_groups 0 gs"
proof -
  have later: "sep_groups (Suc i) gs = (if gs = [] then [] else CHR '':'' # show_groups gs)" for i gs
    by (induction gs arbitrary: i) (auto simp: show_groups_def neq_Nil_conv)
  show ?thesis by (cases gs) (auto simp: later show_groups_def neq_Nil_conv)
qed

text \<open>A text at which no further group starts.\<close>

definition group_end :: "string \<Rightarrow> bool" where
  "group_end s \<longleftrightarrow> stops 16 s \<and> (\<forall>t. s = CHR '':'' # t \<longrightarrow> stops 16 t)"

lemma group_end_simps [simp]:
  "group_end []" "group_end (CHR '']'' # s)" "group_end (CHR '':'' # CHR '':'' # s)"
  by (simp_all add: group_end_def stops_def)

lemma read_number_stops: "stops r s \<Longrightarrow> read_number r m z l s = None"
  by (simp add: read_number_def number_loop_stops)

lemma read_group_end:
  "group_end s \<Longrightarrow> read_separator CHR '':'' i (read_number 16 (Some 4) True 65535) s = None"
  by (cases s) (auto simp: group_end_def read_separator_def read_given_char_def read_number_stops)

text \<open>No dot, no IPv4 address.\<close>

lemma number_loop_rest: "number_loop r m l a n s = Some (v, k, rest) \<Longrightarrow> set rest \<subseteq> set s"
  by (induction r m l a n s rule: number_loop.induct) (auto split: option.splits if_splits)

lemma read_number_rest: "read_number r m z l s = Some (v, rest) \<Longrightarrow> set rest \<subseteq> set s"
  by (auto simp: read_number_def dest!: number_loop_rest split: option.splits if_splits)

lemma read_ipv4_no_dot:
  assumes "CHR ''.'' \<notin> set s"
  shows "read_ipv4_addr s = None"
proof -
  have "read_octets 0 4 s = None"
  proof (cases "read_number 10 (Some 3) False 255 s")
    case (Some r)
    then have "CHR ''.'' \<notin> set (snd r)" using read_number_rest [of 10 "Some 3" False 255 s "fst r" "snd r"] assms by auto
    then have "read_given_char CHR ''.'' (snd r) = None"
      by (cases "snd r") (auto simp: read_given_char_def)
    with Some show ?thesis by (simp add: read_octets_4 read_separator_def split_def)
  qed (simp add: read_octets_4 read_separator_def)
  then show ?thesis by (simp add: read_ipv4_addr_def)
qed

lemma read_separator_no_dot:
  "CHR ''.'' \<notin> set s \<Longrightarrow> read_separator CHR '':'' i read_ipv4_addr s = None"
  by (cases s) (auto simp: read_separator_def read_given_char_def read_ipv4_no_dot)

lemma read_group:
  "stops 16 rest \<Longrightarrow> read_number 16 (Some 4) True 65535 (show_radix 16 (unat (g :: u16)) @ rest) = Some (unat g, rest)"
  using unat_u16_le [of g] by (simp add: read_number_max)

lemma no_dot_hex: "CHR ''.'' \<notin> set (show_radix 16 n)"
  by (rule notin_show_radix) (simp_all add: to_digit_def)

lemma no_dot_groups: "CHR ''.'' \<notin> set (sep_groups i gs)"
  by (induction gs arbitrary: i) (simp_all add: no_dot_hex)

lemma stops_groups: "stops 16 rest \<Longrightarrow> stops 16 (sep_groups (Suc i) gs @ rest)"
  by (cases gs) (simp_all add: stops_Cons)

lemma read_groups_show:
  "\<lbrakk>length gs \<le> k; group_end rest; CHR ''.'' \<notin> set rest\<rbrakk> \<Longrightarrow>
     read_groups i k (sep_groups i gs @ rest) = (gs, False, rest)"
proof (induction gs arbitrary: i k)
  case Nil
  then show ?case by (cases k) (simp_all add: read_separator_no_dot read_group_end)
next
  case (Cons g gs)
  then obtain j where k: "k = Suc j" "length gs \<le> j" by (cases k) auto
  have dot: "CHR ''.'' \<notin> set (sep_groups i (g # gs) @ rest)"
    using no_dot_groups [of i "g # gs"] Cons.prems(3) by simp
  have "stops 16 (sep_groups (Suc i) gs @ rest)"
    using Cons.prems(2) by (simp add: stops_groups group_end_def)
  then have "read_separator CHR '':'' i (read_number 16 (Some 4) True 65535) (sep_groups i (g # gs) @ rest) =
      Some (unat g, sep_groups (Suc i) gs @ rest)"
    by (cases i) (simp_all add: read_separator_def read_given_char_def read_group)
  with Cons k show ?case
    by (auto simp: read_separator_no_dot [OF dot] simp del: sep_groups.simps(2))
qed

section \<open>The compressed run\<close>

definition zeros_at :: "u16 list \<Rightarrow> nat \<times> nat \<Rightarrow> bool" where
  "zeros_at xs p \<longleftrightarrow> fst p + snd p \<le> length xs \<and> (\<forall>j < snd p. xs ! (fst p + j) = 0)"

lemma zeros_at_append: "zeros_at ps p \<Longrightarrow> zeros_at (ps @ xs) p"
  by (auto simp: zeros_at_def nth_append)

lemma zeros_at_extend:
  assumes "zeros_at ps (st, len)" "st + len = length ps"
  shows "zeros_at (ps @ [0]) (st, Suc len)"
  using assms by (auto simp: zeros_at_def nth_append less_Suc_eq)

lemma zero_span_zeros:
  "\<lbrakk>zeros_at ps cur; zeros_at ps best; 0 < snd cur \<longrightarrow> fst cur + snd cur = length ps\<rbrakk> \<Longrightarrow>
     zeros_at (ps @ xs) (zero_span (length ps) cur best xs)"
proof (induction xs arbitrary: ps cur best)
  case (Cons x xs)
  show ?case
  proof (cases "x = 0")
    case True
    define c where "c = ((if snd cur = 0 then length ps else fst cur), Suc (snd cur))"
    have c: "zeros_at (ps @ [0]) c" "fst c + snd c = length (ps @ [0 :: u16])"
      using Cons.prems zeros_at_extend [of ps "fst c" "snd cur"]
      by (auto simp: c_def zeros_at_def nth_append)
    have b: "zeros_at (ps @ [0]) (if snd best < snd c then c else best)"
      using c Cons.prems(2) zeros_at_append by auto
    have "zero_span (length ps) cur best (x # xs) =
        zero_span (length (ps @ [0 :: u16])) c (if snd best < snd c then c else best) xs"
      by (simp add: True c_def Let_def)
    with Cons.IH [OF c(1) b] c(2) True show ?thesis by simp
  next
    case False
    have "zeros_at (ps @ [x]) (0, 0)" by (simp add: zeros_at_def)
    from Cons.IH [OF this zeros_at_append [OF Cons.prems(2)]] False show ?thesis by simp
  qed
qed simp

lemma zeros_split:
  assumes "zeros_at xs (st, len)"
  shows "xs = take st xs @ replicate len 0 @ drop (st + len) xs"
proof -
  have "take len (drop st xs) = replicate len 0"
    using assms by (intro nth_equalityI) (auto simp: zeros_at_def)
  moreover have "xs = take st xs @ take len (drop st xs) @ drop (st + len) xs"
    by (metis add.commute append_take_drop_id drop_drop)
  ultimately show ?thesis by simp
qed

lemma segments_span: "zeros_at (segments a) (zero_span 0 (0, 0) (0, 0) (segments a))"
  using zero_span_zeros [of "[]" "(0, 0)" "(0, 0)" "segments a"] by (simp add: zeros_at_def)

section \<open>Reading what was printed\<close>

lemma read_ipv6_plain:
  assumes "group_end rest" "CHR ''.'' \<notin> set rest"
  shows "read_ipv6_addr (show_groups (segments a) @ rest) = Some (a, rest)"
  using read_groups_show [of "segments a" 8 rest 0] assms by (simp add: read_ipv6_addr_def show_groups_sep)

lemma read_ipv6_compressed:
  assumes span: "zeros_at (segments a) (st, len)" "1 < len"
    and rest: "group_end rest" "CHR ''.'' \<notin> set rest"
  shows "read_ipv6_addr (show_groups (take st (segments a)) @ ''::'' @
      show_groups (drop (st + len) (segments a)) @ rest) = Some (a, rest)"
proof -
  let ?pre = "take st (segments a)" and ?post = "drop (st + len) (segments a)"
  have b: "st + len \<le> 8" using span(1) by (simp add: zeros_at_def)
  have dot: "CHR ''.'' \<notin> set (show_groups ?post @ rest)"
    using no_dot_groups rest(2) by (simp add: show_groups_sep)
  have h: "read_groups 0 8 (show_groups ?pre @ ''::'' @ show_groups ?post @ rest) =
      (?pre, False, ''::'' @ show_groups ?post @ rest)"
    unfolding show_groups_sep [of ?pre] using dot b by (intro read_groups_show) simp_all
  have t: "read_groups 0 (8 - (length ?pre + 1)) (show_groups ?post @ rest) = (?post, False, rest)"
    unfolding show_groups_sep [of ?post] using rest b span(2) by (intro read_groups_show) simp_all
  have l: "length ?pre = st" "8 - st - length ?post = len" using b by auto
  have "of_segments (?pre @ replicate len 0 @ ?post) = a"
    using zeros_split [OF span(1)] by (metis of_segments_segments)
  with h t l b span(2) show ?thesis by (simp add: read_ipv6_addr_def read_given_char_def)
qed

lemma mapped_segments:
  assumes "to_ipv4_mapped a = Some (Ipv4Addr w x y z)"
  shows "segments a = replicate 5 0 @ [0xFFFF, from_be_bytes w x, from_be_bytes y z]"
proof (cases a)
  case (Ipv6Addr s0 s1 s2 s3 s4 s5 s6 s7)
  have zero: "to_be_bytes s = [0, 0] \<Longrightarrow> s = 0" for s
    using to_be_bytes_inj [of s 0] by (simp add: to_be_bytes_def)
  have ones: "to_be_bytes s = [255, 255] \<Longrightarrow> s = 0xFFFF" for s
    using to_be_bytes_inj [of s "0xFFFF"] by (simp add: to_be_bytes_def)
  have octets: "v6_octets a = to_be_bytes s0 @ to_be_bytes s1 @ to_be_bytes s2 @ to_be_bytes s3 @
      to_be_bytes s4 @ to_be_bytes s5 @ to_be_bytes s6 @ to_be_bytes s7"
    by (simp add: Ipv6Addr v6_octets_def)
  from assms have t: "take 12 (v6_octets a) = replicate 10 0 @ [255, 255]"
    and d: "w = v6_octets a ! 12" "x = v6_octets a ! 13" "y = v6_octets a ! 14" "z = v6_octets a ! 15"
    by (auto simp: to_ipv4_mapped_def split: if_splits)
  have "to_be_bytes s0 = [0, 0] \<and> to_be_bytes s1 = [0, 0] \<and> to_be_bytes s2 = [0, 0] \<and>
      to_be_bytes s3 = [0, 0] \<and> to_be_bytes s4 = [0, 0] \<and> to_be_bytes s5 = [255, 255]"
    using t by (simp add: octets to_be_bytes_def numeral_eq_Suc)
  moreover have "s6 = from_be_bytes w x" "s7 = from_be_bytes y z"
    unfolding d octets by (simp_all add: to_be_bytes_def from_to_be_bytes)
  ultimately show ?thesis using zero ones by (simp add: Ipv6Addr numeral_eq_Suc)
qed

lemma read_groups_numeral:
  "read_groups i (numeral n) s =
     (case (if 0 < pred_numeral n then read_separator CHR '':'' i read_ipv4_addr s else None) of
        Some (Ipv4Addr a b c d, rest) \<Rightarrow> ([from_be_bytes a b, from_be_bytes c d], True, rest)
      | None \<Rightarrow>
          (case read_separator CHR '':'' i (read_number 16 (Some 4) True 65535) s of
             None \<Rightarrow> ([], False, s)
           | Some (g, s') \<Rightarrow>
               (case read_groups (Suc i) (pred_numeral n) s' of
                  (gs, v4, rest) \<Rightarrow> (word_of_nat g # gs, v4, rest))))"
  by (simp only: numeral_eq_Suc [of n] read_groups.simps)

lemma read_ipv6_mapped:
  assumes "to_ipv4_mapped a = Some v4" "stops 10 rest"
  shows "read_ipv6_addr (''::ffff:'' @ show_ipv4 v4 @ rest) = Some (a, rest)"
proof -
  obtain w x y z where v: "v4 = Ipv4Addr w x y z" by (cases v4)
  have start: "read_groups 0 8 (''::ffff:'' @ show_ipv4 v4 @ rest) = ([], False, ''::ffff:'' @ show_ipv4 v4 @ rest)"
  proof -
    have "read_ipv4_addr (CHR '':'' # t) = None" for t
      by (simp add: read_ipv4_addr_def read_octets_4 read_separator_def read_number_stops stops_Cons)
    moreover have "read_number 16 (Some 4) True 65535 (CHR '':'' # t) = None" for t
      by (simp add: read_number_stops stops_Cons)
    ultimately show ?thesis by (simp add: read_groups_numeral read_separator_def)
  qed
  have ffff: "read_number 16 (Some 4) True 65535 (''ffff:'' @ t) = Some (65535, CHR '':'' # t)" for t
  proof -
    have "show_radix 16 65535 = ''ffff''" by code_simp
    then show ?thesis using read_number_max [of 16 65535 4 65535 "CHR '':'' # t"] by (simp add: stops_Cons)
  qed
  have no4: "read_ipv4_addr (''ffff:'' @ t) = None" for t
    by (simp add: read_ipv4_addr_def read_octets_4 read_separator_def read_number_stops stops_Cons to_digit_def)
  have tail: "read_groups 0 7 (''ffff:'' @ show_ipv4 v4 @ rest) =
      ([0xFFFF, from_be_bytes w x, from_be_bytes y z], True, rest)"
    using no4 [of "show_ipv4 v4 @ rest"] ffff [of "show_ipv4 v4 @ rest"] read_ipv4_show [OF assms(2), of v4]
    by (simp add: v read_groups_numeral read_separator_def read_given_char_def)
  have "of_segments (replicate 5 0 @ [0xFFFF, from_be_bytes w x, from_be_bytes y z]) = a"
    using mapped_segments [OF assms(1) [unfolded v]] by (metis of_segments_segments)
  with start tail show ?thesis by (simp add: read_ipv6_addr_def read_given_char_def)
qed

text \<open>What may follow an address: nothing, or the closing bracket of a socket address.\<close>

definition addr_end :: "string \<Rightarrow> bool" where
  "addr_end s \<longleftrightarrow> (s = [] \<or> hd s = CHR '']'') \<and> CHR ''.'' \<notin> set s"

lemma addr_endD: "addr_end s \<Longrightarrow> group_end s \<and> stops 10 s \<and> CHR ''.'' \<notin> set s"
  by (cases s) (auto simp: addr_end_def stops_def)

lemma read_ipv6_show [rust_net]:
  assumes "addr_end rest"
  shows "read_ipv6_addr (show_ipv6 a @ rest) = Some (a, rest)"
proof (cases "to_ipv4_mapped a")
  case None
  obtain st len where s: "zero_span 0 (0, 0) (0, 0) (segments a) = (st, len)" by fastforce
  then have "zeros_at (segments a) (st, len)" using segments_span [of a] by simp
  with None s show ?thesis
    using addr_endD [OF assms] read_ipv6_compressed [of a st len rest] read_ipv6_plain [of rest a]
    by (simp add: show_ipv6_def)
next
  case (Some v4)
  then show ?thesis using addr_endD [OF assms] read_ipv6_mapped [OF Some] by (simp add: show_ipv6_def)
qed

lemma parse_ipv6_show [simp]: "parse_ipv6 (show_ipv6 a) = Some a"
  using read_ipv6_show [of "[]" a] by (simp add: parse_ipv6_def parse_with_def addr_end_def)

interpretation ipv6_text: codec show_ipv6 parse_ipv6 "\<lambda>_. True"
  by unfold_locales simp

lemma show_ipv6_not_ipv4: "read_ipv4_addr (show_ipv6 a) = None"
proof (cases "to_ipv4_mapped a")
  case None
  then have "CHR ''.'' \<notin> set (show_ipv6 a)"
    using no_dot_groups by (simp add: show_ipv6_def show_groups_sep split: prod.splits)
  then show ?thesis by (rule read_ipv4_no_dot)
next
  case (Some v4)
  then show ?thesis
    by (simp add: show_ipv6_def read_ipv4_addr_def read_octets_4 read_separator_def read_number_stops stops_Cons)
qed

lemma parse_ip_show [simp]: "parse_ip (show_ip ip) = Some ip"
proof (cases ip)
  case (V6 a)
  then show ?thesis
    using read_ipv6_show [of "[]" a] show_ipv6_not_ipv4 [of a]
    by (simp add: parse_ip_def parse_with_def read_ip_addr_def addr_end_def)
qed simp

interpretation ip_text: codec show_ip parse_ip "\<lambda>_. True"
  by unfold_locales simp

lemma parse_socket_addr_show_v6:
  "parse_socket_addr (''['' @ show_ipv6 a @ '']:'' @ show_u16 p) = Some (SocketAddrV6 a p 0)"
proof -
  have "CHR ''.'' \<notin> set (show_u16 p)" by (rule notin_show_u16) simp
  then have "read_ipv6_addr (show_ipv6 a @ CHR '']'' # CHR '':'' # show_u16 p) = Some (a, CHR '']'' # CHR '':'' # show_u16 p)"
    by (intro read_ipv6_show) (simp add: addr_end_def)
  moreover have "read_port (CHR '':'' # show_u16 p) = Some (p, [])"
    using read_port_show [of "[]" p] by (simp add: stops_def)
  moreover have "read_ipv4_addr (CHR ''['' # s) = None" for s
    by (simp add: read_ipv4_addr_def read_octets_4 read_separator_def read_number_stops stops_Cons to_digit_def)
  ultimately show ?thesis
    by (simp add: parse_socket_addr_def parse_with_def read_socket_addr_def read_socket_addr_v4_def
        read_socket_addr_v6_def read_given_char_def read_scope_id_def)
qed

end
