(* ===== verification/Printing.thy ===== *)
theory Printing
  imports Rust_Io
begin

text \<open>
  How the process ends and what it prints. \<open>print!\<close>, \<open>println!\<close> and \<open>eprintln!\<close> panic when their stream
  cannot be written, so whether a text can be written is a parameter and every ending that prints
  can be the panic.
\<close>

section \<open>Model\<close>

record exit_report =
  ex_code :: nat
  ex_stdout :: string
  ex_stderr :: string

datatype program_end = Panicked | Done exit_report

text \<open>Which texts the standard output and the standard error take.\<close>

record printer =
  out_ok :: "string \<Rightarrow> bool"
  err_ok :: "string \<Rightarrow> bool"

definition working_printer :: printer where
  "working_printer = \<lparr>out_ok = (\<lambda>_. True), err_ok = (\<lambda>_. True)\<rparr>"

text \<open>A line of output with its newline.\<close>

definition line :: "string \<Rightarrow> string" where
  "line l = l @ [CHR 0x0A]"

definition exit_quiet :: "nat \<Rightarrow> program_end" where
  "exit_quiet code = Done \<lparr>ex_code = code, ex_stdout = [], ex_stderr = []\<rparr>"

text \<open>One \<open>eprintln!\<close> for every line, then the code.\<close>

definition exit_failing :: "printer \<Rightarrow> nat \<Rightarrow> string list \<Rightarrow> program_end" where
  "exit_failing pr code ls =
     (if list_all (\<lambda>l. err_ok pr (line l)) ls
      then Done \<lparr>ex_code = code, ex_stdout = [], ex_stderr = concat (map line ls)\<rparr>
      else Panicked)"

text \<open>One \<open>print!\<close>, then success.\<close>

definition exit_printing :: "printer \<Rightarrow> string \<Rightarrow> program_end" where
  "exit_printing pr out =
     (if out_ok pr out then Done \<lparr>ex_code = 0, ex_stdout = out, ex_stderr = []\<rparr> else Panicked)"

lemmas exit_defs = exit_quiet_def exit_failing_def exit_printing_def

end
