(* ===== verification/Nftables.thy ===== *)
theory Nftables
  imports Config Ipv6_Text Printing
begin

text \<open>
  \<open>src/nat/nftables.rs\<close>: the text of the ruleset and the calls of the \<open>nft\<close> program. The program
  is a parameter: given its arguments and its standard input it changes the state of the host and
  exits. A reader of nested blocks, which keeps every line, shows which statements stand in which
  chain of which table.
\<close>

section \<open>Model\<close>

definition TABLE :: string where "TABLE = ''gust''"

record nat_rule =
  r_proto :: protocol
  r_dport :: u16
  r_dest_ip :: ip_addr
  r_dest_port :: u16
  r_comment :: string

record nft_outcome =
  nft_success :: bool
  nft_stdout :: string
  nft_stderr :: string

text \<open>What starting the program and waiting for it can give.\<close>

datatype process_end =
    SpawnFailed io_error
  | StdinFailed io_error
  | WaitFailed io_error
  | Exited bool string string

type_synonym 'w nft = "string list \<Rightarrow> string option \<Rightarrow> 'w \<Rightarrow> process_end \<times> 'w"

definition run_nft :: "'w nft \<Rightarrow> string list \<Rightarrow> string option \<Rightarrow> ('w, nft_outcome) eff" where
  "run_nft nft args input w =
     (case nft args input w of
        (SpawnFailed e, w') \<Rightarrow>
          (Err (io_new (io_kind e)
             (''failed to run `nft` (is the nftables package installed?): '' @ io_msg e)), w')
      | (StdinFailed e, w') \<Rightarrow> (Err e, w')
      | (WaitFailed e, w') \<Rightarrow> (Err e, w')
      | (Exited ok out err, w') \<Rightarrow>
          (Ok \<lparr>nft_success = ok, nft_stdout = from_utf8_lossy out, nft_stderr = from_utf8_lossy err\<rparr>, w'))"

definition ensure_available :: "'w nft \<Rightarrow> ('w, unit) eff" where
  "ensure_available nft =
     ebind (run_nft nft [''--version''] None) (\<lambda>out.
       if nft_success out then eret ()
       else efail (io_other (''`nft --version` failed: '' @ str_trim (nft_stderr out))))"

definition format_dest :: "ip_addr \<Rightarrow> u16 \<Rightarrow> string" where
  "format_dest ip port =
     (case ip of
        V4 v4 \<Rightarrow> show_ipv4 v4 @ '':'' @ show_u16 port
      | V6 v6 \<Rightarrow> ''['' @ show_ipv6 v6 @ '']:'' @ show_u16 port)"

definition proto_str :: "protocol \<Rightarrow> string" where
  "proto_str p = (case p of Tcp \<Rightarrow> ''tcp'' | Udp \<Rightarrow> ''udp'')"

definition rule_line :: "nat_rule \<Rightarrow> string" where
  "rule_line r =
     ''        '' @ proto_str (r_proto r) @ '' dport '' @ show_u16 (r_dport r) @ '' counter comment '' @
     [CHR 0x22] @ r_comment r @ [CHR 0x22] @ '' dnat to '' @ format_dest (r_dest_ip r) (r_dest_port r)"

definition build_table :: "string \<Rightarrow> nat_rule list \<Rightarrow> string" where
  "build_table family rules =
     line (''table '' @ family @ '' '' @ TABLE @ '' {'') @
     line ''    chain prerouting {'' @
     line ''        type nat hook prerouting priority dstnat; policy accept;'' @
     concat (map (\<lambda>r. line (rule_line r)) rules) @
     line ''    }'' @
     line ''    chain postrouting {'' @
     line ''        type nat hook postrouting priority srcnat; policy accept;'' @
     line ''        ct status dnat counter masquerade fully-random'' @
     line ''    }'' @
     line ''}''"

definition build_ruleset :: "nat_rule list \<Rightarrow> string" where
  "build_ruleset rules =
     (let v4 = filter (\<lambda>r. is_ipv4 (r_dest_ip r)) rules;
          v6 = filter (\<lambda>r. is_ipv6 (r_dest_ip r)) rules
      in (if v4 \<noteq> [] then build_table ''ip'' v4 else []) @
         (if v6 \<noteq> [] then build_table ''ip6'' v6 else []))"

definition apply_ruleset :: "'w nft \<Rightarrow> string \<Rightarrow> ('w, unit) eff" where
  "apply_ruleset nft ruleset =
     ebind (run_nft nft [''-f'', ''-''] (Some ruleset)) (\<lambda>out.
       if nft_success out then eret ()
       else efail (io_other (''nft apply failed: '' @ str_trim (nft_stderr out))))"

text \<open>
  Every outcome of the deletion is only logged; the log record is the value of the call. The
  program's error text is compared in lower case: both phrases are ASCII and no other character
  lowers to one of their letters in a place where it would complete them, so the ASCII lower case
  decides the same.
\<close>

datatype delete_log =
    Deleted
  | AlreadyAbsent
  | DeleteError string
  | NotRun io_error

definition says_absent :: "string \<Rightarrow> bool" where
  "says_absent err =
     (let e = to_ascii_lowercase err in str_contains e ''no such file'' \<or> str_contains e ''does not exist'')"

definition delete_table :: "'w nft \<Rightarrow> string \<Rightarrow> 'w \<Rightarrow> delete_log \<times> 'w" where
  "delete_table nft family w =
     (case run_nft nft [''delete'', ''table'', family, TABLE] None w of
        (Inr out, w') \<Rightarrow>
          (if nft_success out then Deleted
           else if says_absent (nft_stderr out) then AlreadyAbsent
           else DeleteError (str_trim (nft_stderr out)), w')
      | (Inl e, w') \<Rightarrow> (NotRun e, w'))"

text \<open>The outcomes that are logged as warnings.\<close>

definition delete_failed :: "delete_log \<Rightarrow> bool" where
  "delete_failed l = (case l of Deleted \<Rightarrow> False | AlreadyAbsent \<Rightarrow> False | _ \<Rightarrow> True)"

definition list_json :: "'w nft \<Rightarrow> 'w \<Rightarrow> string option \<times> 'w" where
  "list_json nft w =
     (case run_nft nft [''-j'', ''list'', ''table'', ''ip'', TABLE] None w of
        (Inr out, w') \<Rightarrow> (if nft_success out then Some (nft_stdout out) else None, w')
      | (Inl _, w') \<Rightarrow> (None, w'))"

section \<open>Reading the ruleset\<close>

text \<open>A destination names its address and port, in both families.\<close>

lemma format_dest_parses:
  "\<exists>sa. parse_socket_addr (format_dest ip port) = Some sa \<and> sa_ip sa = ip \<and> sa_port sa = port"
  using parse_socket_addr_show_v4 [of _ port] parse_socket_addr_show_v6 [of _ port]
  by (cases ip) (simp_all add: format_dest_def)

text \<open>
  The block structure of a ruleset: a line that ends in an opening brace opens a block under the
  text before the brace without blanks around it, a line that is a closing brace closes it, every other line is a statement,
  and nothing is skipped; an unbalanced text is refused.
\<close>

datatype block = Statement string | Block string "block list"

definition unindent :: "string \<Rightarrow> string" where
  "unindent l = dropWhile (\<lambda>c. c = CHR '' '') l"

fun read_blocks :: "(string \<times> block list) list \<Rightarrow> block list \<Rightarrow> string list \<Rightarrow> block list option" where
  "read_blocks stack acc [] = (if stack = [] then Some acc else None)"
| "read_blocks stack acc (l # ls) =
     (let t = unindent l in
      if t = ''}'' then
        (case stack of [] \<Rightarrow> None | (name, outer) # stack' \<Rightarrow> read_blocks stack' (outer @ [Block name acc]) ls)
      else if t \<noteq> [] \<and> last t = CHR ''{'' then read_blocks ((rev (unindent (rev (butlast t))), acc) # stack) [] ls
      else read_blocks stack (acc @ [Statement t]) ls)"

text \<open>
  A statement that sends what matches a rule to the rule's destination: its words, with the numbers
  and the address in it read back.
\<close>

definition says_rule :: "string \<Rightarrow> nat_rule \<Rightarrow> bool" where
  "says_rule t r \<longleftrightarrow>
     (\<exists>port dest sa. split_char CHR '' '' t =
        [proto_as_str (r_proto r), ''dport'', port, ''counter'', ''comment'',
         [CHR 0x22] @ r_comment r @ [CHR 0x22], ''dnat'', ''to'', dest] \<and>
      parse_u16 port = Some (r_dport r) \<and>
      parse_socket_addr dest = Some sa \<and> sa_ip sa = r_dest_ip r \<and> sa_port sa = r_dest_port r)"

text \<open>The table of one family with the given statements in its prerouting chain.\<close>

definition nat_table :: "string \<Rightarrow> string list \<Rightarrow> block" where
  "nat_table family ts =
     Block (''table '' @ family @ '' gust'')
       [Block ''chain prerouting''
          (Statement ''type nat hook prerouting priority dstnat; policy accept;'' # map Statement ts),
        Block ''chain postrouting''
          [Statement ''type nat hook postrouting priority srcnat; policy accept;'',
           Statement ''ct status dnat counter masquerade fully-random'']]"

definition plain_comment :: "nat_rule \<Rightarrow> bool" where
  "plain_comment r \<longleftrightarrow> list_all graphic (r_comment r)"

section \<open>Lines and characters\<close>

lemma split_char_lines:
  "(\<And>l. l \<in> set ls \<Longrightarrow> CHR 0x0A \<notin> set l) \<Longrightarrow> split_char (CHR 0x0A) (concat (map line ls)) = ls @ [[]]"
  by (induction ls) (auto simp: line_def split_char_append)

lemma str_lines_concat:
  assumes "\<And>l. l \<in> set ls \<Longrightarrow> CHR 0x0A \<notin> set l \<and> CHR 0x0D \<notin> set l"
  shows "str_lines (concat (map line ls)) = ls"
proof -
  have "strip_cr l = l" if "l \<in> set ls" for l
    using assms [OF that] by (auto simp: strip_cr_def dest: last_in_set)
  then show ?thesis using assms by (simp add: str_lines_def split_char_lines map_idI)
qed

text \<open>Characters of the printed parts: graphic, so neither blank nor line end.\<close>

lemma graphic_consts: "graphic CHR ''.''" "graphic CHR '':''" "graphic CHR ''[''" "graphic CHR '']''"
  "graphic CHR 0x22" "\<not> graphic CHR '' ''" "\<not> graphic (CHR 0x0A)" "\<not> graphic (CHR 0x0D)"
  by (simp_all add: graphic_def)

lemma show_radix_all_graphic: "\<lbrakk>2 \<le> b; b \<le> 36\<rbrakk> \<Longrightarrow> list_all graphic (show_radix b n)"
  by (auto simp: list_all_iff intro: show_radix_graphic)

lemma show_u16_all_graphic: "list_all graphic (show_u16 p)"
  by (simp add: show_u16_def show_radix_all_graphic)

lemma show_ipv4_all_graphic: "list_all graphic (show_ipv4 a)"
  by (cases a) (simp add: show_radix_all_graphic graphic_consts)

lemma join_colon_graphic:
  "(\<And>p. p \<in> set ps \<Longrightarrow> list_all graphic p) \<Longrightarrow> list_all graphic (join_char CHR '':'' ps)"
  by (induction "CHR '':''" ps rule: join_char.induct) (auto simp: graphic_consts)

lemma show_groups_all_graphic: "list_all graphic (show_groups gs)"
  unfolding show_groups_def by (rule join_colon_graphic) (auto simp: show_radix_all_graphic)

lemma show_ipv6_all_graphic: "list_all graphic (show_ipv6 a)"
  unfolding show_ipv6_def
  by (simp add: show_groups_all_graphic show_ipv4_all_graphic graphic_consts graphic_def split: option.split prod.split)

lemma show_ip_all_graphic: "list_all graphic (show_ip a)"
  by (cases a) (simp_all add: show_ipv4_all_graphic show_ipv6_all_graphic)

lemma format_dest_all_graphic: "list_all graphic (format_dest ip port)"
  by (cases ip) (simp_all add: format_dest_def show_ipv4_all_graphic show_ipv6_all_graphic
      show_u16_all_graphic graphic_consts)

lemma proto_graphic: "list_all graphic (proto_str p)"
  by (cases p) (simp_all add: proto_str_def graphic_def)

lemma graphic_notin: "\<lbrakk>list_all graphic s; \<not> graphic c\<rbrakk> \<Longrightarrow> c \<notin> set s"
  by (auto simp: list_all_iff)

section \<open>The blocks of the generated text\<close>

definition rule_tokens :: "nat_rule \<Rightarrow> string list" where
  "rule_tokens r =
     [proto_str (r_proto r), ''dport'', show_u16 (r_dport r), ''counter'', ''comment'',
      [CHR 0x22] @ r_comment r @ [CHR 0x22], ''dnat'', ''to'', format_dest (r_dest_ip r) (r_dest_port r)]"

lemma rule_line_tokens: "rule_line r = ''        '' @ join_char CHR '' '' (rule_tokens r)"
  by (simp add: rule_line_def rule_tokens_def)

lemma rule_tokens_graphic:
  assumes "plain_comment r"
  shows "list_all (list_all graphic) (rule_tokens r)"
  using assms unfolding rule_tokens_def plain_comment_def
  by (simp add: proto_graphic show_u16_all_graphic format_dest_all_graphic graphic_def)

lemma join_char_set: "x \<in> set (join_char c ts) \<Longrightarrow> x = c \<or> (\<exists>t \<in> set ts. x \<in> set t)"
  by (induction c ts rule: join_char.induct) auto

lemma rule_line_chars:
  assumes "plain_comment r" "\<not> graphic c" "c \<noteq> CHR '' ''"
  shows "c \<notin> set (rule_line r)"
proof
  assume "c \<in> set (rule_line r)"
  then have "c \<in> set (join_char CHR '' '' (rule_tokens r))"
    using assms(3) unfolding rule_line_tokens by auto
  then obtain t where "t \<in> set (rule_tokens r)" "c \<in> set t" using join_char_set assms(3) by blast
  then show False using rule_tokens_graphic [OF assms(1)] assms(2) by (auto simp: list_all_iff)
qed

definition rule_words :: "nat_rule \<Rightarrow> string" where
  "rule_words r = join_char CHR '' '' (rule_tokens r)"

lemma rule_line_words: "rule_line r = ''        '' @ rule_words r"
  by (simp add: rule_line_tokens rule_words_def)

lemma says_rule_words:
  assumes "plain_comment r"
  shows "says_rule (rule_words r) r"
proof -
  have "split_char CHR '' '' (join_char CHR '' '' (rule_tokens r)) = rule_tokens r"
  proof (rule split_char_join)
    show "CHR '' '' \<notin> set t" if "t \<in> set (rule_tokens r)" for t
    proof -
      have "list_all graphic t" using that rule_tokens_graphic [OF assms] by (simp add: list_all_iff)
      then show ?thesis by (rule graphic_notin) (rule graphic_consts(6))
    qed
  qed (simp add: rule_tokens_def)
  moreover have "proto_str p = proto_as_str p" for p by (cases p) (simp_all add: proto_str_def)
  ultimately show ?thesis
    using format_dest_parses [of "r_dest_ip r" "r_dest_port r"]
    by (auto simp: says_rule_def rule_words_def rule_tokens_def)
qed

text \<open>A rule's statement ends in a digit and starts with a letter.\<close>

lemma last_show_u16: "last (show_u16 p) \<noteq> CHR ''{''" "last (show_u16 p) \<noteq> CHR ''}''"
proof -
  have "last (show_u16 p) \<in> set (show_u16 p)" by simp
  moreover have "CHR ''{'' \<notin> set (show_u16 p)" "CHR ''}'' \<notin> set (show_u16 p)"
    by (rule notin_show_u16; code_simp)+
  ultimately show "last (show_u16 p) \<noteq> CHR ''{''" "last (show_u16 p) \<noteq> CHR ''}''" by metis+
qed

lemma last_rule_words: "last (rule_words r) = last (show_u16 (r_dest_port r))"
  by (cases "r_dest_ip r") (simp_all add: rule_words_def rule_tokens_def format_dest_def)

lemma unindent_rule: "unindent (rule_line r) = rule_words r"
  by (cases "r_proto r") (simp_all add: unindent_def rule_line_words rule_words_def rule_tokens_def proto_str_def)

lemma read_rule: "read_blocks stack acc (rule_line r # ls) = read_blocks stack (acc @ [Statement (rule_words r)]) ls"
proof -
  have "rule_words r \<noteq> ''}''" using last_rule_words [of r] last_show_u16(2) [of "r_dest_port r"] by auto
  then show ?thesis using last_rule_words [of r] last_show_u16(1) [of "r_dest_port r"]
    by (simp add: unindent_rule Let_def)
qed

lemma read_rules:
  "read_blocks stack acc (map rule_line rules @ ls) =
     read_blocks stack (acc @ map (\<lambda>r. Statement (rule_words r)) rules) ls"
  by (induction rules arbitrary: acc) (simp_all only: list.map append_Cons append_Nil append_Nil2 read_rule append_assoc)

definition table_lines :: "string \<Rightarrow> nat_rule list \<Rightarrow> string list" where
  "table_lines family rules =
     [''table '' @ family @ '' '' @ TABLE @ '' {'', ''    chain prerouting {'',
      ''        type nat hook prerouting priority dstnat; policy accept;''] @
     map rule_line rules @
     [''    }'', ''    chain postrouting {'',
      ''        type nat hook postrouting priority srcnat; policy accept;'',
      ''        ct status dnat counter masquerade fully-random'', ''    }'', ''}'']"

lemma build_table_lines: "build_table family rules = concat (map line (table_lines family rules))"
  by (simp add: build_table_def table_lines_def comp_def)

lemma read_fixed:
  "read_blocks stack acc (''    chain prerouting {'' # ls) = read_blocks ((''chain prerouting'', acc) # stack) [] ls"
  "read_blocks stack acc (''    chain postrouting {'' # ls) = read_blocks ((''chain postrouting'', acc) # stack) [] ls"
  "read_blocks stack acc (''        type nat hook prerouting priority dstnat; policy accept;'' # ls) =
     read_blocks stack (acc @ [Statement ''type nat hook prerouting priority dstnat; policy accept;'']) ls"
  "read_blocks stack acc (''        type nat hook postrouting priority srcnat; policy accept;'' # ls) =
     read_blocks stack (acc @ [Statement ''type nat hook postrouting priority srcnat; policy accept;'']) ls"
  "read_blocks stack acc (''        ct status dnat counter masquerade fully-random'' # ls) =
     read_blocks stack (acc @ [Statement ''ct status dnat counter masquerade fully-random'']) ls"
  "read_blocks ((name, outer) # stack) acc (''    }'' # ls) = read_blocks stack (outer @ [Block name acc]) ls"
  "read_blocks ((name, outer) # stack) acc (''}'' # ls) = read_blocks stack (outer @ [Block name acc]) ls"
  by (simp_all add: unindent_def Let_def)

lemma read_table:
  assumes "family = ''ip'' \<or> family = ''ip6''"
  shows "read_blocks [] acc (table_lines family rules @ ls) =
     read_blocks [] (acc @ [nat_table family (map rule_words rules)]) ls"
proof -
  have "read_blocks [] acc ((''table '' @ family @ '' '' @ TABLE @ '' {'') # ls) =
      read_blocks [(''table '' @ family @ '' gust'', acc)] [] ls" for ls
    using assms by (auto simp: unindent_def Let_def TABLE_def)
  then show ?thesis
    unfolding table_lines_def nat_table_def
    by (simp only: append_Cons append_Nil append_assoc read_fixed read_rules map_map comp_def)
qed

lemma table_lines_plain:
  assumes "list_all plain_comment rules" "family = ''ip'' \<or> family = ''ip6''" "l \<in> set (table_lines family rules)"
  shows "CHR 0x0A \<notin> set l \<and> CHR 0x0D \<notin> set l"
proof -
  have rule: "CHR 0x0A \<notin> set (rule_line r) \<and> CHR 0x0D \<notin> set (rule_line r)" if "r \<in> set rules" for r
  proof -
    have "plain_comment r" using assms(1) that by (simp add: list_all_iff)
    then show ?thesis using rule_line_chars graphic_consts(7,8) by simp
  qed
  have head: "CHR 0x0A \<notin> set (''table '' @ family @ '' '' @ TABLE @ '' {'') \<and>
      CHR 0x0D \<notin> set (''table '' @ family @ '' '' @ TABLE @ '' {'')"
    using assms(2) by (elim disjE; simp only:; code_simp)
  show ?thesis using assms(3) rule head by (auto simp: table_lines_def)
qed

lemma str_lines_tables:
  assumes "list_all plain_comment v4" "list_all plain_comment v6"
  shows "str_lines (build_table ''ip'' v4) = table_lines ''ip'' v4"
    "str_lines (build_table ''ip6'' v6) = table_lines ''ip6'' v6"
    "str_lines (build_table ''ip'' v4 @ build_table ''ip6'' v6) = table_lines ''ip'' v4 @ table_lines ''ip6'' v6"
proof -
  note p4 = table_lines_plain [OF assms(1) disjI1 [OF refl]] and p6 = table_lines_plain [OF assms(2) disjI2 [OF refl]]
  show "str_lines (build_table ''ip'' v4) = table_lines ''ip'' v4"
    unfolding build_table_lines by (rule str_lines_concat) (rule p4)
  show "str_lines (build_table ''ip6'' v6) = table_lines ''ip6'' v6"
    unfolding build_table_lines by (rule str_lines_concat) (rule p6)
  have "str_lines (concat (map line (table_lines ''ip'' v4 @ table_lines ''ip6'' v6))) =
      table_lines ''ip'' v4 @ table_lines ''ip6'' v6"
    using p4 p6 by (intro str_lines_concat) (metis Un_iff set_append)
  then show "str_lines (build_table ''ip'' v4 @ build_table ''ip6'' v6) = table_lines ''ip'' v4 @ table_lines ''ip6'' v6"
    unfolding build_table_lines by (simp only: map_append concat_append)
qed

lemma read_ruleset_built:
  assumes "list_all plain_comment rules"
  shows "read_blocks [] [] (str_lines (build_ruleset rules)) =
     Some (map (\<lambda>(family, rs). nat_table family (map rule_words rs))
       (filter (\<lambda>(family, rs). rs \<noteq> [])
         [(''ip'', filter (\<lambda>r. is_ipv4 (r_dest_ip r)) rules), (''ip6'', filter (\<lambda>r. \<not> is_ipv4 (r_dest_ip r)) rules)]))"
proof -
  let ?v4 = "filter (\<lambda>r. is_ipv4 (r_dest_ip r)) rules" and ?v6 = "filter (\<lambda>r. \<not> is_ipv4 (r_dest_ip r)) rules"
  have p: "list_all plain_comment ?v4" "list_all plain_comment ?v6" using assms by (auto simp: list_all_iff)
  note lines = str_lines_tables [OF p]
  note r4 = read_table [OF disjI1 [OF refl]] and r6 = read_table [OF disjI2 [OF refl]]
  note r4' = r4 [where ls = "[]", unfolded append_Nil2] and r6' = r6 [where ls = "[]", unfolded append_Nil2]
  have nil: "str_lines [] = []" by code_simp
  show ?thesis
    by (cases "?v4 = []"; cases "?v6 = []")
       (simp_all only: build_ruleset_def is_ipv6_not_ipv4 Let_def nil lines append_Nil append_Nil2 if_True if_False
          simp_thms r4 r4' r6' read_blocks.simps(1) filter.simps list.map prod.case append_Cons)
qed

lemma read_ruleset_tables:
  assumes "list_all plain_comment rules"
  shows "read_blocks [] [] (str_lines (build_ruleset rules)) =
     Some ((if map rule_words (filter (\<lambda>r. is_ipv4 (r_dest_ip r)) rules) = [] then []
            else [nat_table ''ip'' (map rule_words (filter (\<lambda>r. is_ipv4 (r_dest_ip r)) rules))]) @
           (if map rule_words (filter (\<lambda>r. \<not> is_ipv4 (r_dest_ip r)) rules) = [] then []
            else [nat_table ''ip6'' (map rule_words (filter (\<lambda>r. \<not> is_ipv4 (r_dest_ip r)) rules))]))"
  unfolding read_ruleset_built [OF assms] by simp

end
