(* ===== verification/Nat_Status.thy ===== *)
theory Nat_Status
  imports Rust_Text
begin

text \<open>
  \<open>src/nat/status.rs\<close>: the counters in the JSON that \<open>nft\<close> prints. The JSON library is a parameter:
  the five operations of \<open>serde_json::Value\<close> the code calls.
\<close>

section \<open>Model\<close>

record 'v json =
  from_str :: "string \<Rightarrow> 'v option"
  get :: "string \<Rightarrow> 'v \<Rightarrow> 'v option"
  as_array :: "'v \<Rightarrow> 'v list option"
  as_str :: "'v \<Rightarrow> string option"
  as_u64 :: "'v \<Rightarrow> u64 option"

record counter_stat =
  cs_comment :: string
  cs_packets :: u64
  cs_bytes :: u64

definition unwrap_or :: "'a \<Rightarrow> 'a option \<Rightarrow> 'a" where
  "unwrap_or d x = (case x of None \<Rightarrow> d | Some v \<Rightarrow> v)"

text \<open>The loop over the expressions of a rule stops at the first counter.\<close>

fun first_counter :: "'v json \<Rightarrow> string \<Rightarrow> 'v list \<Rightarrow> counter_stat list" where
  "first_counter js comment [] = []"
| "first_counter js comment (e # es) =
     (case get js ''counter'' e of
        Some counter \<Rightarrow>
          [\<lparr>cs_comment = comment,
            cs_packets = unwrap_or 0 (Option.bind (get js ''packets'' counter) (as_u64 js)),
            cs_bytes = unwrap_or 0 (Option.bind (get js ''bytes'' counter) (as_u64 js))\<rparr>]
      | None \<Rightarrow> first_counter js comment es)"

definition item_counter :: "'v json \<Rightarrow> 'v \<Rightarrow> counter_stat list" where
  "item_counter js item =
     (case get js ''rule'' item of
        None \<Rightarrow> []
      | Some rule \<Rightarrow>
          let comment = unwrap_or [] (Option.bind (get js ''comment'' rule) (as_str js)) in
          if \<not> prefix ''gust:'' comment then []
          else (case Option.bind (get js ''expr'' rule) (as_array js) of
                  None \<Rightarrow> []
                | Some exprs \<Rightarrow> first_counter js comment exprs))"

definition parse_counters :: "'v json \<Rightarrow> string \<Rightarrow> counter_stat list" where
  "parse_counters js text =
     (case from_str js text of
        None \<Rightarrow> []
      | Some root \<Rightarrow>
          (case Option.bind (get js ''nftables'' root) (as_array js) of
             None \<Rightarrow> []
           | Some items \<Rightarrow> concat (map (item_counter js) items)))"

section \<open>The documents nft prints\<close>

text \<open>
  What an item of the listing says through the operations of the library, whatever other fields its
  objects have: a rule with a comment and a list of statements, the first counter among which has
  these numbers.
\<close>

definition lists_stat :: "'v json \<Rightarrow> 'v \<Rightarrow> counter_stat \<Rightarrow> bool" where
  "lists_stat js item st \<longleftrightarrow>
     (\<exists>rule before e after counter.
        get js ''rule'' item = Some rule \<and>
        Option.bind (get js ''comment'' rule) (as_str js) = Some (cs_comment st) \<and>
        Option.bind (get js ''expr'' rule) (as_array js) = Some (before @ e # after) \<and>
        list_all (\<lambda>x. get js ''counter'' x = None) before \<and>
        get js ''counter'' e = Some counter \<and>
        Option.bind (get js ''packets'' counter) (as_u64 js) = Some (cs_packets st) \<and>
        Option.bind (get js ''bytes'' counter) (as_u64 js) = Some (cs_bytes st))"

text \<open>An item that is no rule, or a rule whose comment is not one of ours.\<close>

definition foreign :: "'v json \<Rightarrow> 'v \<Rightarrow> bool" where
  "foreign js item \<longleftrightarrow>
     (case get js ''rule'' item of
        None \<Rightarrow> True
      | Some rule \<Rightarrow>
          (case Option.bind (get js ''comment'' rule) (as_str js) of
             None \<Rightarrow> True
           | Some comment \<Rightarrow> \<not> prefix ''gust:'' comment))"

lemma first_counter_at:
  "\<lbrakk>list_all (\<lambda>x. get js ''counter'' x = None) before; get js ''counter'' e = Some counter;
    Option.bind (get js ''packets'' counter) (as_u64 js) = Some p;
    Option.bind (get js ''bytes'' counter) (as_u64 js) = Some b\<rbrakk> \<Longrightarrow>
   first_counter js c (before @ e # after) = [\<lparr>cs_comment = c, cs_packets = p, cs_bytes = b\<rparr>]"
  by (induction before) (simp_all add: unwrap_or_def)

lemma item_counter_lists:
  assumes "lists_stat js item st" "prefix ''gust:'' (cs_comment st)"
  shows "item_counter js item = [st]"
proof -
  obtain rule before e after counter where r: "get js ''rule'' item = Some rule"
    "Option.bind (get js ''comment'' rule) (as_str js) = Some (cs_comment st)"
    "Option.bind (get js ''expr'' rule) (as_array js) = Some (before @ e # after)"
    and c: "list_all (\<lambda>x. get js ''counter'' x = None) before" "get js ''counter'' e = Some counter"
    "Option.bind (get js ''packets'' counter) (as_u64 js) = Some (cs_packets st)"
    "Option.bind (get js ''bytes'' counter) (as_u64 js) = Some (cs_bytes st)"
    using assms(1) unfolding lists_stat_def by blast
  show ?thesis
    using r assms(2) by (simp add: item_counter_def Let_def unwrap_or_def first_counter_at [OF c])
qed

lemma item_counter_foreign: "foreign js item \<Longrightarrow> item_counter js item = []"
  by (auto simp: foreign_def item_counter_def unwrap_or_def split: option.splits)

lemma items_counters:
  assumes "list_all2 (lists_stat js) (filter (\<lambda>i. \<not> foreign js i) items) stats"
    "list_all (\<lambda>st. prefix ''gust:'' (cs_comment st)) stats"
  shows "concat (map (item_counter js) items) = stats"
  using assms
proof (induction items arbitrary: stats)
  case (Cons i items)
  show ?case
  proof (cases "foreign js i")
    case False
    with Cons.prems obtain st rest where "stats = st # rest" "lists_stat js i st"
      "list_all2 (lists_stat js) (filter (\<lambda>i. \<not> foreign js i) items) rest" by (auto simp: list_all2_Cons1)
    with Cons show ?thesis by (simp add: item_counter_lists)
  qed (use Cons in \<open>simp add: item_counter_foreign\<close>)
qed simp

text \<open>JSON values as a datatype are one library of this kind, with any reader of the text.\<close>

datatype jvalue = JObject "(string \<times> jvalue) list" | JArray "jvalue list" | JString string | JNumber u64

definition value_json :: "(string \<Rightarrow> jvalue option) \<Rightarrow> jvalue json" where
  "value_json reader =
     \<lparr>from_str = reader,
      get = (\<lambda>k v. case v of JObject kvs \<Rightarrow> map_of kvs k | _ \<Rightarrow> None),
      as_array = (\<lambda>v. case v of JArray vs \<Rightarrow> Some vs | _ \<Rightarrow> None),
      as_str = (\<lambda>v. case v of JString t \<Rightarrow> Some t | _ \<Rightarrow> None),
      as_u64 = (\<lambda>v. case v of JNumber n \<Rightarrow> Some n | _ \<Rightarrow> None)\<rparr>"

text \<open>The listing the tests of \<open>status.rs\<close> read.\<close>

definition SAMPLE :: jvalue where
  "SAMPLE = JObject [(''nftables'', JArray
     [JObject [(''metainfo'', JObject [(''version'', JString ''1.0.9''), (''release_name'', JString ''Old Doc Yak'')])],
      JObject [(''table'', JObject [(''family'', JString ''ip''), (''name'', JString ''gust''), (''handle'', JNumber 1)])],
      JObject [(''chain'', JObject [(''family'', JString ''ip''), (''table'', JString ''gust''),
        (''name'', JString ''prerouting''), (''handle'', JNumber 1)])],
      JObject [(''rule'', JObject [(''family'', JString ''ip''), (''table'', JString ''gust''),
        (''chain'', JString ''prerouting''), (''handle'', JNumber 4),
        (''comment'', JString ''gust:tcp:8080->1.2.3.4:443''),
        (''expr'', JArray
          [JObject [(''match'', JObject [(''op'', JString ''==''),
             (''left'', JObject [(''payload'', JObject [(''protocol'', JString ''tcp''), (''field'', JString ''dport'')])]),
             (''right'', JNumber 8080)])],
           JObject [(''counter'', JObject [(''packets'', JNumber 10), (''bytes'', JNumber 840)])],
           JObject [(''dnat'', JObject [(''addr'', JString ''1.2.3.4''), (''port'', JNumber 443)])]])])],
      JObject [(''rule'', JObject [(''family'', JString ''ip''), (''table'', JString ''gust''),
        (''chain'', JString ''postrouting''), (''handle'', JNumber 5),
        (''expr'', JArray
          [JObject [(''match'', JObject [(''op'', JString ''in''),
             (''left'', JObject [(''ct'', JObject [(''key'', JString ''status'')])]),
             (''right'', JString ''dnat'')])],
           JObject [(''counter'', JObject [(''packets'', JNumber 7), (''bytes'', JNumber 560)])],
           JObject [(''masquerade'', JObject [(''flags'', JString ''fully-random'')])]])])]])]"

end
