(* ===== verification/Nat_Linux.thy ===== *)
theory Nat_Linux
  imports Nftables Nat_Status Shutdown
begin

text \<open>
  \<open>src/nat/linux.rs\<close> and \<open>src/nat/mod.rs\<close>: the life of kernel NAT mode, from the preflight checks to
  the cleanup. The host is a record of parameters: the \<open>nft\<close> program, the files, the effective user
  and the resolver, over an arbitrary type of host states. Of the log, the outcomes of the
  cleanup calls are part of the model; the periodic reports only read the table.
\<close>

section \<open>Model\<close>

record 'w host =
  ho_nft :: "'w nft"
  ho_read :: "string \<Rightarrow> 'w \<Rightarrow> (io_error, string) result"
  ho_write :: "string \<Rightarrow> string \<Rightarrow> ('w, unit) eff"
  ho_euid :: nat
  ho_resolve :: "string \<Rightarrow> (io_error, socket_addr list) result"

definition IPV4_FWD :: string where "IPV4_FWD = ''/proc/sys/net/ipv4/ip_forward''"

fun scan_addrs :: "ip_addr option \<Rightarrow> socket_addr list \<Rightarrow> ip_addr option" where
  "scan_addrs fallback [] = fallback"
| "scan_addrs fallback (sa # sas) =
     (case sa_ip sa of V4 a \<Rightarrow> Some (V4 a) | V6 a \<Rightarrow> scan_addrs (Some (V6 a)) sas)"

definition resolve_ip :: "(string \<Rightarrow> (io_error, socket_addr list) result) \<Rightarrow> string \<Rightarrow> (io_error, ip_addr) result" where
  "resolve_ip resolve hostname =
     (case parse_ip hostname of
        Some ip \<Rightarrow> Ok ip
      | None \<Rightarrow>
          and_then (resolve hostname) (\<lambda>sas.
            ok_or (io_new KNotFound ''no address found'') (scan_addrs None sas)))"

definition rule_comment :: "protocol \<Rightarrow> u16 \<Rightarrow> ip_addr \<Rightarrow> u16 \<Rightarrow> string" where
  "rule_comment proto dport ip port =
     ''gust:'' @ proto_as_str proto @ '':'' @ show_u16 dport @ ''->'' @ show_ip ip @ '':'' @ show_u16 port"

definition build_rule ::
  "(string \<Rightarrow> (io_error, socket_addr list) result) \<Rightarrow> listener_spec \<Rightarrow> (string, nat_rule) result" where
  "build_rule resolve l =
     (if length (l_targets l) \<noteq> 1
      then Err (''NAT mode requires exactly one destination per -L; `'' @ l_name l @ ''` has '' @
                show_nat (length (l_targets l)) @ '' (round-robin DNAT is not supported in NAT mode)'')
      else
        and_then (map_err io_msg (split_host_port (l_targets l ! 0))) (\<lambda>(hostname, port).
        and_then (map_err (\<lambda>e. ''NAT target `'' @ hostname @ ''` could not be resolved to an IP: '' @ io_msg e)
                    (resolve_ip resolve hostname)) (\<lambda>ip.
        Ok \<lparr>r_proto = l_proto l, r_dport = l_port l, r_dest_ip = ip, r_dest_port = port,
            r_comment = rule_comment (l_proto l) (l_port l) ip port\<rparr>)))"

definition build_rules ::
  "(string \<Rightarrow> (io_error, socket_addr list) result) \<Rightarrow> config \<Rightarrow> (string, nat_rule list) result" where
  "build_rules resolve cfg = try_map (build_rule resolve) (c_listeners cfg)"

definition read_ip_forward :: "'w host \<Rightarrow> 'w \<Rightarrow> (io_error, bool) result" where
  "read_ip_forward h w = and_then (ho_read h IPV4_FWD w) (\<lambda>s. Ok (str_trim s = ''1''))"

definition write_ip_forward :: "'w host \<Rightarrow> bool \<Rightarrow> ('w, unit) eff" where
  "write_ip_forward h v = ho_write h IPV4_FWD (if v then [CHR ''1'', CHR 0x0A] else [CHR ''0'', CHR 0x0A])"

definition forwarding_off :: string where
  "forwarding_off =
     ''net.ipv4.ip_forward is 0, but NAT forwarding to a remote backend needs it set to 1.'' @ [CHR 0x0A] @
     ''  Persistent fix:  echo 'net.ipv4.ip_forward=1' | sudo tee /etc/sysctl.d/99-gust.conf && sudo sysctl --system'' @
     [CHR 0x0A] @ ''  Or pass --set-ip-forward to have gust set it for this run (restored on exit).''"

definition ensure_ip_forward :: "'w host \<Rightarrow> bool \<Rightarrow> 'w \<Rightarrow> (string, bool option) result \<times> 'w" where
  "ensure_ip_forward h set_it w =
     (case read_ip_forward h w of
        Inl e \<Rightarrow> (Err (''cannot read '' @ IPV4_FWD @ '': '' @ io_msg e), w)
      | Inr cur \<Rightarrow>
          if cur then (Ok None, w)
          else if \<not> set_it then (Err forwarding_off, w)
          else
            (case write_ip_forward h True w of
               (Inl e, w') \<Rightarrow> (Err (''cannot set '' @ IPV4_FWD @ ''=1: '' @ io_msg e), w')
             | (Inr _, w') \<Rightarrow> (Ok (Some False), w')))"

definition CAP_NET_ADMIN :: nat where "CAP_NET_ADMIN = 12"

fun scan_cap_eff :: "string list \<Rightarrow> bool" where
  "scan_cap_eff [] = False"
| "scan_cap_eff (l # ls) =
     (case strip_prefix ''CapEff:'' l of
        None \<Rightarrow> scan_cap_eff ls
      | Some hex \<Rightarrow>
          (case parse_u64_hex (str_trim hex) of
             None \<Rightarrow> scan_cap_eff ls
           | Some bits \<Rightarrow> and (drop_bit CAP_NET_ADMIN bits) 1 = 1))"

definition has_net_admin :: "'w host \<Rightarrow> 'w \<Rightarrow> bool" where
  "has_net_admin h w =
     (if ho_euid h = 0 then True
      else (case ho_read h ''/proc/self/status'' w of
              Inr s \<Rightarrow> scan_cap_eff (str_lines s)
            | Inl _ \<Rightarrow> False))"

text \<open>The write that gives the flag back, where there is a value to give back, and what it returned.\<close>

definition restore_forward :: "'w host \<Rightarrow> bool option \<Rightarrow> 'w \<Rightarrow> (io_error, unit) result option \<times> 'w" where
  "restore_forward h restore w =
     (case restore of
        None \<Rightarrow> (None, w)
      | Some prev \<Rightarrow> (case write_ip_forward h prev w of (r, w') \<Rightarrow> (Some r, w')))"

record nat_state =
  ns_armed :: bool
  ns_restore_fwd :: "bool option"

text \<open>What a cleanup logs of its three calls.\<close>

record cleanup_log =
  cl_ip :: delete_log
  cl_ip6 :: delete_log
  cl_restore :: "(io_error, unit) result option"

definition cleanup :: "'w host \<Rightarrow> nat_state \<times> 'w \<Rightarrow> cleanup_log list \<times> nat_state \<times> 'w" where
  "cleanup h x =
     (case x of (st, w) \<Rightarrow>
        if \<not> ns_armed st then ([], st, w)
        else
          (case delete_table (ho_nft h) ''ip'' w of (l4, w1) \<Rightarrow>
           (case delete_table (ho_nft h) ''ip6'' w1 of (l6, w2) \<Rightarrow>
            (case restore_forward h (ns_restore_fwd st) w2 of (r, w3) \<Rightarrow>
               ([\<lparr>cl_ip = l4, cl_ip6 = l6, cl_restore = r\<rparr>], \<lparr>ns_armed = False, ns_restore_fwd = None\<rparr>, w3)))))"

text \<open>\<open>Drop\<close> for the guard.\<close>

definition nat_drop :: "'w host \<Rightarrow> nat_state \<times> 'w \<Rightarrow> cleanup_log list \<times> nat_state \<times> 'w" where
  [simp]: "nat_drop h x = cleanup h x"

text \<open>
  Why \<open>run\<close> returns early. When loading the rules fails, the flag is written back and the result of
  that write is thrown away (\<open>let _ = \<dots>\<close>); it is kept here.
\<close>

datatype nat_refusal =
    NoNft io_error
  | NoNetAdmin
  | BadRules string
  | NoForwarding string
  | LoadFailed io_error "(io_error, unit) result option"

definition refusal_code :: "nat_refusal \<Rightarrow> nat" where
  "refusal_code x = (case x of BadRules _ \<Rightarrow> 2 | _ \<Rightarrow> 1)"

text \<open>\<open>run\<close> up to the armed guard: the refusal, or the rules and the guard.\<close>

definition nat_startup :: "'w host \<Rightarrow> config \<Rightarrow> 'w \<Rightarrow> (nat_refusal, nat_rule list \<times> nat_state) result \<times> 'w" where
  "nat_startup h cfg w =
     (case ensure_available (ho_nft h) w of
        (Inl e, w0) \<Rightarrow> (Err (NoNft e), w0)
      | (Inr _, w0) \<Rightarrow>
          if \<not> has_net_admin h w0 then (Err NoNetAdmin, w0)
          else
            (case build_rules (ho_resolve h) cfg of
               Inl e \<Rightarrow> (Err (BadRules e), w0)
             | Inr rules \<Rightarrow>
                 (case ensure_ip_forward h (c_set_ip_forward cfg) w0 of
                    (Inl e, w1) \<Rightarrow> (Err (NoForwarding e), w1)
                  | (Inr restore, w1) \<Rightarrow>
                      (let w2 = snd (delete_table (ho_nft h) ''ip'' w1);
                           w3 = snd (delete_table (ho_nft h) ''ip6'' w2)
                       in (case apply_ruleset (ho_nft h) (build_ruleset rules) w3 of
                             (Inl e, w4) \<Rightarrow>
                               (case restore_forward h restore w4 of (r, w5) \<Rightarrow> (Err (LoadFailed e r), w5))
                           | (Inr _, w4) \<Rightarrow> (Ok (rules, \<lparr>ns_armed = True, ns_restore_fwd = restore\<rparr>), w4))))))"

text \<open>
  The whole of \<open>run\<close>: \<open>during\<close> is what happens to the host until the shutdown, the second cleanup is
  the one of \<open>Drop\<close> when the guard goes out of scope. A run that was shut down succeeds whatever its
  cleanup logged.
\<close>

datatype nat_end = Refused nat_refusal | ShutDown "cleanup_log list"

definition nat_code :: "nat_end \<Rightarrow> nat" where
  "nat_code r = (case r of Refused x \<Rightarrow> refusal_code x | ShutDown _ \<Rightarrow> 0)"

definition nat_run :: "'w host \<Rightarrow> config \<Rightarrow> ('w \<Rightarrow> 'w) \<Rightarrow> 'w \<Rightarrow> nat_end \<times> 'w" where
  "nat_run h cfg during w =
     (case nat_startup h cfg w of
        (Inl x, w') \<Rightarrow> (Refused x, w')
      | (Inr (rules, st), w') \<Rightarrow>
          (case cleanup h (st, during w') of (l1, st1, w1) \<Rightarrow>
           (case nat_drop h (st1, w1) of (l2, st2, w2) \<Rightarrow> (ShutDown (l1 @ l2), w2))))"

definition nat_totals :: "counter_stat list \<Rightarrow> u64 \<times> u64" where
  "nat_totals stats = (sum_list (map cs_packets stats), sum_list (map cs_bytes stats))"

text \<open>One beat of the heartbeat task: the line it logs.\<close>

definition nat_heartbeat :: "'w host \<Rightarrow> 'v json \<Rightarrow> 'w \<Rightarrow> string \<times> 'w" where
  "nat_heartbeat h js w =
     (case list_json (ho_nft h) w of
        (Some json, w') \<Rightarrow>
          (let stats = parse_counters js json; (packets, bytes) = nat_totals stats
           in (''heartbeat(nat): tunnels='' @ show_nat (length stats) @ '' packets='' @ show_u64 packets @
               '' bytes='' @ show_u64 bytes, w'))
      | (None, w') \<Rightarrow> (''heartbeat(nat): table missing'', w'))"

text \<open>The heartbeat task, over what its waits end with: the shutdown, or a full interval after which
  the flag is read.\<close>

datatype nat_beat = NatCancelled | NatSlept bool

fun nat_heartbeat_task :: "'w host \<Rightarrow> 'v json \<Rightarrow> nat_beat list \<Rightarrow> 'w \<Rightarrow> string list \<times> 'w" where
  "nat_heartbeat_task h js [] w = ([], w)"
| "nat_heartbeat_task h js (NatCancelled # bs) w = ([], w)"
| "nat_heartbeat_task h js (NatSlept triggered # bs) w =
     (if triggered then ([], w)
      else
        (case nat_heartbeat h js w of (l, w1) \<Rightarrow>
         (case nat_heartbeat_task h js bs w1 of (ls, w2) \<Rightarrow> (l # ls, w2))))"

text \<open>The lines logged for \<open>SIGUSR1\<close>.\<close>

definition status_line :: "counter_stat \<Rightarrow> string" where
  "status_line c =
     cs_comment c @ '' packets='' @ show_u64 (cs_packets c) @ '' bytes='' @ show_u64 (cs_bytes c)"

definition dump_status :: "'w host \<Rightarrow> 'v json \<Rightarrow> 'w \<Rightarrow> string list \<times> 'w" where
  "dump_status h js w =
     (case list_json (ho_nft h) w of
        (Some json, w') \<Rightarrow>
          (let stats = parse_counters js json
           in ((''--- NAT status ('' @ show_nat (length stats) @ '' tunnels) ---'') # map status_line stats, w'))
      | (None, w') \<Rightarrow> ([''NAT status unavailable (table missing or nft error)''], w'))"

text \<open>\<open>run\<close> on a platform without netfilter.\<close>

definition nat_run_unsupported :: "config \<Rightarrow> 'w \<Rightarrow> nat \<times> 'w" where
  "nat_run_unsupported cfg w = (1, w)"

text \<open>\<open>gust --nat-cleanup\<close>.\<close>

text \<open>
  The deletions log, but no logger is installed yet; what they would log is kept beside the end of
  the program.
\<close>

definition cleanup_main :: "printer \<Rightarrow> 'w nft \<Rightarrow> 'w \<Rightarrow> program_end \<times> delete_log list \<times> 'w" where
  "cleanup_main pr nft w =
     (case ensure_available nft w of
        (Inl e, w') \<Rightarrow> (exit_failing pr 1 [''gust: '' @ io_msg e], [], w')
      | (Inr _, w') \<Rightarrow>
          (case delete_table nft ''ip'' w' of (l4, w1) \<Rightarrow>
           (case delete_table nft ''ip6'' w1 of (l6, w2) \<Rightarrow>
              (exit_printing pr
                 (line (''gust: removed nftables table '' @ quoted TABLE @ '' (ip, ip6) if it was present'')),
               [l4, l6], w2))))"

section \<open>Destinations\<close>

text \<open>The address chosen among the resolved ones.\<close>

lemma scan_addrs_v4:
  "sas = pre @ sa # post \<Longrightarrow> list_all (\<lambda>x. \<not> is_ipv4 (sa_ip x)) pre \<Longrightarrow> is_ipv4 (sa_ip sa) \<Longrightarrow>
     scan_addrs fb sas = Some (sa_ip sa)"
  by (induction pre arbitrary: fb sas) (auto simp: is_ipv4_def split: ip_addr.splits)

lemma scan_addrs_v6:
  "list_all (\<lambda>x. \<not> is_ipv4 (sa_ip x)) sas \<Longrightarrow>
     scan_addrs fb sas = (if sas = [] then fb else Some (sa_ip (last sas)))"
  by (induction sas arbitrary: fb) (auto simp: is_ipv4_def split: ip_addr.splits)

lemma proto_as_str_graphic: "list_all graphic (proto_as_str p)"
  by (cases p) (simp_all add: graphic_def)

lemma rule_comment_graphic: "list_all graphic (rule_comment proto dport ip port)"
  unfolding rule_comment_def
  by (simp add: proto_as_str_graphic show_u16_all_graphic show_ip_all_graphic graphic_def)

lemma build_rule_Ok:
  assumes "build_rule resolve l = Inr r"
  obtains target hostname port ip where "l_targets l = [target]" "split_host_port target = Inr (hostname, port)"
    "resolve_ip resolve hostname = Inr ip"
    "r = \<lparr>r_proto = l_proto l, r_dport = l_port l, r_dest_ip = ip, r_dest_port = port,
          r_comment = rule_comment (l_proto l) (l_port l) ip port\<rparr>"
proof -
  have "length (l_targets l) = 1" using assms by (simp add: build_rule_def split: if_splits)
  then obtain target where t: "l_targets l = [target]" by (auto simp: length_Suc_conv)
  with assms that show thesis by (auto simp: build_rule_def result_iffs)
qed

lemma build_rules_plain:
  assumes "build_rules resolve cfg = Inr rules"
  shows "list_all plain_comment rules"
proof -
  have "plain_comment r" if "build_rule resolve l = Inr r" for l r
    by (rule build_rule_Ok [OF that]) (simp add: plain_comment_def rule_comment_graphic)
  then show ?thesis using try_map_in_set [OF assms [unfolded build_rules_def]]
    unfolding list_all_iff by blast
qed

section \<open>Host states\<close>

text \<open>
  What the documentation of \<open>nft\<close> and of the sysctl file says, in terms of the families in which a
  table of ours exists (\<open>tables\<close>) and of the forwarding flag. Every call can fail. A deletion touches
  no other table and leaves none of the family behind when it exits with success or with the error
  that there is no such table; loading a ruleset is one transaction, done or not; asking for the
  version changes nothing; a write of the file that succeeds sets the flag and one that fails leaves
  it; a read that succeeds returns it.
\<close>

lemma trim_flag: "str_trim [CHR ''1'', CHR 0x0A] = ''1''" "str_trim [CHR ''0'', CHR 0x0A] = ''0''"
  by code_simp+

locale nat_host =
  fixes h :: "'w host"
    and tables :: "'w \<Rightarrow> string set"
    and forwarding :: "'w \<Rightarrow> bool"
  assumes version_pure: "ho_nft h [''--version''] None w = (r, w') \<Longrightarrow> tables w' = tables w \<and> forwarding w' = forwarding w"
    and delete_frame: "ho_nft h [''delete'', ''table'', f, TABLE] None w = (r, w') \<Longrightarrow>
      tables w - {f} \<subseteq> tables w' \<and> tables w' \<subseteq> tables w \<and> forwarding w' = forwarding w"
    and delete_done: "ho_nft h [''delete'', ''table'', f, TABLE] None w = (Exited ok out err, w') \<Longrightarrow>
      ok \<or> says_absent (from_utf8_lossy err) \<Longrightarrow> f \<notin> tables w'"
    and load_atomic: "ho_nft h [''-f'', ''-''] (Some text) w = (r, w') \<Longrightarrow>
      forwarding w' = forwarding w \<and> tables w' \<subseteq> tables w \<union> {''ip'', ''ip6''} \<and>
      ((\<exists>out err. r = Exited True out err) \<or> tables w' = tables w)"
    and write_law: "ho_write h IPV4_FWD v w = (q, w') \<Longrightarrow> tables w' = tables w \<and>
      forwarding w' = (case q of Inl e \<Rightarrow> forwarding w | Inr u \<Rightarrow> str_trim v = ''1'')"
    and read_law: "ho_read h IPV4_FWD w = Inr s \<Longrightarrow> (str_trim s = ''1'') = forwarding w"
begin

lemma delete_table_law:
  assumes "delete_table (ho_nft h) f w = (l, w')"
  shows "forwarding w' = forwarding w" "tables w - {f} \<subseteq> tables w'" "tables w' \<subseteq> tables w"
    "f \<notin> tables w' \<or> delete_failed l"
proof -
  obtain r v where n: "ho_nft h [''delete'', ''table'', f, TABLE] None w = (r, v)" by fastforce
  have v: "w' = v" using assms n by (auto simp: delete_table_def run_nft_def split: process_end.splits)
  show "forwarding w' = forwarding w" "tables w - {f} \<subseteq> tables w'" "tables w' \<subseteq> tables w"
    using delete_frame [OF n] v by blast+
  show "f \<notin> tables w' \<or> delete_failed l"
  proof (cases r)
    case (Exited ok out err)
    from delete_done [OF n [unfolded Exited]] assms n Exited v show ?thesis
      by (auto simp: delete_table_def run_nft_def delete_failed_def split: if_splits)
  qed (use assms n in \<open>auto simp: delete_table_def run_nft_def delete_failed_def\<close>)
qed

lemma delete_both_law:
  assumes "delete_table (ho_nft h) ''ip'' w = (l4, w1)" "delete_table (ho_nft h) ''ip6'' w1 = (l6, w2)"
  shows "forwarding w2 = forwarding w" "tables w2 \<subseteq> tables w"
    "''ip'' \<notin> tables w2 \<or> delete_failed l4" "''ip6'' \<notin> tables w2 \<or> delete_failed l6"
  using delete_table_law [OF assms(1)] delete_table_law [OF assms(2)] by auto

lemma ensure_available_law:
  assumes "ensure_available (ho_nft h) w = (r, w')"
  shows "tables w' = tables w" "forwarding w' = forwarding w"
  using assms version_pure [of w]
  by (auto simp: ensure_available_def ebind_def run_nft_def eret_def efail_def
      split: prod.splits process_end.splits if_splits sum.splits)

lemma write_forward_law:
  assumes "write_ip_forward h v w = (r, w')"
  shows "tables w' = tables w" "forwarding w' = (case r of Inl e \<Rightarrow> forwarding w | Inr u \<Rightarrow> v)"
proof -
  have "(str_trim (if v then [CHR ''1'', CHR 0x0A] else [CHR ''0'', CHR 0x0A]) = ''1'') = v"
    by (cases v) (auto simp: trim_flag)
  note l = write_law [OF assms [unfolded write_ip_forward_def], unfolded this]
  show "tables w' = tables w" "forwarding w' = (case r of Inl e \<Rightarrow> forwarding w | Inr u \<Rightarrow> v)" using l by simp_all
qed

lemma restore_forward_law:
  assumes "restore_forward h restore w = (r, w')"
  shows "tables w' = tables w"
    "forwarding w' = (case restore of None \<Rightarrow> forwarding w | Some p \<Rightarrow> p) \<or>
       (\<exists>e. r = Some (Inl e)) \<and> forwarding w' = forwarding w"
  using assms write_forward_law [of "the restore" w]
  by (auto simp: restore_forward_def split: option.splits prod.splits sum.splits)

lemma apply_law:
  assumes "apply_ruleset (ho_nft h) text w = (r, w')"
  shows "forwarding w' = forwarding w" "tables w' \<subseteq> tables w \<union> {''ip'', ''ip6''}" "isl r \<Longrightarrow> tables w' = tables w"
proof -
  obtain q v where n: "ho_nft h [''-f'', ''-''] (Some text) w = (q, v)" by fastforce
  note l = load_atomic [OF n]
  have v: "w' = v" and e: "isl r \<or> (\<exists>out err. q = Exited True out err)"
    using assms n by (auto simp: apply_ruleset_def ebind_def run_nft_def eret_def efail_def
        split: process_end.splits if_splits)
  show "forwarding w' = forwarding w" "tables w' \<subseteq> tables w \<union> {''ip'', ''ip6''}" using l v by auto
  show "tables w' = tables w" if "isl r"
  proof -
    have "\<not> (\<exists>out err. q = Exited True out err)"
      using that assms n by (auto simp: apply_ruleset_def ebind_def run_nft_def eret_def)
    then show ?thesis using l v by auto
  qed
qed

lemma ensure_ip_forward_law:
  assumes "ensure_ip_forward h set_it w = (r, w')"
  shows "tables w' = tables w"
    and "isl r \<Longrightarrow> forwarding w' = forwarding w"
    and "r = Inr None \<Longrightarrow> forwarding w' = forwarding w"
    and "r = Inr (Some p) \<Longrightarrow> p = forwarding w \<and> set_it \<and> \<not> p \<and> forwarding w'"
proof -
  obtain q v where x: "write_ip_forward h True w = (q, v)" by fastforce
  note l = write_forward_law [OF x]
  consider e where "read_ip_forward h w = Inl e" | "read_ip_forward h w = Inr (forwarding w)"
    using read_law by (cases "ho_read h IPV4_FWD w") (auto simp: read_ip_forward_def)
  then have "tables w' = tables w \<and> (isl r \<longrightarrow> forwarding w' = forwarding w) \<and>
      (r = Inr None \<longrightarrow> forwarding w' = forwarding w) \<and>
      (r = Inr (Some p) \<longrightarrow> p = forwarding w \<and> set_it \<and> \<not> p \<and> forwarding w')"
    using assms x l by cases (auto simp: ensure_ip_forward_def split: if_splits sum.splits)
  then show "tables w' = tables w" "isl r \<Longrightarrow> forwarding w' = forwarding w"
    "r = Inr None \<Longrightarrow> forwarding w' = forwarding w"
    "r = Inr (Some p) \<Longrightarrow> p = forwarding w \<and> set_it \<and> \<not> p \<and> forwarding w'" by blast+
qed

lemma cleanup_law:
  assumes "cleanup h (st, w) = (ls, st', w')" "ns_armed st"
  obtains l where "ls = [l]" "\<not> ns_armed st'"
    "''ip'' \<notin> tables w' \<or> delete_failed (cl_ip l)" "''ip6'' \<notin> tables w' \<or> delete_failed (cl_ip6 l)"
    "forwarding w' = (case ns_restore_fwd st of None \<Rightarrow> forwarding w | Some p \<Rightarrow> p) \<or> (\<exists>e. cl_restore l = Some (Inl e))"
proof -
  obtain l4 w1 where d4: "delete_table (ho_nft h) ''ip'' w = (l4, w1)" by fastforce
  obtain l6 w2 where d6: "delete_table (ho_nft h) ''ip6'' w1 = (l6, w2)" by fastforce
  obtain r w3 where f: "restore_forward h (ns_restore_fwd st) w2 = (r, w3)" by fastforce
  have c: "ls = [\<lparr>cl_ip = l4, cl_ip6 = l6, cl_restore = r\<rparr>]" "\<not> ns_armed st'" "w' = w3"
    using assms d4 d6 f by (auto simp: cleanup_def)
  note d = delete_both_law [OF d4 d6] and b = restore_forward_law [OF f]
  have "forwarding w3 = (case ns_restore_fwd st of None \<Rightarrow> forwarding w | Some p \<Rightarrow> p) \<or> (\<exists>e. r = Some (Inl e))"
    using b(2) unfolding d(1) by blast
  then show thesis using c d b(1) by (intro that [of "\<lparr>cl_ip = l4, cl_ip6 = l6, cl_restore = r\<rparr>"]) simp_all
qed

end

lemma cleanup_twice: "cleanup h x = (ls, y) \<Longrightarrow> cleanup h y = ([], y)"
  by (cases x; cases y) (auto simp: cleanup_def split: prod.splits if_splits)

section \<open>A run leaves nothing behind\<close>

text \<open>
  What a run that started on \<open>w\<close> owes the host when it returns: a refused run has added no table, a
  run that was shut down has cleaned up once and removed both tables, and both have given the flag
  back; each of these unless the very call that does it failed.
\<close>

definition gives_back :: "('w \<Rightarrow> string set) \<Rightarrow> ('w \<Rightarrow> bool) \<Rightarrow> 'w \<Rightarrow> nat_end \<Rightarrow> 'w \<Rightarrow> bool" where
  "gives_back tables forwarding w r w' \<longleftrightarrow>
     (case r of
        Refused x \<Rightarrow>
          tables w' \<subseteq> tables w \<and>
          (forwarding w' = forwarding w \<or> (\<exists>e failure. x = LoadFailed e (Some (Err failure))))
      | ShutDown ls \<Rightarrow>
          \<exists>l. ls = [l] \<and>
            (''ip'' \<notin> tables w' \<or> delete_failed (cl_ip l)) \<and>
            (''ip6'' \<notin> tables w' \<or> delete_failed (cl_ip6 l)) \<and>
            (forwarding w' = forwarding w \<or> (\<exists>failure. cl_restore l = Some (Err failure))))"

lemma startup_cases:
  assumes "nat_startup h cfg w = (r, w')"
  obtains (no_nft) e where "ensure_available (ho_nft h) w = (Inl e, w')" "r = Inl (NoNft e)"
  | (checked) w0 x where "ensure_available (ho_nft h) w = (Inr x, w0)" "w' = w0"
      "r = Inl NoNetAdmin \<or> (\<exists>e. r = Inl (BadRules e) \<and> build_rules (ho_resolve h) cfg = Inl e)"
  | (forward) w0 x e where "ensure_available (ho_nft h) w = (Inr x, w0)"
      "ensure_ip_forward h (c_set_ip_forward cfg) w0 = (Inl e, w')" "r = Inl (NoForwarding e)"
  | (loaded) w0 x w1 restore l4 w2 l6 w3 rules q w4 where "ensure_available (ho_nft h) w = (Inr x, w0)"
      "ensure_ip_forward h (c_set_ip_forward cfg) w0 = (Inr restore, w1)"
      "build_rules (ho_resolve h) cfg = Inr rules"
      "delete_table (ho_nft h) ''ip'' w1 = (l4, w2)" "delete_table (ho_nft h) ''ip6'' w2 = (l6, w3)"
      "apply_ruleset (ho_nft h) (build_ruleset rules) w3 = (q, w4)"
      "case q of
         Inl e \<Rightarrow> r = Inl (LoadFailed e (fst (restore_forward h restore w4))) \<and> w' = snd (restore_forward h restore w4)
       | Inr u \<Rightarrow> r = Inr (rules, \<lparr>ns_armed = True, ns_restore_fwd = restore\<rparr>) \<and> w' = w4"
proof -
  obtain a w0 where a: "ensure_available (ho_nft h) w = (a, w0)" by fastforce
  show thesis
  proof (cases a)
    case (Inl e)
    with a assms show thesis by (intro no_nft [of e]) (simp_all add: nat_startup_def)
  next
    case (Inr x)
    note av = a [unfolded Inr]
    show thesis
    proof (cases "has_net_admin h w0 \<and> \<not> isl (build_rules (ho_resolve h) cfg)")
      case False
      with av assms show thesis by (intro checked [OF av]) (auto simp: nat_startup_def split: sum.splits if_splits)
    next
      case True
      then obtain rules where r: "build_rules (ho_resolve h) cfg = Inr rules" by (metis isl_def sum.exhaust_sel)
      obtain f w1 where f: "ensure_ip_forward h (c_set_ip_forward cfg) w0 = (f, w1)" by fastforce
      obtain l4 w2 where d4: "delete_table (ho_nft h) ''ip'' w1 = (l4, w2)" by fastforce
      obtain l6 w3 where d6: "delete_table (ho_nft h) ''ip6'' w2 = (l6, w3)" by fastforce
      obtain q w4 where q: "apply_ruleset (ho_nft h) (build_ruleset rules) w3 = (q, w4)" by fastforce
      show thesis
      proof (cases f)
        case (Inl e)
        with True assms av r f show thesis by (intro forward [OF av, of e]) (simp_all add: nat_startup_def)
      next
        case (Inr restore)
        show thesis
          by (rule loaded [OF av f [unfolded Inr] r d4 d6 q])
             (use True assms in \<open>cases q; simp add: nat_startup_def av r f Inr d4 d6 q Let_def split: prod.splits\<close>)
      qed
    qed
  qed
qed

lemma nat_startup_rules:
  "nat_startup h cfg w = (Inl (BadRules e), w') \<Longrightarrow> build_rules (ho_resolve h) cfg = Inl e"
  by (erule startup_cases) (auto split: sum.splits)

context nat_host
begin

lemma startup_Err:
  assumes "nat_startup h cfg w = (Inl x, w')"
  shows "gives_back tables forwarding w (Refused x) w'"
  using assms
proof (cases rule: startup_cases)
  case no_nft
  then show ?thesis using ensure_available_law [OF no_nft(1)] by (simp add: gives_back_def)
next
  case checked
  then show ?thesis using ensure_available_law [OF checked(1)] by (simp add: gives_back_def)
next
  case forward
  then show ?thesis
    using ensure_available_law [OF forward(1)] ensure_ip_forward_law [OF forward(2)] by (simp add: gives_back_def)
next
  case (loaded w0 u w1 restore l4 w2 l6 w3 rules q w4)
  note a = ensure_available_law [OF loaded(1)] and f = ensure_ip_forward_law [OF loaded(2)]
    and d = delete_both_law [OF loaded(4,5)] and l = apply_law [OF loaded(6)]
  obtain e where q: "q = Inl e" using loaded(7) by (cases q) auto
  obtain t v where r: "restore_forward h restore w4 = (t, v)" by fastforce
  note b = restore_forward_law [OF r]
  have x: "x = LoadFailed e t" "w' = v" using loaded(7) q r by simp_all
  have "tables v \<subseteq> tables w" using a f(1) d l q b(1) by auto
  moreover have "forwarding v = forwarding w \<or> (\<exists>failure. t = Some (Inl failure))"
    using a f(3,4) d(1) l(1) b(2) by (cases restore) auto
  ultimately show ?thesis using x by (auto simp: gives_back_def)
qed

lemma startup_Ok:
  assumes "nat_startup h cfg w = (Inr (rules, st), w')"
  shows "ns_armed st \<and> (case ns_restore_fwd st of None \<Rightarrow> forwarding w' | Some p \<Rightarrow> p) = forwarding w"
  using assms
proof (cases rule: startup_cases)
  case (loaded w0 u w1 restore l4 w2 l6 w3 rules' q w4)
  note a = ensure_available_law [OF loaded(1)] and f = ensure_ip_forward_law [OF loaded(2)]
    and d = delete_both_law [OF loaded(4,5)] and l = apply_law [OF loaded(6)]
  have s: "st = \<lparr>ns_armed = True, ns_restore_fwd = restore\<rparr>" "w' = w4"
    using loaded(7) by (cases q; simp)+
  then show ?thesis using f(3,4) a d(1) l(1) by (cases restore; simp)
qed auto

lemma run_gives_back:
  assumes run: "nat_run h cfg during w = (r, w')" and fw: "\<And>v. forwarding (during v) = forwarding v"
  shows "gives_back tables forwarding w r w'"
proof (cases "nat_startup h cfg w")
  case (Pair q v)
  show ?thesis
  proof (cases q)
    case (Inl x)
    with startup_Err [of cfg w x v] run Pair show ?thesis by (simp add: nat_run_def)
  next
    case (Inr y)
    obtain rules st where y: "y = (rules, st)" by fastforce
    note s = startup_Ok [OF Pair [unfolded Inr y]]
    obtain ls st' u where c: "cleanup h (st, during v) = (ls, st', u)" by (metis prod_cases3)
    have "r = ShutDown ls" "w' = u" using run Pair Inr y c cleanup_twice [OF c] by (auto simp: nat_run_def)
    moreover obtain l where "ls = [l]" "''ip'' \<notin> tables u \<or> delete_failed (cl_ip l)"
      "''ip6'' \<notin> tables u \<or> delete_failed (cl_ip6 l)"
      "forwarding u = (case ns_restore_fwd st of None \<Rightarrow> forwarding (during v) | Some p \<Rightarrow> p) \<or>
         (\<exists>e. cl_restore l = Some (Inl e))"
      by (rule cleanup_law [OF c s [THEN conjunct1]])
    ultimately show ?thesis using s fw by (auto simp: gives_back_def split: option.splits)
  qed
qed

end

text \<open>
  A host with tables and a flag provides the interface: \<open>nft\<close> loads the tables a ruleset opens,
  unless \<open>refuses\<close> says that it exits with an error; when \<open>broken\<close> its deletions and the writes of the
  flag fail.
\<close>

definition model_nft :: "bool \<Rightarrow> bool \<Rightarrow> (string set \<times> bool) nft" where
  "model_nft refuses broken args input w =
     (if args = [''--version''] then (Exited True ''nftables v1.0.9'' [], w)
      else if length args = 4 \<and> take 2 args = [''delete'', ''table''] \<and> args ! 3 = TABLE
      then
        (if broken then (Exited False [] ''Error: Could not process rule: Operation not permitted'', w)
         else if args ! 2 \<in> fst w then (Exited True [] [], (fst w - {args ! 2}, snd w))
         else (Exited False [] ''Error: No such file or directory'', w))
      else if args = [''-f'', ''-''] then
        (if refuses then (Exited False [] ''syntax error'', w)
         else (Exited True [] [],
               (fst w \<union> set (filter (\<lambda>f. ''table '' @ f @ '' gust {'' \<in> set (str_lines (the input))) [''ip'', ''ip6'']), snd w)))
      else (Exited False [] [], w))"

definition model_host ::
  "bool \<Rightarrow> bool \<Rightarrow> (string \<Rightarrow> (io_error, socket_addr list) result) \<Rightarrow> (string set \<times> bool) host" where
  "model_host refuses broken resolve =
     \<lparr>ho_nft = model_nft refuses broken,
      ho_read = (\<lambda>path w. Ok (if snd w then [CHR ''1'', CHR 0x0A] else [CHR ''0'', CHR 0x0A])),
      ho_write = (\<lambda>path v w.
        if broken then (Err (io_new KPermissionDenied ''denied''), w) else (Ok (), (fst w, str_trim v = ''1''))),
      ho_euid = 0,
      ho_resolve = resolve\<rparr>"

lemma not_absent: "\<not> says_absent (from_utf8_lossy ''Error: Could not process rule: Operation not permitted'')"
  by code_simp

interpretation model_host: nat_host "model_host refuses broken resolve" fst snd for refuses broken resolve
proof unfold_locales
  fix w :: "string set \<times> bool" and f r w'
  assume "ho_nft (model_host refuses broken resolve) [''delete'', ''table'', f, TABLE] None w = (r, w')"
  then show "fst w - {f} \<subseteq> fst w' \<and> fst w' \<subseteq> fst w \<and> snd w' = snd w"
    by (auto simp: model_host_def model_nft_def split: if_splits)
next
  fix w :: "string set \<times> bool" and f ok out err w'
  assume "ho_nft (model_host refuses broken resolve) [''delete'', ''table'', f, TABLE] None w = (Exited ok out err, w')"
    "ok \<or> says_absent (from_utf8_lossy err)"
  then show "f \<notin> fst w'" using not_absent by (auto simp: model_host_def model_nft_def split: if_splits)
next
  fix w :: "string set \<times> bool" and rs r w'
  assume "ho_nft (model_host refuses broken resolve) [''-f'', ''-''] (Some rs) w = (r, w')"
  then show "snd w' = snd w \<and> fst w' \<subseteq> fst w \<union> {''ip'', ''ip6''} \<and>
      ((\<exists>out err. r = Exited True out err) \<or> fst w' = fst w)"
    by (auto simp: model_host_def model_nft_def split: if_splits)
next
  fix w :: "string set \<times> bool" and s
  assume "ho_read (model_host refuses broken resolve) IPV4_FWD w = Inr s"
  then show "(str_trim s = ''1'') = snd w" by (auto simp: model_host_def trim_flag split: if_splits)
qed (auto simp: model_host_def model_nft_def split: if_splits)

section \<open>Properties\<close>

text \<open>
  C25: However a run of kernel NAT mode ends, it gives the host back or the call that should have done
  so failed. A run that was refused has added no table, and the forwarding flag has its old value
  again, also when loading the rules failed after the flag was set, unless that very write failed. A
  run that was shut down has cleaned up exactly once: of each family no table of ours is left unless
  \<open>nft\<close> failed to delete it and a warning says so, and the flag has its old value unless the write
  failed and a warning says so. The exit code is 2 when the rules could not be built, 1 for any other
  refusal and 0 after a shutdown, also when the cleanup failed.
\<close>

theorem nat_run_restores_host:
  assumes "nat_host h tables forwarding" "nat_run h cfg during w = (r, w')"
    "\<And>v. forwarding (during v) = forwarding v"
  shows "gives_back tables forwarding w r w' \<and>
     (nat_code r = 0 \<longleftrightarrow> (\<exists>ls. r = ShutDown ls)) \<and>
     (nat_code r = 2 \<longleftrightarrow> (\<exists>e. r = Refused (BadRules e) \<and> build_rules (ho_resolve h) cfg = Err e)) \<and>
     nat_code r \<le> 2"
proof (intro conjI)
  show "gives_back tables forwarding w r w'" by (rule nat_host.run_gives_back [OF assms])
  have "build_rules (ho_resolve h) cfg = Err e" if "r = Refused (BadRules e)" for e
    using assms(2) that nat_startup_rules [of h cfg w e] by (auto simp: nat_run_def split: prod.splits sum.splits)
  then show "nat_code r = 2 \<longleftrightarrow> (\<exists>e. r = Refused (BadRules e) \<and> build_rules (ho_resolve h) cfg = Err e)"
    by (auto simp: nat_code_def refusal_code_def split: nat_end.splits nat_refusal.splits)
qed (auto simp: nat_code_def refusal_code_def split: nat_end.splits nat_refusal.splits)

definition sample_nat_config :: config where
  "sample_nat_config =
     \<lparr>c_listeners =
        [\<lparr>l_proto = Tcp, l_bind = ''0.0.0.0:8080'', l_port = 8080, l_targets = [''1.2.3.4:443''], l_nodelay = False,
          l_name = ''tcp://:8080''\<rparr>],
      c_chain = [], c_mode = NatMode, c_mark = None, c_set_ip_forward = True, c_buf_size = 32768,
      c_heartbeat = 60000, c_debug = False, c_worker_threads = None, c_sock = default_sock_opts\<rparr>"

definition sample_nat_rule :: nat_rule where
  "sample_nat_rule =
     \<lparr>r_proto = Tcp, r_dport = 8080, r_dest_ip = V4 (Ipv4Addr 1 2 3 4), r_dest_port = 443,
      r_comment = ''gust:tcp:8080->1.2.3.4:443''\<rparr>"

lemma sample_build_rules: "build_rules (\<lambda>_. Ok []) sample_nat_config = Ok [sample_nat_rule]"
  by code_simp

text \<open>A run on a host that works, and one on a host where the cleanup cannot delete the table.\<close>

theorem nat_run_restores_host_witness:
  "gives_back fst snd ({''ip''}, False)
     (fst (nat_run (model_host False False (\<lambda>_. Ok [])) sample_nat_config id ({''ip''}, False)))
     (snd (nat_run (model_host False False (\<lambda>_. Ok [])) sample_nat_config id ({''ip''}, False))) \<and>
   snd (nat_run (model_host False False (\<lambda>_. Ok [])) sample_nat_config id ({''ip''}, False)) = ({}, False) \<and>
   gives_back fst snd ({}, True)
     (fst (nat_run (model_host False True (\<lambda>_. Ok [])) sample_nat_config id ({}, True)))
     (snd (nat_run (model_host False True (\<lambda>_. Ok [])) sample_nat_config id ({}, True))) \<and>
   nat_code (fst (nat_run (model_host False True (\<lambda>_. Ok [])) sample_nat_config id ({}, True))) = 0 \<and>
   snd (nat_run (model_host False True (\<lambda>_. Ok [])) sample_nat_config id ({}, True)) = ({''ip''}, True)"
proof (intro conjI)
  show "gives_back fst snd ({''ip''}, False)
     (fst (nat_run (model_host False False (\<lambda>_. Ok [])) sample_nat_config id ({''ip''}, False)))
     (snd (nat_run (model_host False False (\<lambda>_. Ok [])) sample_nat_config id ({''ip''}, False)))"
    "gives_back fst snd ({}, True)
     (fst (nat_run (model_host False True (\<lambda>_. Ok [])) sample_nat_config id ({}, True)))
     (snd (nat_run (model_host False True (\<lambda>_. Ok [])) sample_nat_config id ({}, True)))"
    by (rule nat_run_restores_host [OF model_host.nat_host_axioms surjective_pairing, THEN conjunct1], simp)+
qed code_simp+

text \<open>
  Cleaning up is idempotent: the second call (from \<open>Drop\<close>, after the explicit one) does nothing
  to the host, so no table or flag that somebody set up in between is touched.
\<close>

theorem nat_cleanup_idempotent:
  "cleanup h (st, w) = (ls, st', w') \<Longrightarrow> cleanup h (st', v) = ([], st', v)"
  by (auto simp: cleanup_def split: prod.splits if_splits)

text \<open>
  C28: The ruleset that is given to \<open>nft\<close> says the listeners: there is one rule per listener in order, with its
  protocol and port and with the resolved address and the port of its only target. The blocks
  of the ruleset text, every line of it counted, are one table for each family that occurs, each
  with a prerouting chain that holds its hook and then one statement for each rule of the family, in
  order, and a postrouting chain that holds its hook and the masquerade statement, and nothing else.
  The words of a rule's statement are its protocol, \<open>dport\<close> and a port, \<open>counter\<close>, \<open>comment\<close> and the comment
  in quotes, and \<open>dnat to\<close> and a destination, where port and destination read back as those of the rule.
  This is about the text only: \<open>nft(8)\<close> puts the comment of a rule after its last statement, here it
  stands before \<open>dnat\<close>, and whether the program takes it there is not assumed.
\<close>

theorem nat_rules_installed:
  assumes "build_rules resolve cfg = Ok rules"
  shows "list_all2 (\<lambda>l r. r_proto r = l_proto l \<and> r_dport r = l_port l \<and>
       (\<exists>target hostname. l_targets l = [target] \<and> split_host_port target = Ok (hostname, r_dest_port r) \<and>
          resolve_ip resolve hostname = Ok (r_dest_ip r))) (c_listeners cfg) rules \<and>
     (\<exists>v4 v6. read_blocks [] [] (str_lines (build_ruleset rules)) =
          Some ((if v4 = [] then [] else [nat_table ''ip'' v4]) @ (if v6 = [] then [] else [nat_table ''ip6'' v6])) \<and>
        list_all2 says_rule v4 (filter (\<lambda>r. is_ipv4 (r_dest_ip r)) rules) \<and>
        list_all2 says_rule v6 (filter (\<lambda>r. \<not> is_ipv4 (r_dest_ip r)) rules))"
proof
  have "list_all2 (\<lambda>l r. build_rule resolve l = Inr r) (c_listeners cfg) rules"
    using assms by (simp add: build_rules_def try_map_Inr_iff)
  then show "list_all2 (\<lambda>l r. r_proto r = l_proto l \<and> r_dport r = l_port l \<and>
       (\<exists>target hostname. l_targets l = [target] \<and> split_host_port target = Ok (hostname, r_dest_port r) \<and>
          resolve_ip resolve hostname = Ok (r_dest_ip r))) (c_listeners cfg) rules"
    by (rule list_all2_mono) (erule build_rule_Ok, simp)
  note plain = build_rules_plain [OF assms]
  have says: "list_all2 says_rule (map rule_words (filter P rules)) (filter P rules)" for P
    using plain says_rule_words by (auto simp: list_all2_map1 list_all_iff intro!: list_all2_same [THEN iffD2])
  show "\<exists>v4 v6. read_blocks [] [] (str_lines (build_ruleset rules)) =
          Some ((if v4 = [] then [] else [nat_table ''ip'' v4]) @ (if v6 = [] then [] else [nat_table ''ip6'' v6])) \<and>
        list_all2 says_rule v4 (filter (\<lambda>r. is_ipv4 (r_dest_ip r)) rules) \<and>
        list_all2 says_rule v6 (filter (\<lambda>r. \<not> is_ipv4 (r_dest_ip r)) rules)"
    by (intro exI conjI, rule read_ruleset_tables [OF plain]) (rule says)+
qed

theorem nat_rules_installed_witness:
  "\<exists>v4 v6. read_blocks [] [] (str_lines (build_ruleset [sample_nat_rule])) =
     Some ((if v4 = [] then [] else [nat_table ''ip'' v4]) @ (if v6 = [] then [] else [nat_table ''ip6'' v6])) \<and>
     list_all2 says_rule v4 [sample_nat_rule] \<and> v6 = []"
proof -
  have f: "filter (\<lambda>r. is_ipv4 (r_dest_ip r)) [sample_nat_rule] = [sample_nat_rule]"
    "filter (\<lambda>r. \<not> is_ipv4 (r_dest_ip r)) [sample_nat_rule] = []"
    by (simp_all add: sample_nat_rule_def is_ipv4_def)
  from nat_rules_installed [OF sample_build_rules, unfolded f] show ?thesis by auto
qed

text \<open>
  A target that is an address literal is used as it is and never resolved; of the addresses of a
  name the first IPv4 address is chosen, the last IPv6 address when there is no IPv4 address, and an
  empty answer is the error \<open>NotFound\<close>.
\<close>

theorem resolve_ip_choice:
  assumes "parse_ip hostname = None" "resolve hostname = Ok sas"
  shows "resolve_ip resolve hostname =
     (case filter (\<lambda>sa. is_ipv4 (sa_ip sa)) sas of
        sa # _ \<Rightarrow> Ok (sa_ip sa)
      | [] \<Rightarrow> if sas = [] then Err (io_new KNotFound ''no address found'') else Ok (sa_ip (last sas)))"
proof (cases "filter (\<lambda>sa. is_ipv4 (sa_ip sa)) sas")
  case Nil
  then have "list_all (\<lambda>x. \<not> is_ipv4 (sa_ip x)) sas" by (simp add: filter_empty_conv list_all_iff)
  with assms Nil show ?thesis by (simp add: resolve_ip_def scan_addrs_v6)
next
  case (Cons sa rest)
  then obtain pre post where "sas = pre @ sa # post" "list_all (\<lambda>x. \<not> is_ipv4 (sa_ip x)) pre" "is_ipv4 (sa_ip sa)"
    by (auto simp: filter_eq_Cons_iff list_all_iff)
  from scan_addrs_v4 [OF this] assms Cons show ?thesis by (simp add: resolve_ip_def)
qed

theorem resolve_ip_choice_witness:
  "resolve_ip (\<lambda>_. Ok [SocketAddrV6 (Ipv6Addr 0 0 0 0 0 0 0 1) 0 0, SocketAddrV4 (Ipv4Addr 1 2 3 4) 0]) ''db''
     = Ok (V4 (Ipv4Addr 1 2 3 4))"
proof -
  have "parse_ip ''db'' = None" by code_simp
  from resolve_ip_choice [OF this, of "\<lambda>_. Ok [SocketAddrV6 (Ipv6Addr 0 0 0 0 0 0 0 1) 0 0, SocketAddrV4 (Ipv4Addr 1 2 3 4) 0]"]
  show ?thesis by (simp add: is_ipv4_def)
qed

text \<open>
  C29: The status of kernel NAT mode is the status of the loaded rules: when \<open>nft\<close> lists the table of
  family \<open>ip\<close> with the rules that were loaded, whatever other items stand between them and whatever
  other fields they have, the dump has one line for each rule with an IPv4 destination, in order,
  with the rule's comment and exactly the numbers of its first counter, and the heartbeat reports
  their number and their sums. The entries of the table and the chains and the rules whose comment
  is not one of ours, as the masquerade rule, are not counted. Rules with an IPv6 destination are in
  another table and are not reported.
\<close>

theorem nat_status_of_rules:
  assumes "build_rules resolve cfg = Ok rules" "list_json (ho_nft h) w = (Some json, w')"
    and "from_str js json = Some root" "Option.bind (get js ''nftables'' root) (as_array js) = Some items"
    and "list_all2 (lists_stat js) (filter (\<lambda>i. \<not> foreign js i) items) stats"
    and "map cs_comment stats = map r_comment (filter (\<lambda>r. is_ipv4 (r_dest_ip r)) rules)"
  shows "dump_status h js w =
       ((''--- NAT status ('' @ show_nat (length stats) @ '' tunnels) ---'') # map status_line stats, w') \<and>
     nat_heartbeat h js w =
       (''heartbeat(nat): tunnels='' @ show_nat (length (filter (\<lambda>r. is_ipv4 (r_dest_ip r)) rules)) @
        '' packets='' @ show_u64 (sum_list (map cs_packets stats)) @
        '' bytes='' @ show_u64 (sum_list (map cs_bytes stats)), w')"
proof -
  have "prefix ''gust:'' (r_comment r)" if "r \<in> set rules" for r
    using try_map_in_set [OF assms(1) [unfolded build_rules_def] that]
    by (auto elim!: build_rule_Ok simp: rule_comment_def)
  then have "list_all (prefix ''gust:'') (map cs_comment stats)"
    unfolding assms(6) by (simp add: list_all_iff)
  then have "concat (map (item_counter js) items) = stats"
    by (intro items_counters [OF assms(5)]) (simp add: list_all_iff)
  then have "parse_counters js json = stats" by (simp add: parse_counters_def assms(3,4))
  moreover have "length stats = length (filter (\<lambda>r. is_ipv4 (r_dest_ip r)) rules)"
    using assms(6) by (metis length_map)
  ultimately show ?thesis by (simp add: dump_status_def nat_heartbeat_def nat_totals_def assms(2))
qed

definition listed_nft :: "unit nft" where
  "listed_nft args input w = (Exited True ''x'' [], w)"

definition sample_listing_host :: "unit host" where
  "sample_listing_host =
     \<lparr>ho_nft = listed_nft, ho_read = (\<lambda>_ _. Err eof_error), ho_write = (\<lambda>_ _ w. (Ok (), w)), ho_euid = 0,
      ho_resolve = (\<lambda>_. Ok [])\<rparr>"

definition sample_statements :: "jvalue list \<Rightarrow> jvalue list" where
  "sample_statements items =
     (case items ! 3 of
        JObject [(_, JObject kvs)] \<Rightarrow> (case map_of kvs ''expr'' of Some (JArray es) \<Rightarrow> es | _ \<Rightarrow> [])
      | _ \<Rightarrow> [])"

text \<open>The listing of the repository's own test, with all its fields.\<close>

theorem nat_status_of_rules_witness:
  "dump_status sample_listing_host (value_json (\<lambda>_. Some SAMPLE)) () =
     ([''--- NAT status (1 tunnels) ---'', ''gust:tcp:8080->1.2.3.4:443 packets=10 bytes=840''], ())"
proof -
  let ?js = "value_json (\<lambda>_. Some SAMPLE)"
  let ?st = "\<lparr>cs_comment = ''gust:tcp:8080->1.2.3.4:443'', cs_packets = 10, cs_bytes = 840\<rparr>"
  have l: "list_json (ho_nft sample_listing_host) () = (Some (from_utf8_lossy ''x''), ())"
    by (simp add: list_json_def run_nft_def sample_listing_host_def listed_nft_def)
  define items where "items = (case SAMPLE of JObject [(_, JArray vs)] \<Rightarrow> vs | _ \<Rightarrow> [])"
  have i: "Option.bind (get ?js ''nftables'' SAMPLE) (as_array ?js) = Some items"
    by (simp add: items_def SAMPLE_def value_json_def)
  have f: "filter (\<lambda>i. \<not> foreign ?js i) items = [items ! 3]"
    by (simp add: items_def SAMPLE_def value_json_def foreign_def)
  have "lists_stat ?js (items ! 3) ?st"
    unfolding lists_stat_def
    by (rule exI [of _ "the (get ?js ''rule'' (items ! 3))"], rule exI [of _ "take 1 (sample_statements items)"],
        rule exI [of _ "sample_statements items ! 1"], rule exI [of _ "drop 2 (sample_statements items)"],
        rule exI [of _ "the (get ?js ''counter'' (sample_statements items ! 1))"])
       (simp add: items_def SAMPLE_def value_json_def sample_statements_def)
  then have a: "list_all2 (lists_stat ?js) (filter (\<lambda>i. \<not> foreign ?js i) items) [?st]" unfolding f by simp
  have "from_str ?js (from_utf8_lossy ''x'') = Some SAMPLE" by (simp add: value_json_def)
  from nat_status_of_rules [OF sample_build_rules l this i a]
  have "dump_status sample_listing_host ?js () =
      ((''--- NAT status ('' @ show_nat (length [?st]) @ '' tunnels) ---'') # map status_line [?st], ())"
    by (simp add: sample_nat_rule_def is_ipv4_def)
  also have "\<dots> = ([''--- NAT status (1 tunnels) ---'', ''gust:tcp:8080->1.2.3.4:443 packets=10 bytes=840''], ())"
    by code_simp
  finally show ?thesis .
qed

section \<open>The capability check\<close>

lemma parse_digits_zeros: "parse_digits 16 m 0 (replicate k CHR ''0'' @ ds) = parse_digits 16 m 0 ds"
  by (induction k) (simp_all add: to_digit_def)

lemma parse_hex_padded:
  "parse_u64_hex (replicate k CHR ''0'' @ show_radix 16 (unat bits)) = Some bits"
proof -
  let ?s = "replicate k CHR ''0'' @ show_radix 16 (unat bits)"
  have "hd ?s \<noteq> CHR ''+''" "hd ?s \<noteq> CHR ''-''" using show_radix_hd_no_sign [of 16 "unat bits"] by (cases k; simp)+
  moreover have "parse_digits 16 (2 ^ 64 - 1) 0 ?s = Some (unat bits)"
    using parse_digits_show [of 16 "unat bits" "2 ^ 64 - 1"] unat_u64_le [of bits]
    by (simp only: parse_digits_zeros)
  ultimately have "parse_unsigned 16 (2 ^ 64 - 1) ?s = Some (unat bits)"
    unfolding parse_unsigned_def by auto
  then show ?thesis by (simp only: parse_u64_hex_def) simp
qed

lemma strip_front_tab: "strip_front white_space (CHR 0x09 # s) = strip_front white_space s"
proof -
  have "find (\<lambda>w. w \<noteq> [] \<and> prefix w (CHR 0x09 # s)) white_space = Some [CHR 0x09]"
    by (simp add: white_space_def)
  then show ?thesis by (subst strip_front.simps) simp
qed

lemma str_trim_tab: "\<lbrakk>s \<noteq> []; list_all graphic s\<rbrakk> \<Longrightarrow> str_trim (CHR 0x09 # s) = s"
  by (simp add: str_trim_def strip_front_tab strip_front_graphic strip_front_rev_graphic list_all_iff hd_rev)

lemma cap_eff_line:
  "str_trim (CHR 0x09 # replicate k CHR ''0'' @ show_radix 16 (unat bits)) =
     replicate k CHR ''0'' @ show_radix 16 (unat bits)"
proof (rule str_trim_tab)
  show "list_all graphic (replicate k CHR ''0'' @ show_radix 16 (unat bits))"
  proof -
    have "list_all graphic (replicate k CHR ''0'')" by (simp add: list_all_iff graphic_def)
    then show ?thesis using show_radix_all_graphic [of 16 "unat bits"] by simp
  qed
qed simp

lemma scan_cap_eff_found:
  fixes bits :: u64
  assumes "list_all (\<lambda>l. \<not> prefix ''CapEff:'' l) pre"
  shows "scan_cap_eff (pre @ (''CapEff:'' @ CHR 0x09 # replicate k CHR ''0'' @ show_radix 16 (unat bits)) # post)
     = bit bits CAP_NET_ADMIN"
  using assms
proof (induction pre)
  case Nil
  have "strip_prefix ''CapEff:'' (''CapEff:'' @ CHR 0x09 # replicate k CHR ''0'' @ show_radix 16 (unat bits)) =
      Some (CHR 0x09 # replicate k CHR ''0'' @ show_radix 16 (unat bits))"
    by (simp only: strip_prefix_Some_iff)
  then show ?case
    by (simp only: append_Nil scan_cap_eff.simps option.case cap_eff_line parse_hex_padded
        bit_iff_and_drop_bit_eq_1)
next
  case (Cons l pre)
  then have "strip_prefix ''CapEff:'' l = None" by (simp add: strip_prefix_def)
  with Cons show ?case by simp
qed

text \<open>
  A process that is not root may program the kernel exactly when bit 12, \<open>CAP_NET_ADMIN\<close>, of its
  effective capability mask is set, as the zero-padded hexadecimal mask of its status file gives it.
\<close>

theorem net_admin_bit:
  fixes bits :: u64
  assumes "ho_euid h \<noteq> 0" "ho_read h ''/proc/self/status'' w = Ok status"
    "str_lines status =
       pre @ (''CapEff:'' @ CHR 0x09 # replicate k CHR ''0'' @ show_radix 16 (unat bits)) # post"
    "list_all (\<lambda>l. \<not> prefix ''CapEff:'' l) pre"
  shows "has_net_admin h w = bit bits 12"
  using assms(1,2) scan_cap_eff_found [OF assms(4), of k bits post] assms(3)
  by (simp add: has_net_admin_def CAP_NET_ADMIN_def)

definition sample_status :: string where
  "sample_status =
     ''Name:'' @ [CHR 0x09] @ ''gust'' @ [CHR 0x0A] @ ''CapEff:'' @ [CHR 0x09] @ ''0000000000001000'' @ [CHR 0x0A]"

definition sample_user_host :: "(string set \<times> bool) host" where
  "sample_user_host = (model_host False False (\<lambda>_. Ok []))\<lparr>ho_euid := 1000, ho_read := (\<lambda>_ _. Ok sample_status)\<rparr>"

theorem net_admin_bit_witness: "has_net_admin sample_user_host ({}, False) = bit (0x1000 :: u64) 12"
proof (rule net_admin_bit)
  show "ho_euid sample_user_host \<noteq> 0" "ho_read sample_user_host ''/proc/self/status'' ({}, False) = Ok sample_status"
    by (simp_all add: sample_user_host_def)
  show "str_lines sample_status =
      [''Name:'' @ [CHR 0x09] @ ''gust''] @
      (''CapEff:'' @ CHR 0x09 # replicate 12 CHR ''0'' @ show_radix 16 (unat (0x1000 :: u64))) # []"
    by code_simp
qed simp

end
