(* ===== verification/Logging.thy ===== *)
theory Logging
  imports Rust_Text
begin

text \<open>
  \<open>src/logging.rs\<close>: the global logger. The filter language and the subscriber are library code: a
  filter is of an arbitrary type, \<open>from_env\<close> is what \<open>EnvFilter::try_from_default_env\<close> makes of
  \<open>RUST_LOG\<close> (nothing when the variable is unset or does not parse) and \<open>new_filter\<close> is \<open>EnvFilter::new\<close>.
\<close>

section \<open>Model\<close>

record 'f env_filter =
  from_env :: "'f option"
  new_filter :: "string \<Rightarrow> 'f"

text \<open>What \<open>init\<close> sets of the subscriber.\<close>

record 'f subscriber =
  sb_filter :: 'f
  sb_nonblocking_stdout :: bool
  sb_ansi :: bool
  sb_target :: bool

text \<open>
  \<open>init\<close> sets the subscriber of the process, which is set at most once: the second call panics
  (\<open>None\<close>).
\<close>

definition logging_init :: "'f env_filter \<Rightarrow> bool \<Rightarrow> 'f subscriber option \<Rightarrow> 'f subscriber option" where
  "logging_init env debug global =
     (let default_level = (if debug then ''debug'' else ''info'');
          filter_of = (case from_env env of Some f \<Rightarrow> f | None \<Rightarrow> new_filter env default_level)
      in case global of
           Some _ \<Rightarrow> None
         | None \<Rightarrow>
             Some \<lparr>sb_filter = filter_of, sb_nonblocking_stdout = True, sb_ansi = False, sb_target = False\<rparr>)"

section \<open>The level\<close>

text \<open>The first initialisation succeeds, \<open>RUST_LOG\<close> wins over \<open>-D\<close>, and no record carries colour codes.\<close>

lemma logging_init_first:
  "\<exists>sub. logging_init env debug None = Some sub \<and> sb_nonblocking_stdout sub \<and> \<not> sb_ansi sub \<and>
     sb_filter sub = (case from_env env of Some f \<Rightarrow> f | None \<Rightarrow> new_filter env (if debug then ''debug'' else ''info''))"
  by (simp add: logging_init_def)

lemma logging_init_once: "logging_init env debug (Some sub) = None"
  by (simp add: logging_init_def)

end
