(* ===== verification/App.thy ===== *)
theory App
  imports Cli Config Supervisor Tcp Udp Nat_Linux Logging
begin

text \<open>
  \<open>src/app.rs\<close> and \<open>src/main.rs\<close>: from the command line to the running program and its exit code.
  Building the asynchronous runtime and what happens on the host until the shutdown are parameters.
  Whether the standard streams can be written is a parameter, too. What is printed is part of the
  outcome; of the log only the heartbeat lines are, and log records are taken to be writable.
\<close>

section \<open>Model\<close>

definition build_context :: "config \<Rightarrow> run_context" where
  "build_context cfg =
     \<lparr>ctx_buf_size = c_buf_size cfg,
      ctx_dialer = dialer_new (c_chain cfg) (c_mark cfg) (c_sock cfg),
      ctx_mark = c_mark cfg,
      ctx_sock = c_sock cfg\<rparr>"

text \<open>The serve loop that \<open>spawn_listener\<close> hands to the supervisor.\<close>

datatype served = ServeTcp listener_spec | ServeUdp listener_spec

definition spawn_listener :: "listener_spec \<Rightarrow> listener_stats \<Rightarrow> millis \<Rightarrow> served \<times> supervisor" where
  "spawn_listener spec stats now =
     (case l_proto spec of
        Tcp \<Rightarrow> (ServeTcp spec, supervise_start stats now)
      | Udp \<Rightarrow> (ServeUdp spec, supervise_start stats now))"

text \<open>The loop of \<open>run_userspace\<close>: the registry and the supervised tasks.\<close>

fun launch :: "listener_spec list \<Rightarrow> millis \<Rightarrow> registry \<times> (served \<times> supervisor) list" where
  "launch [] now = ([], [])"
| "launch (spec # specs) now =
     (let stats = stats_new (l_name spec) (proto_as_str (l_proto spec));
          (reg, handles) = launch specs now
      in (stats # reg, spawn_listener spec stats now # handles))"

text \<open>
  The heartbeat task, over what its waits end with: the shutdown, or a full interval after which
  the flag is read and the counters of that moment are printed.
\<close>

datatype beat = BeatCancelled | BeatSlept bool registry

fun heartbeat_task :: "beat list \<Rightarrow> string list" where
  "heartbeat_task [] = []"
| "heartbeat_task (BeatCancelled # bs) = []"
| "heartbeat_task (BeatSlept triggered reg # bs) =
     (if triggered then [] else heartbeat_line reg # heartbeat_task bs)"

definition run_userspace :: "config \<Rightarrow> millis \<Rightarrow> run_context \<times> registry \<times> (served \<times> supervisor) list \<times> nat" where
  "run_userspace cfg now =
     (case launch (c_listeners cfg) now of (reg, handles) \<Rightarrow> (build_context cfg, reg, handles, 0))"

text \<open>
  \<open>run\<close>: the logger it installs, the exit code and the host after the run. It is the first to set the
  logger of the process; \<open>None\<close> is the panic of a second initialisation.
\<close>

definition app_run ::
  "'f env_filter \<Rightarrow> 'w host \<Rightarrow> ('w \<Rightarrow> 'w) \<Rightarrow> config \<Rightarrow> 'w \<Rightarrow> ('f subscriber \<times> nat \<times> 'w) option" where
  "app_run env h during cfg w =
     (case logging_init env (c_debug cfg) None of
        None \<Rightarrow> None
      | Some logger \<Rightarrow>
          Some (logger,
            case c_mode cfg of
              Userspace \<Rightarrow> (snd (snd (snd (run_userspace cfg 0))), during w)
            | NatMode \<Rightarrow> (case nat_run h cfg during w of (r, w') \<Rightarrow> (nat_code r, w'))))"

record rt_settings =
  rt_workers :: u64
  rt_blocking :: u64

definition runtime_settings :: "config \<Rightarrow> rt_settings option" where
  "runtime_settings cfg =
     map_option (\<lambda>n. \<lparr>rt_workers = n, rt_blocking = max (n * 2) 2\<rparr>) (c_worker_threads cfg)"

text \<open>
  \<open>main\<close>: \<open>argv\<close> is the whole argument vector. \<open>std::env::args\<close> panics on an argument that is not
  UTF-8, and a failing print panics; \<open>build_rt\<close> says whether the runtime is built, returns an error
  or panics (as it does when a worker thread cannot be started).
\<close>

datatype rt_build = RtBuilt | RtError io_error | RtPanic

definition main ::
  "printer \<Rightarrow> 'f env_filter \<Rightarrow> 'w host \<Rightarrow> (rt_settings option \<Rightarrow> rt_build) \<Rightarrow> ('w \<Rightarrow> 'w) \<Rightarrow> string list \<Rightarrow> 'w \<Rightarrow>
     program_end \<times> 'w" where
  "main pr env h build_rt during argv w =
     (if \<not> list_all valid_utf8 argv then (Panicked, w)
      else
        (case parse_args (drop 1 argv) of
           Inr Help \<Rightarrow> (exit_printing pr help_text, w)
         | Inr Version \<Rightarrow> (exit_printing pr (line (''gust '' @ CARGO_PKG_VERSION)), w)
         | Inl e \<Rightarrow> (exit_failing pr 2 [''gust: '' @ cli_error_text e, ''try '' @ quoted ''gust --help''], w)
         | Inr (Run raw) \<Rightarrow>
             if r_nat_cleanup raw then (case cleanup_main pr (ho_nft h) w of (r, _, w') \<Rightarrow> (r, w'))
             else
               (case build_config raw of
                  Inl e \<Rightarrow> (exit_failing pr 2 [''gust: '' @ config_error_text e], w)
                | Inr cfg \<Rightarrow>
                    (case build_rt (runtime_settings cfg) of
                       RtPanic \<Rightarrow> (Panicked, w)
                     | RtError e \<Rightarrow> (exit_failing pr 1 [''gust: failed to start runtime: '' @ io_msg e], w)
                     | RtBuilt \<Rightarrow>
                         (case app_run env h during cfg w of
                            None \<Rightarrow> (Panicked, w)
                          | Some (logger, code, w') \<Rightarrow> (exit_quiet code, w'))))))"

section \<open>Launching\<close>

lemma launch_eq:
  "launch specs now =
     (map (\<lambda>l. stats_new (l_name l) (proto_as_str (l_proto l))) specs,
      map (\<lambda>l. spawn_listener l (stats_new (l_name l) (proto_as_str (l_proto l))) now) specs)"
  by (induction specs) (simp_all add: Let_def)

lemma heartbeat_prefix:
  "heartbeat_task bs = map (\<lambda>b. case b of BeatSlept _ reg \<Rightarrow> heartbeat_line reg | BeatCancelled \<Rightarrow> [])
     (takeWhile (\<lambda>b. case b of BeatSlept t _ \<Rightarrow> \<not> t | BeatCancelled \<Rightarrow> False) bs)"
  by (induction bs rule: heartbeat_task.induct) simp_all

text \<open>
  Every listener of the configuration is launched exactly once, in order, under its own
  supervisor, with the serve loop of its protocol and fresh counters under its own name, and all of
  them share the dialer, the mark and the socket options of the configuration.
\<close>

lemma launch_every_listener:
  "run_userspace cfg now =
     (\<lparr>ctx_buf_size = c_buf_size cfg,
       ctx_dialer = \<lparr>d_chain = c_chain cfg, d_mark = c_mark cfg, d_sock = c_sock cfg\<rparr>,
       ctx_mark = c_mark cfg, ctx_sock = c_sock cfg\<rparr>,
      map (\<lambda>l. stats_new (l_name l) (proto_as_str (l_proto l))) (c_listeners cfg),
      map (\<lambda>l. ((case l_proto l of Tcp \<Rightarrow> ServeTcp l | Udp \<Rightarrow> ServeUdp l),
                supervise_start (stats_new (l_name l) (proto_as_str (l_proto l))) now)) (c_listeners cfg),
      0)"
  by (simp add: run_userspace_def launch_eq build_context_def dialer_new_def spawn_listener_def
      split: protocol.split)

section \<open>Exit codes\<close>

text \<open>Why the rules of an accepted configuration cannot be built.\<close>

definition unusable :: "(string \<Rightarrow> (io_error, socket_addr list) result) \<Rightarrow> listener_spec \<Rightarrow> bool" where
  "unusable resolve l \<longleftrightarrow>
     1 < length (l_targets l) \<or>
     (\<exists>target hostname port e. l_targets l = [target] \<and> split_host_port target = Ok (hostname, port) \<and>
        resolve_ip resolve hostname = Err e)"

lemma build_rules_Err:
  assumes "build_rules resolve cfg = Inl e" "build_config raw = Inr cfg"
  shows "\<exists>l \<in> set (c_listeners cfg). unusable resolve l"
proof -
  obtain l where l: "l \<in> set (c_listeners cfg)" "build_rule resolve l = Inl e"
    using try_map_Inl [OF assms(1) [unfolded build_rules_def]] by blast
  have w: "l_targets l \<noteq> []" "list_all splittable (l_targets l)"
    using build_config_wf [OF assms(2)] l(1) unfolding wf_config_def wf_listener_def by (simp_all add: list_all_iff)
  show ?thesis
  proof (cases "length (l_targets l) = 1")
    case False
    then have "1 < length (l_targets l)" using w(1) by (cases "l_targets l") auto
    with l(1) show ?thesis by (auto simp: unusable_def)
  next
    case True
    then obtain target where t: "l_targets l = [target]" by (auto simp: length_Suc_conv)
    with w(2) obtain hostname port where "split_host_port target = Inr (hostname, port)"
      by (auto simp: splittable_def isl_def split: sum.splits) (metis sum.exhaust surj_pair)
    with l t show ?thesis
      by (auto simp: unusable_def build_rule_def result_iffs intro!: bexI [of _ l])
  qed
qed

lemma nat_run_code:
  assumes "nat_run h cfg during w = (r, w')"
  shows "nat_code r \<le> 2" "nat_code r = 2 \<Longrightarrow> \<exists>e. build_rules (ho_resolve h) cfg = Inl e"
proof -
  show "nat_code r \<le> 2" by (simp add: nat_code_def refusal_code_def split: nat_end.split nat_refusal.split)
  assume "nat_code r = 2"
  then obtain e where "r = Refused (BadRules e)"
    by (auto simp: nat_code_def refusal_code_def split: nat_end.splits nat_refusal.splits)
  then have "nat_startup h cfg w = (Inl (BadRules e), w')"
    using assms by (auto simp: nat_run_def split: prod.splits sum.splits)
  then show "\<exists>e. build_rules (ho_resolve h) cfg = Inl e" by (intro exI, rule nat_startup_rules)
qed

text \<open>The logger is always installed, at the level of \<open>RUST_LOG\<close> or else of the \<open>-D\<close> flag.\<close>

lemma app_run_logger:
  "\<exists>logger r. app_run env h during cfg w = Some (logger, r) \<and>
     sb_filter logger =
       (case from_env env of Some f \<Rightarrow> f | None \<Rightarrow> new_filter env (if c_debug cfg then ''debug'' else ''info''))"
  using logging_init_first [of env "c_debug cfg"] by (auto simp: app_run_def)

lemma app_run_code:
  assumes "app_run env h during cfg w = Some (logger, code, w')"
  shows "code \<le> 2" "code = 2 \<Longrightarrow> c_mode cfg = NatMode \<and> (\<exists>e. build_rules (ho_resolve h) cfg = Inl e)"
proof -
  obtain r v where r: "nat_run h cfg during w = (r, v)" by fastforce
  have "code \<le> 2 \<and> (code = 2 \<longrightarrow> c_mode cfg = NatMode \<and> (\<exists>e. build_rules (ho_resolve h) cfg = Inl e))"
  proof (cases "c_mode cfg")
    case Userspace
    with assms show ?thesis by (auto simp: app_run_def run_userspace_def split_def split: option.splits)
  next
    case NatMode
    with assms nat_run_code [OF r] show ?thesis by (auto simp: app_run_def r split: option.splits)
  qed
  then show "code \<le> 2" "code = 2 \<Longrightarrow> c_mode cfg = NatMode \<and> (\<exists>e. build_rules (ho_resolve h) cfg = Inl e)"
    by simp_all
qed

text \<open>Where an accepted configuration leads.\<close>

lemma main_accepted:
  assumes "list_all valid_utf8 argv" "parse_args (drop 1 argv) = Inr (Run raw)" "\<not> r_nat_cleanup raw"
    "build_config raw = Inr cfg" "main pr env h build_rt during argv w = (r, w')"
  shows "case r of
     Panicked \<Rightarrow> (\<exists>t. \<not> err_ok pr t) \<or> build_rt (runtime_settings cfg) = RtPanic
   | Done rep \<Rightarrow> ex_code rep \<le> 2 \<and>
       (ex_code rep = 2 \<longrightarrow> c_mode cfg = NatMode \<and> (\<exists>l \<in> set (c_listeners cfg). unusable (ho_resolve h) l))"
proof (cases "build_rt (runtime_settings cfg)")
  case RtBuilt
  obtain logger code v where a: "app_run env h during cfg w = Some (logger, code, v)"
    using app_run_logger [of env h during cfg w] by force
  with assms RtBuilt app_run_code [OF a] build_rules_Err [OF _ assms(4)] show ?thesis
    by (auto simp: main_def exit_defs)
qed (use assms in \<open>auto simp: main_def exit_defs split: if_splits\<close>)

text \<open>
  C32: What the exit code says. The program ends with code 0, 1 or 2, or it panics. A command line that
  does not scan and a configuration that is rejected always give code 2, unless printing the message
  fails: nothing is printed to the standard output, the standard error is \<open>gust:\<close> and the message, in
  well-formed UTF-8, and nothing on the host is changed. The only other way to code 2 is kernel NAT
  mode, with an accepted configuration of which a listener has several destinations or a destination
  that does not resolve, be the resolver to blame or the name. A panic comes from an argument that is
  not UTF-8, from a standard stream that cannot be written or from the runtime's builder.
\<close>

theorem main_exit_codes:
  assumes "main pr env h build_rt during argv w = (r, w')"
  shows "case r of
     Panicked \<Rightarrow>
       (\<exists>a \<in> set argv. \<not> valid_utf8 a) \<or> (\<exists>t. \<not> out_ok pr t) \<or> (\<exists>t. \<not> err_ok pr t) \<or>
       (\<exists>raw cfg. parse_args (drop 1 argv) = Ok (Run raw) \<and> build_config raw = Ok cfg \<and>
          build_rt (runtime_settings cfg) = RtPanic)
   | Done rep \<Rightarrow>
       ex_code rep \<le> 2 \<and>
       (\<forall>e. parse_args (drop 1 argv) = Err e \<longrightarrow>
          w' = w \<and> rep = \<lparr>ex_code = 2, ex_stdout = [],
            ex_stderr = line (''gust: '' @ cli_error_text e) @ line (''try '' @ quoted ''gust --help'')\<rparr> \<and>
          valid_utf8 (ex_stderr rep)) \<and>
       (\<forall>raw e. parse_args (drop 1 argv) = Ok (Run raw) \<and> \<not> r_nat_cleanup raw \<and> build_config raw = Err e \<longrightarrow>
          w' = w \<and> rep = \<lparr>ex_code = 2, ex_stdout = [], ex_stderr = line (''gust: '' @ config_error_text e)\<rparr> \<and>
          valid_utf8 (ex_stderr rep)) \<and>
       (ex_code rep = 2 \<longrightarrow>
          (\<exists>e. parse_args (drop 1 argv) = Err e) \<or>
          (\<exists>raw. parse_args (drop 1 argv) = Ok (Run raw) \<and>
             ((\<exists>e. build_config raw = Err e) \<or>
              (\<exists>cfg. build_config raw = Ok cfg \<and> c_mode cfg = NatMode \<and>
                 (\<exists>l \<in> set (c_listeners cfg). unusable (ho_resolve h) l)))))"
proof (cases "list_all valid_utf8 argv")
  case False
  with assms show ?thesis by (auto simp: main_def list_all_iff)
next
  case valid: True
  then have args: "list_all valid_utf8 (drop 1 argv)" by (auto simp: list_all_iff dest: in_set_dropD)
  show ?thesis
  proof (cases "parse_args (drop 1 argv)")
    case (Inl e)
    with valid assms parse_args_valid(2) [OF args Inl] show ?thesis
      by (auto simp: main_def exit_defs line_def utf8_simps split: if_splits)
  next
    case (Inr out)
    show ?thesis
    proof (cases out)
      case (Run raw)
      note scanned = Inr [unfolded Run]
      show ?thesis
      proof (cases "r_nat_cleanup raw")
        case True
        with valid scanned assms show ?thesis
          by (auto simp: main_def cleanup_main_def exit_defs split: prod.splits sum.splits if_splits)
      next
        case run: False
        show ?thesis
        proof (cases "build_config raw")
          case e: (Inl e)
          with valid run scanned assms build_config_error_utf8 [OF parse_args_valid(1) [OF args scanned] e]
          show ?thesis by (auto simp: main_def exit_defs line_def utf8_simps split: if_splits)
        next
          case c: (Inr cfg)
          show ?thesis using main_accepted [OF valid scanned run c assms] scanned c
            by (auto split: program_end.splits)
        qed
      qed
    qed (use valid Inr assms in \<open>auto simp: main_def exit_defs split: if_splits\<close>)
  qed
qed

definition sample_filters :: "string env_filter" where
  "sample_filters = \<lparr>from_env = None, new_filter = id\<rparr>"

theorem main_exit_codes_witness:
  "main working_printer sample_filters (model_host False False (\<lambda>_. Ok [])) (\<lambda>_. RtBuilt) id
      [''gust'', ''-L=tcp://:80''] ({}, False) =
     (Done \<lparr>ex_code = 2, ex_stdout = [],
        ex_stderr = line (''gust: -L '' @ quoted ''tcp://:80'' @
          '': forwarding requires a destination, e.g. tcp://:80/HOST:PORT'')\<rparr>, ({}, False))"
proof -
  let ?argv = "[''gust'', ''-L=tcp://:80'']"
  let ?main = "main working_printer sample_filters (model_host False False (\<lambda>_. Ok [])) (\<lambda>_. RtBuilt) id ?argv ({}, False)"
  obtain r w' where m: "?main = (r, w')" by (rule prod.exhaust)
  define raw where "raw = raw_default\<lparr>r_listens := [''tcp://:80'']\<rparr>"
  define e where "e = projl (build_config raw)"
  have p: "parse_args (drop 1 ?argv) = Ok (Run raw)" unfolding raw_def by code_simp
  have c: "\<not> r_nat_cleanup raw" "isl (build_config raw)" unfolding raw_def by code_simp+
  then have b: "build_config raw = Err e" unfolding e_def by simp
  have t: "''gust: '' @ config_error_text e = ''gust: -L '' @ quoted ''tcp://:80'' @
      '': forwarding requires a destination, e.g. tcp://:80/HOST:PORT''"
    unfolding e_def raw_def by code_simp
  have "case fst ?main of Panicked \<Rightarrow> False | Done rep \<Rightarrow> True" by code_simp
  then obtain rep where r: "r = Done rep" using m by (cases r) auto
  have "w' = ({}, False) \<and> rep = \<lparr>ex_code = 2, ex_stdout = [], ex_stderr = line (''gust: '' @ config_error_text e)\<rparr>"
    using main_exit_codes [OF m] p c(1) b unfolding r by simp
  then show ?thesis using m unfolding r t by simp
qed

end
