(* ===== verification/Lifecycle.thy ===== *)
theory Lifecycle
  imports App Shutdown
begin

text \<open>
  \<open>run_userspace\<close> of \<open>src/app.rs\<close> from the first listener to the exit code, as one transition system:
  the main task (launching, waiting for the shutdown, the drain of at most five seconds), the
  shutdown task of \<open>src/signals.rs\<close>, the heartbeat task and the supervisors, interleaved at every
  point where another task can run. The shutdown flag is the value of the watch channel; a trigger
  takes effect only while some task holds a receiver, which \<open>subscribed\<close> says: the main task, the
  heartbeat task and every supervisor (with its serve task) while they wait in \<open>cancelled\<close>.
  Registering the two signal handlers is taken to succeed.
\<close>

section \<open>Model\<close>

definition DRAIN_TIMEOUT :: millis where "DRAIN_TIMEOUT = 5000"

text \<open>
  The main task: the listeners still to be launched; after \<open>install\<close> and \<open>spawn_heartbeat\<close>; in
  \<open>cancelled\<close>; waiting for the handles since a moment, with a number of them joined; returned with
  \<open>ExitCode::SUCCESS\<close>. A signal that arrives before its handler is registered kills the process.
\<close>

datatype main_phase =
    Launching "listener_spec list"
  | Wired
  | Waiting
  | Draining millis nat
  | Ended millis nat
  | Killed

text \<open>The shutdown task; after its one trigger further signals are caught by nobody.\<close>

datatype sig_phase = NotInstalled | Installing | Armed | Received | Spent

datatype beat_phase = NoBeat | BeatTop | BeatWaiting millis | BeatOver

record app =
  a_main :: main_phase
  a_flag :: bool
  a_sig :: sig_phase
  a_sups :: "supervisor list"
  a_beat :: beat_phase
  a_now :: millis

definition app_start :: "config \<Rightarrow> millis \<Rightarrow> app" where
  "app_start cfg now =
     \<lparr>a_main = Launching (c_listeners cfg), a_flag = False, a_sig = NotInstalled, a_sups = [],
      a_beat = NoBeat, a_now = now\<rparr>"

definition app_running :: "app \<Rightarrow> bool" where
  "app_running a = (case a_main a of Ended _ _ \<Rightarrow> False | Killed \<Rightarrow> False | _ \<Rightarrow> True)"

definition sup_waits :: "supervisor \<Rightarrow> bool" where
  "sup_waits s = (case sup_phase s of Serving _ \<Rightarrow> True | Sleeping _ \<Rightarrow> True | _ \<Rightarrow> False)"

text \<open>The receivers of the channel.\<close>

definition subscribers :: "app \<Rightarrow> nat" where
  "subscribers a =
     (if a_main a = Waiting then 1 else 0) +
     (case a_beat a of BeatWaiting _ \<Rightarrow> 1 | _ \<Rightarrow> 0) +
     length (filter sup_waits (a_sups a))"

definition subscribed :: "app \<Rightarrow> bool" where
  "subscribed a \<longleftrightarrow> 0 < subscribers a"

text \<open>The supervised listener that one round of the launch loop adds.\<close>

definition launch_one :: "listener_spec \<Rightarrow> app \<Rightarrow> app" where
  "launch_one spec a =
     a\<lparr>a_sups := a_sups a @
        [snd (spawn_listener spec (stats_new (l_name spec) (proto_as_str (l_proto spec))) (a_now a))]\<rparr>"

text \<open>\<open>shutdown.cancelled().await\<close> of the main task when it is polled, and its first poll.\<close>

definition main_poll :: "app \<Rightarrow> app" where
  "main_poll a = (if a_flag a then a\<lparr>a_main := Draining (a_now a) 0\<rparr> else a\<lparr>a_main := Waiting\<rparr>)"

text \<open>\<open>sd.trigger()\<close>.\<close>

definition app_trigger :: "app \<Rightarrow> app" where
  "app_trigger a =
     (if subscribed a
      then a\<lparr>a_sig := Spent, a_flag := True, a_sups := map (\<lambda>s. s\<lparr>sup_down := True\<rparr>) (a_sups a)\<rparr>
      else a\<lparr>a_sig := Spent\<rparr>)"

text \<open>The heartbeat task at the top of its loop and when its sleep is over.\<close>

definition beat_poll :: "app \<Rightarrow> app" where
  "beat_poll a = (if a_flag a then a\<lparr>a_beat := BeatOver\<rparr> else a\<lparr>a_beat := BeatWaiting (a_now a)\<rparr>)"

definition beat_slept :: "app \<Rightarrow> app" where
  "beat_slept a = (if a_flag a then a\<lparr>a_beat := BeatOver\<rparr> else a\<lparr>a_beat := BeatTop\<rparr>)"

definition app_elapse :: "millis \<Rightarrow> app \<Rightarrow> app" where
  "app_elapse d a =
     a\<lparr>a_now := a_now a + d, a_sups := map (\<lambda>s. s\<lparr>sup_now := sup_now s + d\<rparr>) (a_sups a)\<rparr>"

inductive app_step :: "config \<Rightarrow> app \<Rightarrow> app \<Rightarrow> bool" for cfg where
  launch: "a_main a = Launching (spec # todo) \<Longrightarrow> app_step cfg a ((launch_one spec a)\<lparr>a_main := Launching todo\<rparr>)"
| wire: "a_main a = Launching [] \<Longrightarrow> app_step cfg a (a\<lparr>a_main := Wired, a_sig := Installing, a_beat := BeatTop\<rparr>)"
| wait: "a_main a = Wired \<Longrightarrow> app_step cfg a (main_poll a)"
| main_wake: "\<lbrakk>a_main a = Waiting; a_flag a\<rbrakk> \<Longrightarrow> app_step cfg a (main_poll a)"
| join: "\<lbrakk>a_main a = Draining t k; k < length (a_sups a); sup_phase (a_sups a ! k) = Returned\<rbrakk> \<Longrightarrow>
    app_step cfg a (a\<lparr>a_main := Draining t (Suc k)\<rparr>)"
| drained: "\<lbrakk>a_main a = Draining t k; k = length (a_sups a)\<rbrakk> \<Longrightarrow> app_step cfg a (a\<lparr>a_main := Ended t k\<rparr>)"
| drain_timeout: "\<lbrakk>a_main a = Draining t k; t + DRAIN_TIMEOUT \<le> a_now a\<rbrakk> \<Longrightarrow>
    app_step cfg a (a\<lparr>a_main := Ended t k\<rparr>)"
| register: "\<lbrakk>app_running a; a_sig a = Installing\<rbrakk> \<Longrightarrow> app_step cfg a (a\<lparr>a_sig := Armed\<rparr>)"
| default_action: "\<lbrakk>app_running a; a_sig a = NotInstalled \<or> a_sig a = Installing\<rbrakk> \<Longrightarrow> app_step cfg a (a\<lparr>a_main := Killed\<rparr>)"
| deliver: "\<lbrakk>app_running a; a_sig a = Armed\<rbrakk> \<Longrightarrow> app_step cfg a (a\<lparr>a_sig := Received\<rparr>)"
| trigger: "\<lbrakk>app_running a; a_sig a = Received\<rbrakk> \<Longrightarrow> app_step cfg a (app_trigger a)"
| ignored: "\<lbrakk>app_running a; a_sig a = Received \<or> a_sig a = Spent\<rbrakk> \<Longrightarrow> app_step cfg a a"
| beat_first: "\<lbrakk>app_running a; a_beat a = BeatTop\<rbrakk> \<Longrightarrow> app_step cfg a (beat_poll a)"
| beat_cancelled: "\<lbrakk>app_running a; a_beat a = BeatWaiting t; a_flag a\<rbrakk> \<Longrightarrow> app_step cfg a (beat_poll a)"
| beat_sleep_over: "\<lbrakk>app_running a; a_beat a = BeatWaiting t; t + c_heartbeat cfg \<le> a_now a\<rbrakk> \<Longrightarrow>
    app_step cfg a (beat_slept a)"
| supervisor: "\<lbrakk>app_running a; i < length (a_sups a); sup_own (a_sups a ! i) s\<rbrakk> \<Longrightarrow>
    app_step cfg a (a\<lparr>a_sups := (a_sups a)[i := s]\<rparr>)"
| elapse: "app_running a \<Longrightarrow> app_step cfg a (app_elapse d a)"

inductive_cases app_stepE: "app_step cfg a b"

lemmas app_step_defs = launch_one_def main_poll_def app_trigger_def beat_poll_def beat_slept_def app_elapse_def

section \<open>The channel\<close>

text \<open>
  \<open>app_trigger\<close> is the trigger of the shutdown signal on any watch channel that has as many receivers
  as there are tasks in \<open>cancelled\<close>.
\<close>

lemma app_trigger_channel:
  assumes "watch_channel w receivers" "receivers c = subscribers a" "borrow w c = a_flag a"
  shows "borrow w (Shutdown.trigger w c) = a_flag (app_trigger a)"
  using assms watch_channel.trigger_closed [OF assms(1), of c] watch_channel.trigger_reaches [OF assms(1), of c]
  by (auto simp: app_trigger_def subscribed_def is_triggered_def)

section \<open>Invariants\<close>

definition fresh_stats :: "listener_spec \<Rightarrow> listener_stats" where
  "fresh_stats l = stats_new (l_name l) (proto_as_str (l_proto l))"

text \<open>Every supervisor is in a state it can reach on its own, at the common clock and flag.\<close>

definition sup_run :: "listener_spec \<Rightarrow> supervisor \<Rightarrow> bool" where
  "sup_run l s \<longleftrightarrow> (\<exists>t. supervise\<^sup>*\<^sup>* (supervise_start (fresh_stats l) t) s)"

definition sups_inv :: "config \<Rightarrow> app \<Rightarrow> bool" where
  "sups_inv cfg a \<longleftrightarrow>
     (\<forall>s \<in> set (a_sups a). sup_down s = a_flag a \<and> sup_now s = a_now a) \<and>
     list_all2 sup_run (take (length (a_sups a)) (c_listeners cfg)) (a_sups a) \<and>
     (case a_main a of
        Launching todo \<Rightarrow> todo = drop (length (a_sups a)) (c_listeners cfg)
      | Killed \<Rightarrow> True
      | _ \<Rightarrow> length (a_sups a) = length (c_listeners cfg))"

definition flag_inv :: "app \<Rightarrow> bool" where
  "flag_inv a \<longleftrightarrow>
     (a_flag a \<longrightarrow> a_sig a = Spent) \<and>
     (case a_main a of
        Launching _ \<Rightarrow> a_sig a = NotInstalled \<and> a_beat a = NoBeat \<and> \<not> a_flag a
      | Draining t k \<Rightarrow> a_flag a \<and> t \<le> a_now a
      | Ended t k \<Rightarrow> a_flag a \<and> t \<le> a_now a
      | _ \<Rightarrow> True)"

definition joined_inv :: "app \<Rightarrow> bool" where
  "joined_inv a \<longleftrightarrow>
     (case a_main a of
        Draining t k \<Rightarrow> k \<le> length (a_sups a) \<and> (\<forall>i < k. sup_phase (a_sups a ! i) = Returned)
      | Ended t k \<Rightarrow> k \<le> length (a_sups a) \<and> (\<forall>i < k. sup_phase (a_sups a ! i) = Returned) \<and>
          (k = length (a_sups a) \<or> t + DRAIN_TIMEOUT \<le> a_now a)
      | _ \<Rightarrow> True)"

lemma sup_run_step: "\<lbrakk>sup_run l s; supervise s t\<rbrakk> \<Longrightarrow> sup_run l t"
  unfolding sup_run_def by (meson rtranclp.rtrancl_into_rtrancl)

lemma sup_run_start: "sup_run l (snd (spawn_listener l (stats_new (l_name l) (proto_as_str (l_proto l))) t))"
  by (auto simp: sup_run_def fresh_stats_def spawn_listener_def split: protocol.split)

lemma sup_run_map:
  assumes "list_all2 sup_run ls ss" "\<And>s. supervise s (f s)"
  shows "list_all2 sup_run ls (map f ss)"
  unfolding list_all2_map2 by (rule list_all2_mono [OF assms(1)]) (rule sup_run_step [OF _ assms(2)])

lemma returned_stays: "\<lbrakk>supervise s t; sup_phase s = Returned\<rbrakk> \<Longrightarrow> sup_phase t = Returned"
  by (cases rule: supervise.cases) auto

interpretation flags: machine "\<lambda>a. \<exists>now. a = app_start cfg now" "app_step cfg" flag_inv for cfg
proof unfold_locales
  show "flag_inv b" if inv: "flag_inv a" and "app_step cfg a b" for a b
    using that(2)
    by cases (use inv in \<open>auto simp: flag_inv_def app_running_def app_step_defs split: main_phase.splits if_splits\<close>)
qed (auto simp: app_start_def flag_inv_def)

lemma take_Suc_launch:
  "drop n ls = spec # todo \<Longrightarrow> n < length ls \<and> take (Suc n) ls = take n ls @ [spec] \<and> drop (Suc n) ls = todo"
  by (metis Cons_nth_drop_Suc drop_eq_Nil linorder_not_less list.distinct(1) list.inject take_Suc_conv_app_nth)

lemma sups_inv_launch:
  assumes "sups_inv cfg a" "flag_inv a" "a_main a = Launching (spec # todo)"
  shows "sups_inv cfg ((launch_one spec a)\<lparr>a_main := Launching todo\<rparr>)"
proof -
  let ?s = "snd (spawn_listener spec (stats_new (l_name spec) (proto_as_str (l_proto spec))) (a_now a))"
  have "drop (length (a_sups a)) (c_listeners cfg) = spec # todo" using assms(1,3) by (simp add: sups_inv_def)
  note l = take_Suc_launch [OF this]
  have "sup_down ?s = a_flag a \<and> sup_now ?s = a_now a"
    using assms(2,3) by (simp add: flag_inv_def spawn_listener_def supervise_start_def split: protocol.split)
  moreover have "list_all2 sup_run (take (length (a_sups a)) (c_listeners cfg) @ [spec]) (a_sups a @ [?s])"
    using assms(1) sup_run_start by (intro list_all2_appendI) (simp_all add: sups_inv_def)
  ultimately show ?thesis using l assms(1) by (auto simp: sups_inv_def launch_one_def)
qed

lemma sups_inv_map:
  assumes "sups_inv cfg a" "\<And>s. supervise s (f s)"
    "\<And>s. s \<in> set (a_sups a) \<Longrightarrow> sup_down (f s) = a_flag b \<and> sup_now (f s) = a_now b"
    "a_main b = a_main a" "a_sups b = map f (a_sups a)"
  shows "sups_inv cfg b"
  using assms(1) sup_run_map [of _ "a_sups a" f, OF _ assms(2)] assms(3-5)
  by (cases "a_main a") (auto simp: sups_inv_def)

lemma sups_inv_update:
  assumes "sups_inv cfg a" "i < length (a_sups a)" "sup_own (a_sups a ! i) s"
  shows "sups_inv cfg (a\<lparr>a_sups := (a_sups a)[i := s]\<rparr>)"
proof -
  have f: "sup_down s = a_flag a" "sup_now s = a_now a"
    using sup_own_frame [OF assms(3)] assms(1) nth_mem [OF assms(2)] unfolding sups_inv_def by metis+
  let ?ls = "take (length (a_sups a)) (c_listeners cfg)"
  have r: "list_all2 sup_run ?ls (a_sups a)" using assms(1) by (simp add: sups_inv_def)
  then have "sup_run (?ls ! i) s"
    using assms(2) sup_own_supervise [OF assms(3)] sup_run_step list_all2_nthD2 by blast
  then have "list_all2 sup_run (?ls[i := ?ls ! i]) ((a_sups a)[i := s])" using r by (intro list_all2_update_cong)
  then show ?thesis using assms(1) f set_update_subset_insert [of "a_sups a" i s]
    by (cases "a_main a") (auto simp: sups_inv_def)
qed

lemma sups_inv_same:
  assumes "sups_inv cfg a" "a_sups b = a_sups a" "a_flag b = a_flag a" "a_now b = a_now a"
    "(case a_main b of
        Launching todo \<Rightarrow> a_main a = Launching todo
      | Killed \<Rightarrow> True
      | _ \<Rightarrow> a_main a = Launching [] \<or> (case a_main a of Launching _ \<Rightarrow> False | Killed \<Rightarrow> False | _ \<Rightarrow> True))"
  shows "sups_inv cfg b"
proof -
  have "length (a_sups a) = length (c_listeners cfg)"
    if "a_main a = Launching []" using assms(1) that
    by (auto simp: sups_inv_def dest: list_all2_lengthD)
  then show ?thesis using assms by (auto simp: sups_inv_def split: main_phase.splits)
qed

lemma sups_inv_step:
  assumes inv: "sups_inv cfg a" "flag_inv a" and step: "app_step cfg a b"
  shows "sups_inv cfg b"
  using step
proof cases
  case (launch spec todo)
  then show ?thesis using sups_inv_launch [OF inv] by simp
next
  case trigger
  then show ?thesis
  proof (cases "subscribed a")
    case True
    have "supervise s (s\<lparr>sup_down := True\<rparr>)" for s by (rule supervise.shut)
    with True trigger inv(1) show ?thesis
      by (intro sups_inv_map [OF inv(1), of "\<lambda>s. s\<lparr>sup_down := True\<rparr>"]) (auto simp: app_trigger_def sups_inv_def)
  next
    case False
    with trigger show ?thesis
      by (intro sups_inv_same [OF inv(1)]) (auto simp: app_trigger_def app_running_def split: main_phase.splits)
  qed
next
  case (supervisor i s)
  then show ?thesis using sups_inv_update [OF inv(1)] by simp
next
  case (elapse d)
  have "supervise s (s\<lparr>sup_now := sup_now s + d\<rparr>)" for s by (rule supervise.elapse)
  with elapse inv(1) show ?thesis
    by (intro sups_inv_map [OF inv(1), of "\<lambda>s. s\<lparr>sup_now := sup_now s + d\<rparr>"]) (auto simp: app_elapse_def sups_inv_def)
qed (use inv(1) in \<open>auto intro!: sups_inv_same [OF inv(1)] simp: main_poll_def beat_poll_def beat_slept_def app_running_def split: main_phase.splits if_splits\<close>)

lemma joined_inv_step:
  assumes inv: "joined_inv a" and step: "app_step cfg a b"
  shows "joined_inv b"
  using step
proof cases
  case (join t k)
  with inv show ?thesis by (auto simp: joined_inv_def less_Suc_eq)
next
  case (supervisor i s)
  then have "sup_phase ((a_sups a)[i := s] ! j) = Returned" if "sup_phase (a_sups a ! j) = Returned" for j
    using that returned_stays [OF sup_own_supervise, of "a_sups a ! i" s] by (cases "j = i") (auto simp: nth_list_update)
  with inv supervisor show ?thesis by (auto simp: joined_inv_def split: main_phase.splits)
qed (use inv in \<open>auto simp: joined_inv_def app_running_def app_step_defs split: main_phase.splits if_splits\<close>)

definition app_inv :: "config \<Rightarrow> app \<Rightarrow> bool" where
  "app_inv cfg a \<longleftrightarrow> flag_inv a \<and> sups_inv cfg a \<and> joined_inv a"

interpretation life: machine "\<lambda>a. \<exists>now. a = app_start cfg now" "app_step cfg" "app_inv cfg" for cfg
proof unfold_locales
  show "app_inv cfg b" if "app_inv cfg a" "app_step cfg a b" for a b
    using that sups_inv_step joined_inv_step flags.inv_step unfolding app_inv_def by blast
qed (auto simp: app_start_def app_inv_def flag_inv_def sups_inv_def joined_inv_def)

section \<open>Leaving\<close>

definition ret :: "supervisor \<Rightarrow> supervisor" where
  "ret s = s\<lparr>sup_phase := Returned\<rparr>"

text \<open>Once the flag is set, every supervisor is at its end or one step from it.\<close>

lemma ret_step:
  assumes "sup_down s"
  shows "sup_own s (ret s) \<or> ret s = s"
proof (cases "sup_phase s")
  case Checking
  then show ?thesis using assms sup_own.own_check [of s] by (simp add: sup_check_def ret_def)
next
  case (Deciding t)
  then show ?thesis using assms sup_own.own_decide [of s t] by (simp add: sup_decide_def ret_def)
qed (use assms in \<open>auto simp: ret_def intro: sup_own.own_abort sup_own.own_cancel\<close>)

lemma return_all:
  assumes "a_flag a" "app_running a" "\<And>s. s \<in> set (a_sups a) \<Longrightarrow> sup_down s \<and> sup_now s = a_now a"
  shows "(app_step cfg)\<^sup>*\<^sup>* a (a\<lparr>a_sups := map ret (a_sups a)\<rparr>)"
proof -
  have "(app_step cfg)\<^sup>*\<^sup>* a (a\<lparr>a_sups := map ret (take n (a_sups a)) @ drop n (a_sups a)\<rparr>)"
    if "n \<le> length (a_sups a)" for n
    using that
  proof (induction n)
    case (Suc n)
    let ?b = "a\<lparr>a_sups := map ret (take n (a_sups a)) @ drop n (a_sups a)\<rparr>"
    have n: "n < length (a_sups ?b)" using Suc.prems by simp
    have at: "a_sups ?b ! n = a_sups a ! n" using Suc.prems by (simp add: nth_append)
    have s: "sup_down (a_sups a ! n)" "sup_now (a_sups a ! n) = a_now a" using assms(3) Suc.prems by simp_all
    have "(app_step cfg)\<^sup>*\<^sup>* ?b (?b\<lparr>a_sups := (a_sups ?b)[n := ret (a_sups a ! n)]\<rparr>)"
      using ret_step [OF s(1)]
    proof
      assume "sup_own (a_sups a ! n) (ret (a_sups a ! n))"
      then have "sup_own (a_sups ?b ! n) (ret (a_sups a ! n))" unfolding at .
      moreover have "app_running ?b" using assms(2) by (simp add: app_running_def)
      ultimately show ?thesis using n by (intro r_into_rtranclp app_step.supervisor)
    next
      assume "ret (a_sups a ! n) = a_sups a ! n"
      then have "(a_sups ?b)[n := ret (a_sups a ! n)] = a_sups ?b" by (metis at list_update_id)
      then have "?b\<lparr>a_sups := (a_sups ?b)[n := ret (a_sups a ! n)]\<rparr> = ?b" by simp
      then show ?thesis by (metis rtranclp.rtrancl_refl)
    qed
    moreover have "(a_sups ?b)[n := ret (a_sups a ! n)] =
        map ret (take (Suc n) (a_sups a)) @ drop (Suc n) (a_sups a)"
      using Suc.prems
      by (simp add: take_Suc_conv_app_nth list_update_append Cons_nth_drop_Suc [symmetric])
    ultimately show ?case using Suc by (auto intro: rtranclp_trans)
  qed simp
  from this [of "length (a_sups a)"] show ?thesis by simp
qed

lemma join_all:
  assumes "a_main a = Draining t k" "k \<le> length (a_sups a)" "\<And>s. s \<in> set (a_sups a) \<Longrightarrow> sup_phase s = Returned"
  shows "(app_step cfg)\<^sup>*\<^sup>* a (a\<lparr>a_main := Ended t (length (a_sups a))\<rparr>)"
  using assms
proof (induction "length (a_sups a) - k" arbitrary: a k)
  case 0
  then have "app_step cfg a (a\<lparr>a_main := Ended t k\<rparr>)" by (intro app_step.drained) simp_all
  with 0 show ?case by auto
next
  case (Suc n)
  let ?b = "a\<lparr>a_main := Draining t (Suc k)\<rparr>"
  have "app_step cfg a ?b" using Suc by (intro app_step.join) simp_all
  moreover have "(app_step cfg)\<^sup>*\<^sup>* ?b (?b\<lparr>a_main := Ended t (length (a_sups ?b))\<rparr>)"
    using Suc(2-5) by (intro Suc(1) [of ?b "Suc k"]) simp_all
  ultimately show ?case by (simp add: converse_rtranclp_into_rtranclp)
qed

text \<open>From every reachable state with the flag set the program can leave at once, with every
  supervisor returned.\<close>

lemma reach_draining:
  assumes "a_flag a" "app_running a" "flag_inv a" "joined_inv a"
  obtains t k where "(app_step cfg)\<^sup>*\<^sup>* a (a\<lparr>a_main := Draining t k\<rparr>)" "k \<le> length (a_sups a)"
proof (cases "a_main a")
  case Wired
  then have "app_step cfg a (main_poll a)" by (rule app_step.wait)
  with assms(1) that [of "a_now a" 0] show thesis by (auto simp: main_poll_def)
next
  case Waiting
  then have "app_step cfg a (main_poll a)" using assms(1) by (rule app_step.main_wake)
  with assms(1) that [of "a_now a" 0] show thesis by (auto simp: main_poll_def)
next
  case (Draining t k)
  then have e: "a\<lparr>a_main := Draining t k\<rparr> = a" and k: "k \<le> length (a_sups a)"
    using assms(4) by (simp_all add: joined_inv_def)
  show thesis by (rule that [of t k]) (simp_all only: e k rtranclp.rtrancl_refl)
qed (use assms(1-3) in \<open>simp_all add: flag_inv_def app_running_def\<close>)

lemma all_launched:
  "\<lbrakk>sups_inv cfg a; flag_inv a; a_flag a; app_running a\<rbrakk> \<Longrightarrow> length (a_sups a) = length (c_listeners cfg)"
  by (cases "a_main a") (simp_all add: sups_inv_def flag_inv_def app_running_def)

lemma new_sups:
  "app_running (a\<lparr>a_sups := ss\<rparr>) = app_running a" "flag_inv (a\<lparr>a_sups := ss\<rparr>) = flag_inv a"
  by (simp_all add: app_running_def flag_inv_def cong: main_phase.case_cong)

lemma joined_inv_ret: "joined_inv a \<Longrightarrow> joined_inv (a\<lparr>a_sups := map ret (a_sups a)\<rparr>)"
  by (simp add: joined_inv_def ret_def split: main_phase.splits)

lemma leave_now:
  assumes inv: "app_inv cfg a" and flag: "a_flag a" and run: "app_running a"
  shows "\<exists>b t. (app_step cfg)\<^sup>*\<^sup>* a b \<and> a_main b = Ended t (length (c_listeners cfg)) \<and>
     list_all (\<lambda>s. sup_phase s = Returned) (a_sups b) \<and> length (a_sups b) = length (c_listeners cfg) \<and>
     a_now b = a_now a"
proof -
  have sups: "sups_inv cfg a" and fl: "flag_inv a" and jo: "joined_inv a" using inv by (simp_all add: app_inv_def)
  have sync: "sup_down s \<and> sup_now s = a_now a" if "s \<in> set (a_sups a)" for s
    using sups flag that unfolding sups_inv_def by blast
  define b where "b = a\<lparr>a_sups := map ret (a_sups a)\<rparr>"
  have b: "(app_step cfg)\<^sup>*\<^sup>* a b" unfolding b_def by (rule return_all [OF flag run sync])
  have sb: "a_sups b = map ret (a_sups a)" "a_now b = a_now a" by (simp_all add: b_def)
  have "a_flag b" "app_running b" "flag_inv b" "joined_inv b"
    using flag run fl joined_inv_ret [OF jo] unfolding b_def by (simp_all add: new_sups)
  then obtain t k where c: "(app_step cfg)\<^sup>*\<^sup>* b (b\<lparr>a_main := Draining t k\<rparr>)" "k \<le> length (a_sups b)"
    by (rule reach_draining)
  define c where "c = b\<lparr>a_main := Draining t k\<rparr>"
  have sc: "a_main c = Draining t k" "a_sups c = map ret (a_sups a)" "a_now c = a_now a"
    by (simp_all add: c_def sb)
  have ret: "sup_phase s = Returned" if "s \<in> set (a_sups c)" for s using that by (auto simp: sc ret_def)
  have k: "k \<le> length (a_sups c)" using c(2) by (simp add: sc sb)
  have e: "(app_step cfg)\<^sup>*\<^sup>* c (c\<lparr>a_main := Ended t (length (a_sups c))\<rparr>)" by (rule join_all [OF sc(1) k ret])
  have len: "length (a_sups c) = length (c_listeners cfg)"
    using all_launched [OF sups fl flag run] by (simp add: sc)
  show ?thesis
  proof (intro exI conjI)
    show "(app_step cfg)\<^sup>*\<^sup>* a (c\<lparr>a_main := Ended t (length (c_listeners cfg))\<rparr>)"
      using b c(1) e unfolding c_def [symmetric] len by (meson rtranclp_trans)
    show "list_all (\<lambda>s. sup_phase s = Returned) (a_sups (c\<lparr>a_main := Ended t (length (c_listeners cfg))\<rparr>))"
      by (simp add: sc list_all_iff ret_def)
  qed (use len in \<open>simp_all add: sc\<close>)
qed

section \<open>Signals\<close>

text \<open>While the main task waits it holds a receiver, so a trigger is not lost.\<close>

definition heard :: "app \<Rightarrow> bool" where
  "heard a \<longleftrightarrow> a_flag a \<or> a_main a = Waiting \<and> (a_sig a = Armed \<or> a_sig a = Received)"

interpretation hearing: machine "\<lambda>a. a_main a = Waiting \<and> a_sig a = Armed" "app_step cfg" heard for cfg
proof unfold_locales
  show "heard b" if inv: "heard a" and "app_step cfg a b" for a b
    using that(2)
    by cases (use inv in \<open>auto simp: heard_def app_running_def app_step_defs subscribed_def subscribers_def split: if_splits\<close>)
qed (simp add: heard_def)

lemma signal_sets_flag:
  assumes "a_main a = Waiting" "a_sig a = Armed"
  shows "\<exists>b. (app_step cfg)\<^sup>*\<^sup>* a b \<and> a_flag b \<and> app_running b \<and> a_now b = a_now a"
proof -
  let ?r = "a\<lparr>a_sig := Received\<rparr>"
  have r: "app_running a" "app_running ?r" "subscribed ?r"
    using assms(1) by (simp_all add: app_running_def subscribed_def subscribers_def)
  then have "app_step cfg a ?r" "app_step cfg ?r (app_trigger ?r)"
    using assms(2) by (auto intro: app_step.deliver app_step.trigger)
  moreover have "a_flag (app_trigger ?r)" "app_running (app_trigger ?r)" "a_now (app_trigger ?r) = a_now a"
    using r assms(1) by (simp_all add: app_trigger_def app_running_def)
  ultimately show ?thesis by (meson converse_rtranclp_into_rtranclp r_into_rtranclp)
qed

text \<open>The state nothing gets the program out of: the one signal is spent and the flag is not set.\<close>

definition deaf :: "app \<Rightarrow> bool" where
  "deaf a \<longleftrightarrow> \<not> a_flag a \<and> a_sig a = Spent \<and> a_main a = Waiting"

interpretation deafness: machine deaf "app_step cfg" deaf for cfg
proof unfold_locales
  show "deaf b" if inv: "deaf a" and "app_step cfg a b" for a b
    using that(2) by cases (use inv in \<open>auto simp: deaf_def app_running_def app_step_defs split: if_splits\<close>)
qed

text \<open>The launch at one moment, which gives the supervisors of \<open>run_userspace\<close>.\<close>

lemma launch_steps:
  "a_main a = Launching ls \<Longrightarrow> (app_step cfg)\<^sup>*\<^sup>* a
     (a\<lparr>a_main := Launching [], a_sups := a_sups a @ map snd (snd (App.launch ls (a_now a)))\<rparr>)"
proof (induction ls arbitrary: a)
  case Nil
  then have "a\<lparr>a_main := Launching [], a_sups := a_sups a @ map snd (snd (App.launch [] (a_now a)))\<rparr> = a" by simp
  then show ?case by (metis rtranclp.rtrancl_refl)
next
  case (Cons l ls)
  let ?b = "(launch_one l a)\<lparr>a_main := Launching ls\<rparr>"
  have "app_step cfg a ?b" using Cons.prems by (rule app_step.launch)
  moreover have "(app_step cfg)\<^sup>*\<^sup>* ?b
     (?b\<lparr>a_main := Launching [], a_sups := a_sups ?b @ map snd (snd (App.launch ls (a_now ?b)))\<rparr>)"
    by (rule Cons.IH) simp
  ultimately show ?case
    by (simp add: launch_one_def launch_eq converse_rtranclp_into_rtranclp)
qed

definition wired :: "config \<Rightarrow> millis \<Rightarrow> app" where
  "wired cfg now =
     \<lparr>a_main = Wired, a_flag = False, a_sig = Installing,
      a_sups = map snd (fst (snd (snd (run_userspace cfg now)))), a_beat = BeatTop, a_now = now\<rparr>"

lemma wired_reachable: "(app_step cfg)\<^sup>*\<^sup>* (app_start cfg now) (wired cfg now)"
proof -
  let ?a = "(app_start cfg now)\<lparr>a_main := Launching [], a_sups := map snd (snd (App.launch (c_listeners cfg) now))\<rparr>"
  have "(app_step cfg)\<^sup>*\<^sup>* (app_start cfg now) ?a"
    using launch_steps [of "app_start cfg now" "c_listeners cfg" cfg] by (simp add: app_start_def)
  moreover have "app_step cfg ?a (?a\<lparr>a_main := Wired, a_sig := Installing, a_beat := BeatTop\<rparr>)"
    by (rule app_step.wire) simp
  moreover have "?a\<lparr>a_main := Wired, a_sig := Installing, a_beat := BeatTop\<rparr> = wired cfg now"
    by (simp add: app_start_def wired_def run_userspace_def split_def)
  ultimately show ?thesis by (metis rtranclp.rtrancl_into_rtrancl)
qed

lemma deaf_reachable: "\<exists>a. (app_step cfg)\<^sup>*\<^sup>* (app_start cfg now) a \<and> deaf a"
proof -
  let ?w = "wired cfg now"
  let ?r = "?w\<lparr>a_sig := Armed\<rparr>\<lparr>a_sig := Received\<rparr>"
  have none: "\<not> subscribed ?r"
    by (auto simp: subscribed_def subscribers_def wired_def launch_every_listener sup_waits_def supervise_start_def filter_empty_conv)
  have "app_step cfg ?w (?w\<lparr>a_sig := Armed\<rparr>)"
    by (rule app_step.register) (simp_all add: app_running_def wired_def)
  moreover have "app_step cfg (?w\<lparr>a_sig := Armed\<rparr>) ?r"
    by (rule app_step.deliver) (simp_all add: app_running_def wired_def)
  moreover have "app_step cfg ?r (app_trigger ?r)"
    by (rule app_step.trigger) (simp_all add: app_running_def wired_def)
  moreover have "app_step cfg (app_trigger ?r) (main_poll (app_trigger ?r))"
    using none by (intro app_step.wait) (simp add: app_trigger_def wired_def)
  moreover have "deaf (main_poll (app_trigger ?r))"
    using none by (simp add: deaf_def main_poll_def app_trigger_def wired_def)
  ultimately show ?thesis using wired_reachable [of cfg now]
    by (meson rtranclp.rtrancl_into_rtrancl)
qed

lemma waiting_reachable:
  "(app_step cfg)\<^sup>*\<^sup>* (app_start cfg now) ((wired cfg now)\<lparr>a_sig := Armed, a_main := Waiting\<rparr>)"
proof -
  let ?w = "wired cfg now"
  have "app_step cfg ?w (?w\<lparr>a_sig := Armed\<rparr>)"
    by (rule app_step.register) (simp_all add: app_running_def wired_def)
  moreover have "app_step cfg (?w\<lparr>a_sig := Armed\<rparr>) (main_poll (?w\<lparr>a_sig := Armed\<rparr>))"
    by (rule app_step.wait) (simp add: wired_def)
  moreover have "main_poll (?w\<lparr>a_sig := Armed\<rparr>) = ?w\<lparr>a_sig := Armed, a_main := Waiting\<rparr>"
    by (simp add: main_poll_def wired_def)
  ultimately show ?thesis using wired_reachable [of cfg now] by (metis rtranclp.rtrancl_into_rtrancl)
qed

text \<open>Waiting out the drain: the exit needs no listener to stop.\<close>

lemma leave_by_timeout:
  assumes "a_main a = Draining t k"
  shows "\<exists>b. (app_step cfg)\<^sup>*\<^sup>* a b \<and> a_main b = Ended t k \<and> a_now b = max (a_now a) (t + DRAIN_TIMEOUT)"
proof -
  let ?e = "app_elapse (t + DRAIN_TIMEOUT - a_now a) a"
  have "app_step cfg a ?e" by (rule app_step.elapse) (simp add: app_running_def assms)
  moreover have "app_step cfg ?e (?e\<lparr>a_main := Ended t k\<rparr>)"
    by (rule app_step.drain_timeout) (simp_all add: app_elapse_def assms)
  ultimately have "(app_step cfg)\<^sup>*\<^sup>* a (?e\<lparr>a_main := Ended t k\<rparr>)"
    by (meson converse_rtranclp_into_rtranclp r_into_rtranclp)
  then show ?thesis by (intro exI conjI) (auto simp: app_elapse_def)
qed

section \<open>Properties\<close>

text \<open>
  C21: The program leaves only after a shutdown signal: whenever it has returned, \<open>SIGINT\<close> or \<open>SIGTERM\<close>
  was received and the flag is set, and either every listener was launched and its supervisor has
  returned, or the drain has lasted its five seconds. Failing, panicking or finished listeners alone
  never end the process.
\<close>

theorem exit_only_after_shutdown:
  assumes "(app_step cfg)\<^sup>*\<^sup>* (app_start cfg now) a" "a_main a = Ended t k"
  shows "a_flag a \<and> a_sig a = Spent \<and> length (a_sups a) = length (c_listeners cfg) \<and>
     (list_all (\<lambda>s. sup_phase s = Returned) (a_sups a) \<or> t + DRAIN_TIMEOUT \<le> a_now a)"
proof -
  have "app_inv cfg a" using life.inv_reachable [OF _ assms(1)] by blast
  then have "flag_inv a" "sups_inv cfg a" "joined_inv a" by (simp_all add: app_inv_def)
  with assms(2) show ?thesis
    by (auto simp: flag_inv_def sups_inv_def joined_inv_def list_all_length)
qed

theorem exit_only_after_shutdown_witness:
  "\<exists>a t k. (app_step (projr (build_config sample_raw)))\<^sup>*\<^sup>* (app_start (projr (build_config sample_raw)) 0) a \<and>
     a_main a = Ended t k \<and> a_flag a \<and> a_sig a = Spent"
proof -
  let ?cfg = "projr (build_config sample_raw)"
  let ?a = "(wired ?cfg 0)\<lparr>a_sig := Armed, a_main := Waiting\<rparr>"
  obtain b where b: "(app_step ?cfg)\<^sup>*\<^sup>* ?a b" "a_flag b" "app_running b"
    using signal_sets_flag [of ?a ?cfg] by auto
  have rb: "(app_step ?cfg)\<^sup>*\<^sup>* (app_start ?cfg 0) b" by (rule rtranclp_trans [OF waiting_reachable b(1)])
  then have "app_inv ?cfg b" using life.inv_reachable by blast
  from leave_now [OF this b(2,3)] obtain c t where c: "(app_step ?cfg)\<^sup>*\<^sup>* b c"
    "a_main c = Ended t (length (c_listeners ?cfg))" by blast
  have rc: "(app_step ?cfg)\<^sup>*\<^sup>* (app_start ?cfg 0) c" by (rule rtranclp_trans [OF rb c(1)])
  show ?thesis using exit_only_after_shutdown [OF rc c(2)] rc c(2) by blast
qed

text \<open>
  C20: A signal that arrives while the program waits ends it: once the main task waits and the handler
  is registered, the trigger is not lost on any run, the program can leave at once with every
  listener's supervisor returned, and from the drain it can leave when the five seconds are over
  without any listener stopping.
\<close>

theorem signal_ends_program:
  assumes "(app_step cfg)\<^sup>*\<^sup>* (app_start cfg now) a" "a_main a = Waiting" "a_sig a = Armed"
  shows "(\<forall>b. (app_step cfg)\<^sup>*\<^sup>* a b \<and> a_sig b = Spent \<longrightarrow> a_flag b) \<and>
     (\<exists>b t. (app_step cfg)\<^sup>*\<^sup>* a b \<and> a_main b = Ended t (length (c_listeners cfg)) \<and>
        list_all (\<lambda>s. sup_phase s = Returned) (a_sups b) \<and> a_now b = a_now a) \<and>
     (\<forall>b t k. (app_step cfg)\<^sup>*\<^sup>* a b \<and> a_main b = Draining t k \<longrightarrow>
        (\<exists>c. (app_step cfg)\<^sup>*\<^sup>* b c \<and> a_main c = Ended t k \<and> a_now c = max (a_now b) (t + DRAIN_TIMEOUT)))"
proof (intro conjI allI impI)
  show "a_flag b" if "(app_step cfg)\<^sup>*\<^sup>* a b \<and> a_sig b = Spent" for b
    using hearing.inv_reachable [of a cfg b] that assms(2,3) by (auto simp: heard_def)
  obtain b where b: "(app_step cfg)\<^sup>*\<^sup>* a b" "a_flag b" "app_running b" "a_now b = a_now a"
    using signal_sets_flag [OF assms(2,3)] by blast
  have "app_inv cfg b" using life.inv_reachable [OF _ rtranclp_trans [OF assms(1) b(1)]] by blast
  from leave_now [OF this b(2,3)] b(1,4)
  show "\<exists>b t. (app_step cfg)\<^sup>*\<^sup>* a b \<and> a_main b = Ended t (length (c_listeners cfg)) \<and>
        list_all (\<lambda>s. sup_phase s = Returned) (a_sups b) \<and> a_now b = a_now a"
    by (metis rtranclp_trans)
qed (use leave_by_timeout in blast)

theorem signal_ends_program_witness:
  "\<exists>b t. (app_step (projr (build_config sample_raw)))\<^sup>*\<^sup>* (app_start (projr (build_config sample_raw)) 0) b \<and>
     a_main b = Ended t 1 \<and> a_now b = 0"
proof -
  let ?cfg = "projr (build_config sample_raw)"
  let ?a = "(wired ?cfg 0)\<lparr>a_sig := Armed, a_main := Waiting\<rparr>"
  have n: "length (c_listeners ?cfg) = 1" by (simp add: sample_config)
  have w: "a_main ?a = Waiting" "a_sig ?a = Armed" "a_now ?a = 0" by (simp_all add: wired_def)
  from signal_ends_program [OF waiting_reachable w(1,2)] n w(3) waiting_reachable [of ?cfg 0] show ?thesis
    by (metis rtranclp_trans)
qed

text \<open>
  C37: A signal in the startup window is lost for good: with any configuration the program can reach a
  state in which its one signal has been consumed before any task waited for the shutdown, and from
  then on it never stops: the flag stays false and the main task waits, whatever further signals
  arrive.
\<close>

theorem startup_signal_is_lost:
  "\<exists>a. (app_step cfg)\<^sup>*\<^sup>* (app_start cfg now) a \<and> a_sig a = Spent \<and>
     (\<forall>b. (app_step cfg)\<^sup>*\<^sup>* a b \<longrightarrow> a_main b = Waiting \<and> \<not> a_flag b)"
proof -
  obtain a where a: "(app_step cfg)\<^sup>*\<^sup>* (app_start cfg now) a" "deaf a" using deaf_reachable by blast
  have "a_main b = Waiting \<and> \<not> a_flag b" if "(app_step cfg)\<^sup>*\<^sup>* a b" for b
    using deafness.inv_reachable [OF a(2) that] by (simp add: deaf_def)
  with a show ?thesis by (auto simp: deaf_def)
qed

theorem startup_signal_is_lost_witness:
  "\<exists>a. (app_step (projr (build_config sample_raw)))\<^sup>*\<^sup>* (app_start (projr (build_config sample_raw)) 0) a \<and>
     a_sig a = Spent \<and> a_main a = Waiting"
  using startup_signal_is_lost [of "projr (build_config sample_raw)" 0] by blast

text \<open>
  In the whole program every listener runs under its own supervisor as if it were alone: at every
  moment the supervisors are, in the order of the listeners, in states the restart loop reaches from
  fresh counters under the listener's name, with one common clock and flag; once the launch is over
  there is one for every listener, and their backoffs are within the bounds.
\<close>

lemma listeners_run_supervised:
  assumes "(app_step cfg)\<^sup>*\<^sup>* (app_start cfg now) a"
  shows "list_all2 (\<lambda>l s. (\<exists>t. supervise\<^sup>*\<^sup>* (supervise_start (stats_new (l_name l) (proto_as_str (l_proto l))) t) s) \<and>
       sup_down s = a_flag a \<and> sup_now s = a_now a \<and> BACKOFF_INITIAL \<le> sup_backoff s \<and> sup_backoff s \<le> BACKOFF_MAX)
     (take (length (a_sups a)) (c_listeners cfg)) (a_sups a) \<and>
     (a_main a = Wired \<or> a_main a = Waiting \<longrightarrow> length (a_sups a) = length (c_listeners cfg))"
proof -
  have "app_inv cfg a" using life.inv_reachable [OF _ assms] by blast
  then have inv: "sups_inv cfg a" by (simp add: app_inv_def)
  have run: "(\<exists>t. supervise\<^sup>*\<^sup>* (supervise_start (fresh_stats l) t) s) \<and>
      BACKOFF_INITIAL \<le> sup_backoff s \<and> sup_backoff s \<le> BACKOFF_MAX" if "sup_run l s" for l s
    using that is_backoff_range backing_off.inv_reachable unfolding sup_run_def by blast
  have "list_all2 sup_run (take (length (a_sups a)) (c_listeners cfg)) (a_sups a)"
    using inv by (simp add: sups_inv_def)
  moreover have "sup_down s = a_flag a \<and> sup_now s = a_now a" if "s \<in> set (a_sups a)" for s
    using inv that by (simp add: sups_inv_def)
  ultimately show ?thesis
    using run inv unfolding fresh_stats_def [symmetric]
    by (auto simp: list_all2_conv_all_nth sups_inv_def)
qed

end
