(* ===== verification/Nat_Lifecycle.thy ===== *)
theory Nat_Lifecycle
  imports Nat_Linux Lifecycle
begin

text \<open>
  \<open>run\<close> of \<open>src/nat/linux.rs\<close> in small steps: one step for every call that changes the host, so that a
  crash, a kill or a signal can fall between any two of them. The big-step \<open>nat_run\<close> is what the
  steps add up to when nothing interferes; in between, what is left on the host is bounded. The
  signal task and the heartbeat are those of \<open>Lifecycle\<close>; the heartbeat and the status dump only list
  the table, which the interface \<open>listing_host\<close> says changes nothing.
\<close>

section \<open>Model\<close>

text \<open>
  The phases of the main task, named by what has been done: rules built, forwarding ensured, stale
  tables of family \<open>ip\<close> and then \<open>ip6\<close> deleted, ruleset loaded and guard armed, tasks spawned, in
  \<open>cancelled\<close>, and the three calls of the cleanup. The forwarding value to restore and what the cleanup
  has logged so far are carried along.
\<close>

datatype nat_phase =
    NStart
  | NAvailable
  | NRuled "nat_rule list"
  | NForwarded "nat_rule list" "bool option"
  | NClearing "nat_rule list" "bool option"
  | NCleared "nat_rule list" "bool option"
  | NUndo "bool option" io_error
  | NInstalled "bool option"
  | NWired "bool option"
  | NWaiting "bool option"
  | NCleanup "bool option"
  | NCleanup6 "bool option" delete_log
  | NRestore "bool option" delete_log delete_log
  | NEnded nat_end
  | NKilled
  | NCrashed

record 'w nat_life =
  nl_phase :: nat_phase
  nl_host :: 'w
  nl_flag :: bool
  nl_sig :: sig_phase
  nl_beat :: bool

text \<open>\<open>nl_beat\<close>: the heartbeat task waits in \<open>cancelled\<close>.\<close>

definition nat_begin :: "'w \<Rightarrow> 'w nat_life" where
  "nat_begin w = \<lparr>nl_phase = NStart, nl_host = w, nl_flag = False, nl_sig = NotInstalled, nl_beat = False\<rparr>"

text \<open>The next call of the main task and the phase after it; the last phases wait or are final.\<close>

fun nat_advance :: "'w host \<Rightarrow> config \<Rightarrow> nat_phase \<Rightarrow> 'w \<Rightarrow> nat_phase \<times> 'w" where
  "nat_advance h cfg NStart w =
     (case ensure_available (ho_nft h) w of
        (Inl e, w') \<Rightarrow> (NEnded (Refused (NoNft e)), w')
      | (Inr _, w') \<Rightarrow> (NAvailable, w'))"
| "nat_advance h cfg NAvailable w =
     (if \<not> has_net_admin h w then (NEnded (Refused NoNetAdmin), w)
      else
        (case build_rules (ho_resolve h) cfg of
           Inl e \<Rightarrow> (NEnded (Refused (BadRules e)), w)
         | Inr rules \<Rightarrow> (NRuled rules, w)))"
| "nat_advance h cfg (NRuled rules) w =
     (case ensure_ip_forward h (c_set_ip_forward cfg) w of
        (Inl e, w') \<Rightarrow> (NEnded (Refused (NoForwarding e)), w')
      | (Inr restore, w') \<Rightarrow> (NForwarded rules restore, w'))"
| "nat_advance h cfg (NForwarded rules restore) w = (NClearing rules restore, snd (delete_table (ho_nft h) ''ip'' w))"
| "nat_advance h cfg (NClearing rules restore) w = (NCleared rules restore, snd (delete_table (ho_nft h) ''ip6'' w))"
| "nat_advance h cfg (NCleared rules restore) w =
     (case apply_ruleset (ho_nft h) (build_ruleset rules) w of
        (Inl e, w') \<Rightarrow> (NUndo restore e, w')
      | (Inr _, w') \<Rightarrow> (NInstalled restore, w'))"
| "nat_advance h cfg (NUndo restore e) w =
     (case restore_forward h restore w of (r, w') \<Rightarrow> (NEnded (Refused (LoadFailed e r)), w'))"
| "nat_advance h cfg (NCleanup restore) w =
     (case delete_table (ho_nft h) ''ip'' w of (l4, w') \<Rightarrow> (NCleanup6 restore l4, w'))"
| "nat_advance h cfg (NCleanup6 restore l4) w =
     (case delete_table (ho_nft h) ''ip6'' w of (l6, w') \<Rightarrow> (NRestore restore l4 l6, w'))"
| "nat_advance h cfg (NRestore restore l4 l6) w =
     (case restore_forward h restore w of (r, w') \<Rightarrow>
        (NEnded (ShutDown [\<lparr>cl_ip = l4, cl_ip6 = l6, cl_restore = r\<rparr>]), w'))"
| "nat_advance h cfg ph w = (ph, w)"

definition nat_running :: "nat_phase \<Rightarrow> bool" where
  "nat_running ph = (case ph of NEnded _ \<Rightarrow> False | NKilled \<Rightarrow> False | NCrashed \<Rightarrow> False | _ \<Rightarrow> True)"

definition nat_main :: "'w host \<Rightarrow> config \<Rightarrow> 'w nat_life \<Rightarrow> 'w nat_life" where
  "nat_main h cfg s =
     (case nat_advance h cfg (nl_phase s) (nl_host s) of (ph, w) \<Rightarrow> s\<lparr>nl_phase := ph, nl_host := w\<rparr>)"

definition nat_poll :: "bool option \<Rightarrow> 'w nat_life \<Rightarrow> 'w nat_life" where
  "nat_poll restore s =
     (if nl_flag s then s\<lparr>nl_phase := NCleanup restore\<rparr> else s\<lparr>nl_phase := NWaiting restore\<rparr>)"

definition nat_trigger :: "'w nat_life \<Rightarrow> 'w nat_life" where
  "nat_trigger s =
     (if (\<exists>restore. nl_phase s = NWaiting restore) \<or> nl_beat s then s\<lparr>nl_sig := Spent, nl_flag := True\<rparr>
      else s\<lparr>nl_sig := Spent\<rparr>)"

inductive nat_step :: "'w host \<Rightarrow> config \<Rightarrow> 'w nat_life \<Rightarrow> 'w nat_life \<Rightarrow> bool" for h cfg where
  main: "nat_running (nl_phase s) \<Longrightarrow> nat_step h cfg s (nat_main h cfg s)"
| wire: "nl_phase s = NInstalled restore \<Longrightarrow> nat_step h cfg s (s\<lparr>nl_phase := NWired restore, nl_sig := Installing\<rparr>)"
| wait: "nl_phase s = NWired restore \<Longrightarrow> nat_step h cfg s (nat_poll restore s)"
| wake: "\<lbrakk>nl_phase s = NWaiting restore; nl_flag s\<rbrakk> \<Longrightarrow> nat_step h cfg s (nat_poll restore s)"
| register: "\<lbrakk>nat_running (nl_phase s); nl_sig s = Installing\<rbrakk> \<Longrightarrow> nat_step h cfg s (s\<lparr>nl_sig := Armed\<rparr>)"
| default_action: "\<lbrakk>nat_running (nl_phase s); nl_sig s = NotInstalled \<or> nl_sig s = Installing\<rbrakk> \<Longrightarrow>
    nat_step h cfg s (s\<lparr>nl_phase := NKilled\<rparr>)"
| deliver: "\<lbrakk>nat_running (nl_phase s); nl_sig s = Armed\<rbrakk> \<Longrightarrow> nat_step h cfg s (s\<lparr>nl_sig := Received\<rparr>)"
| trigger: "\<lbrakk>nat_running (nl_phase s); nl_sig s = Received\<rbrakk> \<Longrightarrow> nat_step h cfg s (nat_trigger s)"
| beat: "\<lbrakk>nat_running (nl_phase s); nl_sig s \<noteq> NotInstalled\<rbrakk> \<Longrightarrow> nat_step h cfg s (s\<lparr>nl_beat := b\<rparr>)"
| report: "\<lbrakk>nat_running (nl_phase s); nl_sig s \<noteq> NotInstalled\<rbrakk> \<Longrightarrow>
    nat_step h cfg s (s\<lparr>nl_host := snd (list_json (ho_nft h) (nl_host s))\<rparr>)"
| crash: "nat_running (nl_phase s) \<Longrightarrow> nat_step h cfg s (s\<lparr>nl_phase := NCrashed\<rparr>)"

section \<open>The big step\<close>

text \<open>What the main task still does from a phase when nothing interferes and the shutdown comes.\<close>

definition restored :: "'w host \<Rightarrow> bool option \<Rightarrow> delete_log \<Rightarrow> delete_log \<Rightarrow> 'w \<Rightarrow> nat_end \<times> 'w" where
  "restored h restore l4 l6 w =
     (case restore_forward h restore w of (r, w') \<Rightarrow>
        (ShutDown [\<lparr>cl_ip = l4, cl_ip6 = l6, cl_restore = r\<rparr>], w'))"

definition finish6 :: "'w host \<Rightarrow> bool option \<Rightarrow> delete_log \<Rightarrow> 'w \<Rightarrow> nat_end \<times> 'w" where
  "finish6 h restore l4 w = (case delete_table (ho_nft h) ''ip6'' w of (l6, w') \<Rightarrow> restored h restore l4 l6 w')"

definition finish :: "'w host \<Rightarrow> bool option \<Rightarrow> 'w \<Rightarrow> nat_end \<times> 'w" where
  "finish h restore w = (case delete_table (ho_nft h) ''ip'' w of (l4, w') \<Rightarrow> finish6 h restore l4 w')"

definition undo :: "'w host \<Rightarrow> bool option \<Rightarrow> io_error \<Rightarrow> 'w \<Rightarrow> nat_end \<times> 'w" where
  "undo h restore e w = (case restore_forward h restore w of (r, w') \<Rightarrow> (Refused (LoadFailed e r), w'))"

definition load :: "'w host \<Rightarrow> nat_rule list \<Rightarrow> bool option \<Rightarrow> 'w \<Rightarrow> nat_end \<times> 'w" where
  "load h rules restore w =
     (case apply_ruleset (ho_nft h) (build_ruleset rules) w of
        (Inl e, w') \<Rightarrow> undo h restore e w'
      | (Inr _, w') \<Rightarrow> finish h restore w')"

definition with_rules :: "'w host \<Rightarrow> config \<Rightarrow> nat_rule list \<Rightarrow> 'w \<Rightarrow> nat_end \<times> 'w" where
  "with_rules h cfg rules w =
     (case ensure_ip_forward h (c_set_ip_forward cfg) w of
        (Inl e, w') \<Rightarrow> (Refused (NoForwarding e), w')
      | (Inr restore, w') \<Rightarrow>
          load h rules restore (snd (delete_table (ho_nft h) ''ip6'' (snd (delete_table (ho_nft h) ''ip'' w')))))"

definition available :: "'w host \<Rightarrow> config \<Rightarrow> 'w \<Rightarrow> nat_end \<times> 'w" where
  "available h cfg w =
     (if \<not> has_net_admin h w then (Refused NoNetAdmin, w)
      else
        (case build_rules (ho_resolve h) cfg of
           Inl e \<Rightarrow> (Refused (BadRules e), w)
         | Inr rules \<Rightarrow> with_rules h cfg rules w))"

fun rest :: "'w host \<Rightarrow> config \<Rightarrow> nat_phase \<Rightarrow> 'w \<Rightarrow> (nat_end \<times> 'w) option" where
  "rest h cfg NStart w =
     Some (case ensure_available (ho_nft h) w of
             (Inl e, w') \<Rightarrow> (Refused (NoNft e), w')
           | (Inr _, w') \<Rightarrow> available h cfg w')"
| "rest h cfg NAvailable w = Some (available h cfg w)"
| "rest h cfg (NRuled rules) w = Some (with_rules h cfg rules w)"
| "rest h cfg (NForwarded rules restore) w =
     Some (load h rules restore (snd (delete_table (ho_nft h) ''ip6'' (snd (delete_table (ho_nft h) ''ip'' w)))))"
| "rest h cfg (NClearing rules restore) w = Some (load h rules restore (snd (delete_table (ho_nft h) ''ip6'' w)))"
| "rest h cfg (NCleared rules restore) w = Some (load h rules restore w)"
| "rest h cfg (NUndo restore e) w = Some (undo h restore e w)"
| "rest h cfg (NInstalled restore) w = Some (finish h restore w)"
| "rest h cfg (NWired restore) w = Some (finish h restore w)"
| "rest h cfg (NWaiting restore) w = Some (finish h restore w)"
| "rest h cfg (NCleanup restore) w = Some (finish h restore w)"
| "rest h cfg (NCleanup6 restore l4) w = Some (finish6 h restore l4 w)"
| "rest h cfg (NRestore restore l4 l6) w = Some (restored h restore l4 l6 w)"
| "rest h cfg (NEnded r) w = Some (r, w)"
| "rest h cfg NKilled w = None"
| "rest h cfg NCrashed w = None"

lemmas finish_defs = finish_def finish6_def restored_def undo_def load_def

lemma cleanup_finish: "cleanup h (\<lparr>ns_armed = True, ns_restore_fwd = restore\<rparr>, w) =
     (case finish h restore w of (ShutDown ls, w') \<Rightarrow> (ls, \<lparr>ns_armed = False, ns_restore_fwd = None\<rparr>, w'))"
  by (simp add: cleanup_def finish_defs split: prod.split)

lemma rest_start: "rest h cfg NStart w = Some (nat_run h cfg id w)"
  by (auto simp: nat_run_def nat_startup_def available_def with_rules_def cleanup_def finish_defs Let_def
      split: prod.splits sum.splits)

lemma rest_advance: "nat_advance h cfg ph w = (ph', w') \<Longrightarrow> rest h cfg ph' w' = rest h cfg ph w"
  by (cases ph)
     (auto simp: available_def with_rules_def finish_defs split: prod.splits sum.splits if_splits)

section \<open>What is on the host in between\<close>

text \<open>The forwarding value a phase will restore.\<close>

fun restore_of :: "nat_phase \<Rightarrow> bool option" where
  "restore_of (NForwarded rules restore) = restore"
| "restore_of (NClearing rules restore) = restore"
| "restore_of (NCleared rules restore) = restore"
| "restore_of (NUndo restore e) = restore"
| "restore_of (NInstalled restore) = restore"
| "restore_of (NWired restore) = restore"
| "restore_of (NWaiting restore) = restore"
| "restore_of (NCleanup restore) = restore"
| "restore_of (NCleanup6 restore l4) = restore"
| "restore_of (NRestore restore l4 l6) = restore"
| "restore_of ph = None"

definition cut_off :: "nat_phase \<Rightarrow> bool" where
  "cut_off ph \<longleftrightarrow> ph = NKilled \<or> ph = NCrashed"

locale listing_host = nat_host +
  assumes list_pure: "ho_nft h [''-j'', ''list'', ''table'', ''ip'', TABLE] None w = (r, w') \<Longrightarrow> w' = w"
begin

lemma list_json_pure: "snd (list_json (ho_nft h) w) = w"
  using list_pure [of w] by (auto simp: list_json_def run_nft_def split: prod.splits sum.splits process_end.splits)

text \<open>Switched on by this run.\<close>

definition raised :: "config \<Rightarrow> 'a \<Rightarrow> 'a \<Rightarrow> bool" where
  "raised cfg w0 w \<longleftrightarrow> c_set_ip_forward cfg \<and> \<not> forwarding w0 \<and> forwarding w"

definition bounded :: "config \<Rightarrow> 'a \<Rightarrow> nat_phase \<Rightarrow> 'a \<Rightarrow> bool" where
  "bounded cfg w0 ph w \<longleftrightarrow>
     tables w \<subseteq> tables w0 \<union> {''ip'', ''ip6''} \<and>
     (if \<not> nat_running ph then forwarding w = forwarding w0 \<or> raised cfg w0 w
      else case restore_of ph of
             None \<Rightarrow> forwarding w = forwarding w0
           | Some p \<Rightarrow> p = forwarding w0 \<and> raised cfg w0 w)"

lemma bounded_same:
  "\<lbrakk>bounded cfg w0 ph w; nat_running ph; tables w' \<subseteq> tables w \<union> {''ip'', ''ip6''}; forwarding w' = forwarding w;
    nat_running ph' \<Longrightarrow> restore_of ph' = restore_of ph\<rbrakk> \<Longrightarrow> bounded cfg w0 ph' w'"
  by (auto simp: bounded_def raised_def split: option.splits)

lemma bounded_forward:
  assumes "bounded cfg w0 (NRuled rules) w" "ensure_ip_forward h (c_set_ip_forward cfg) w = (Inr restore, w')"
  shows "bounded cfg w0 (NForwarded rules restore) w'"
  using assms(1) ensure_ip_forward_law [OF assms(2)]
  by (cases restore) (auto simp: bounded_def raised_def nat_running_def)

lemma bounded_end:
  assumes "bounded cfg w0 ph w" "nat_running ph" "restore_forward h (restore_of ph) w = (r, w')"
  shows "bounded cfg w0 (NEnded x) w'"
  using assms(1,2) restore_forward_law [OF assms(3)]
  by (auto simp: bounded_def raised_def nat_running_def split: option.splits)

lemma bounded_delete:
  assumes "bounded cfg w0 ph w" "nat_running ph" "delete_table (ho_nft h) f w = (l, w')" "restore_of ph' = restore_of ph"
  shows "bounded cfg w0 ph' w'"
  using delete_table_law(1,3) [OF assms(3)] assms(4) by (intro bounded_same [OF assms(1,2)]) auto

lemma bounded_advance:
  assumes inv: "bounded cfg w0 ph w" and run: "nat_running ph" and adv: "nat_advance h cfg ph w = (ph', w')"
  shows "bounded cfg w0 ph' w'"
proof -
  note same = bounded_same [OF inv run] and delete = bounded_delete [OF inv run] and final = bounded_end [OF inv run]
  show ?thesis
  proof (cases ph)
    case NStart
    then obtain r x where "ensure_available (ho_nft h) w = (r, w')" "ph' = NEnded x \<or> ph' = NAvailable"
      using adv by (auto split: prod.splits sum.splits)
    with NStart ensure_available_law show ?thesis by (intro same) auto
  next
    case NAvailable
    then show ?thesis using adv inv by (auto intro!: same split: if_splits sum.splits)
  next
    case (NRuled rules)
    obtain r v where e: "ensure_ip_forward h (c_set_ip_forward cfg) w = (r, v)" by fastforce
    show ?thesis
    proof (cases r)
      case (Inl x)
      with adv e NRuled ensure_ip_forward_law [OF e] show ?thesis by (intro same) (auto simp: nat_running_def)
    qed (use adv e NRuled inv bounded_forward in auto)
  next
    case (NCleared rules restore)
    obtain r v where e: "apply_ruleset (ho_nft h) (build_ruleset rules) w = (r, v)" by fastforce
    show ?thesis using adv e NCleared apply_law [OF e] by (cases r) (auto intro!: same)
  next
    case (NUndo restore e)
    then show ?thesis using adv final by (auto split: prod.splits)
  next
    case (NRestore restore l4 l6)
    then show ?thesis using adv final by (auto split: prod.splits)
  next
    case (NForwarded rules restore)
    then show ?thesis using adv by (auto intro!: delete surjective_pairing)
  next
    case (NClearing rules restore)
    then show ?thesis using adv by (auto intro!: delete surjective_pairing)
  next
    case (NCleanup restore)
    then show ?thesis using adv by (auto split: prod.splits elim: delete)
  next
    case (NCleanup6 restore l4)
    then show ?thesis using adv by (auto split: prod.splits elim: delete)
  qed (use adv inv in auto)
qed

lemma bounded_cut: "bounded cfg w0 ph w \<Longrightarrow> \<not> nat_running ph' \<Longrightarrow> bounded cfg w0 ph' w"
  by (auto simp: bounded_def raised_def split: if_splits option.splits)

lemma bounded_phase:
  "\<lbrakk>bounded cfg w0 ph w; restore_of ph' = restore_of ph; nat_running ph' = nat_running ph\<rbrakk> \<Longrightarrow> bounded cfg w0 ph' w"
  by (simp add: bounded_def)

lemma life_bounded:
  assumes "(nat_step h cfg)\<^sup>*\<^sup>* (nat_begin w0) s"
  shows "bounded cfg w0 (nl_phase s) (nl_host s)"
  using assms
proof (induction rule: rtranclp_induct)
  case base
  show ?case by (auto simp: nat_begin_def bounded_def nat_running_def)
next
  case (step s t)
  from step(2) show ?case
  proof cases
    case main
    then show ?thesis
      using bounded_advance [OF step(3)] by (auto simp: nat_main_def split: prod.splits)
  next
    case default_action
    then show ?thesis using bounded_cut [OF step(3)] by (simp add: nat_running_def)
  next
    case crash
    then show ?thesis using bounded_cut [OF step(3)] by (simp add: nat_running_def)
  next
    case report
    then show ?thesis using step(3) by (simp add: list_json_pure)
  qed (use step(3) in \<open>auto simp: nat_poll_def nat_trigger_def nat_running_def elim!: bounded_phase\<close>)
qed

lemma life_rest:
  assumes "(nat_step h cfg)\<^sup>*\<^sup>* (nat_begin w0) s" "\<not> cut_off (nl_phase s)"
  shows "rest h cfg (nl_phase s) (nl_host s) = Some (nat_run h cfg id w0)"
  using assms
proof (induction rule: rtranclp_induct)
  case base
  show ?case unfolding nat_begin_def by (simp only: nat_life.select_convs rest_start)
next
  case (step s t)
  have c: "\<not> cut_off (nl_phase s)"
    using step(2,4) by cases (auto simp: nat_running_def cut_off_def)
  note ih = step(3) [OF c]
  from step(2) show ?case
  proof cases
    case main
    then show ?thesis
      using ih rest_advance [of h cfg "nl_phase s" "nl_host s"] by (auto simp: nat_main_def split: prod.splits)
  next
    case report
    then show ?thesis using ih by (simp add: list_json_pure)
  qed (use ih step(4) in \<open>auto simp: nat_poll_def nat_trigger_def cut_off_def split: if_splits\<close>)
qed

lemma ended_gives_back:
  assumes "(nat_step h cfg)\<^sup>*\<^sup>* (nat_begin w0) s" "nl_phase s = NEnded r"
  shows "nat_run h cfg id w0 = (r, nl_host s)" "gives_back tables forwarding w0 r (nl_host s)"
proof -
  show run: "nat_run h cfg id w0 = (r, nl_host s)"
    using life_rest [OF assms(1)] assms(2) by (simp add: cut_off_def)
  show "gives_back tables forwarding w0 r (nl_host s)" by (rule run_gives_back [OF run]) simp
qed

text \<open>What is left to do once the flag is set: the cleanup, call by call.\<close>

lemma cleanup_steps:
  assumes "nl_phase s = NCleanup restore"
  shows "\<exists>t ls. (nat_step h cfg)\<^sup>*\<^sup>* s t \<and> nl_phase t = NEnded (ShutDown ls)"
proof -
  define a where "a = nat_main h cfg s"
  define b where "b = nat_main h cfg a"
  define c where "c = nat_main h cfg b"
  have a: "nl_phase a = NCleanup6 restore (fst (delete_table (ho_nft h) ''ip'' (nl_host s)))"
    using assms by (simp add: a_def nat_main_def case_prod_beta)
  have b: "nl_phase b = NRestore restore (fst (delete_table (ho_nft h) ''ip'' (nl_host s)))
      (fst (delete_table (ho_nft h) ''ip6'' (nl_host a)))"
    using a by (simp add: b_def nat_main_def case_prod_beta)
  have c: "\<exists>ls. nl_phase c = NEnded (ShutDown ls)"
    using b by (simp add: c_def nat_main_def case_prod_beta)
  have "nat_step h cfg s a" unfolding a_def by (rule nat_step.main) (simp add: assms nat_running_def)
  moreover have "nat_step h cfg a b" unfolding b_def by (rule nat_step.main) (simp add: a nat_running_def)
  moreover have "nat_step h cfg b c" unfolding c_def by (rule nat_step.main) (simp add: b nat_running_def)
  ultimately have "(nat_step h cfg)\<^sup>*\<^sup>* s c" by (meson converse_rtranclp_into_rtranclp r_into_rtranclp)
  with c show ?thesis by blast
qed

lemma signalled_ends:
  assumes "nl_phase s = NWaiting restore" "nl_sig s = Armed"
  shows "\<exists>t ls. (nat_step h cfg)\<^sup>*\<^sup>* s t \<and> nl_phase t = NEnded (ShutDown ls)"
proof -
  define a where "a = s\<lparr>nl_sig := Received\<rparr>"
  define b where "b = nat_trigger a"
  define c where "c = nat_poll restore b"
  have p: "nat_running (nl_phase s)" "nat_running (nl_phase a)" using assms by (simp_all add: a_def nat_running_def)
  have b: "nl_phase b = NWaiting restore" "nl_flag b"
    using assms by (simp_all add: a_def b_def nat_trigger_def)
  have "nat_step h cfg s a" unfolding a_def by (rule nat_step.deliver [OF p(1) assms(2)])
  moreover have "nat_step h cfg a b" unfolding b_def by (rule nat_step.trigger [OF p(2)]) (simp add: a_def)
  moreover have "nat_step h cfg b c" unfolding c_def by (rule nat_step.wake [OF b(1,2)])
  ultimately have sc: "(nat_step h cfg)\<^sup>*\<^sup>* s c" by (meson converse_rtranclp_into_rtranclp r_into_rtranclp)
  have "nl_phase c = NCleanup restore" using b by (simp add: c_def nat_poll_def)
  with cleanup_steps [of c restore cfg] sc show ?thesis by (metis rtranclp_trans)
qed

lemma cleanup_main_law:
  assumes "cleanup_main pr (ho_nft h) w = (r, ls, w')"
  shows "forwarding w' = forwarding w" "tables w' \<subseteq> tables w"
    "r = Done rep \<Longrightarrow> ex_code rep = 0 \<Longrightarrow> \<exists>l4 l6. ls = [l4, l6] \<and>
       (''ip'' \<notin> tables w' \<or> delete_failed l4) \<and> (''ip6'' \<notin> tables w' \<or> delete_failed l6)"
proof -
  obtain q v where a: "ensure_available (ho_nft h) w = (q, v)" by fastforce
  obtain l4 w1 where d4: "delete_table (ho_nft h) ''ip'' v = (l4, w1)" by fastforce
  obtain l6 w2 where d6: "delete_table (ho_nft h) ''ip6'' w1 = (l6, w2)" by fastforce
  note l = ensure_available_law [OF a] and d = delete_both_law [OF d4 d6]
  show "forwarding w' = forwarding w" "tables w' \<subseteq> tables w"
    using assms l d(1,2) by (auto simp: cleanup_main_def a d4 d6 split: sum.splits)
  show "\<exists>l4 l6. ls = [l4, l6] \<and> (''ip'' \<notin> tables w' \<or> delete_failed l4) \<and> (''ip6'' \<notin> tables w' \<or> delete_failed l6)"
    if "r = Done rep" "ex_code rep = 0"
    using assms that d(3,4) by (auto simp: cleanup_main_def a d4 d6 exit_defs split: sum.splits if_splits)
qed

text \<open>A run that finds the flag set never writes it.\<close>

lemma run_leaves_on:
  assumes run: "nat_run h cfg during w = (r, w')" and fw: "\<And>v. forwarding (during v) = forwarding v" and on: "forwarding w"
  shows "forwarding w'"
proof -
  obtain q v where st: "nat_startup h cfg w = (q, v)" by fastforce
  have s: "forwarding v \<and> (\<forall>rules st. q = Inr (rules, st) \<longrightarrow> ns_armed st \<and> ns_restore_fwd st = None)"
    using st
  proof (cases rule: startup_cases)
    case (loaded w0 u w1 restore l4 w2 l6 w3 rules q' w4)
    note a = ensure_available_law [OF loaded(1)] and f = ensure_ip_forward_law [OF loaded(2)]
      and d = delete_both_law [OF loaded(4,5)] and l = apply_law [OF loaded(6)]
    have r: "restore = None" using f(4) on a by (cases restore) auto
    with f(3) on a d(1) l(1) loaded(7) show ?thesis by (cases q') (auto simp: restore_forward_def)
  qed (use on ensure_available_law ensure_ip_forward_law(2) in \<open>fastforce+\<close>)
  show ?thesis
  proof (cases q)
    case (Inr x)
    obtain rules st where x: "x = (rules, st)" by fastforce
    with s Inr have n: "ns_armed st" "ns_restore_fwd st = None" by blast+
    obtain l4 w1 where d4: "delete_table (ho_nft h) ''ip'' (during v) = (l4, w1)" by fastforce
    obtain l6 w2 where d6: "delete_table (ho_nft h) ''ip6'' w1 = (l6, w2)" by fastforce
    have "w' = w2"
      using run st Inr x n by (auto simp: nat_run_def cleanup_def d4 d6 restore_forward_def)
    then show ?thesis using delete_both_law(1) [OF d4 d6] fw s by simp
  qed (use s run st in \<open>auto simp: nat_run_def\<close>)
qed

end

text \<open>Before the handlers are installed a signal has its default action.\<close>

lemma handlers_not_yet:
  assumes "(nat_step h cfg)\<^sup>*\<^sup>* (nat_begin w0) s"
  shows "nl_sig s = NotInstalled \<or> (\<exists>x. nl_phase s \<in> {NWired x, NWaiting x, NCleanup x} \<or>
     (\<exists>l4 l6. nl_phase s \<in> {NCleanup6 x l4, NRestore x l4 l6})) \<or> \<not> nat_running (nl_phase s)"
  using assms
proof (induction rule: rtranclp_induct)
  case (step s t)
  from step(2) show ?case
  proof cases
    case main
    then show ?thesis using step(3)
      by (cases "nl_phase s") (auto simp: nat_main_def nat_running_def split: prod.splits)
  qed (use step(3) in \<open>auto simp: nat_poll_def nat_trigger_def nat_running_def\<close>)
qed (simp add: nat_begin_def)

interpretation model_listing: listing_host "model_host refuses broken resolve" fst snd for refuses broken resolve
  by unfold_locales (auto simp: model_host_def model_nft_def split: if_splits)

section \<open>Properties\<close>

text \<open>
  C27: Wherever a run of kernel NAT mode is cut off, the damage is bounded and the rules can be removed.
  Between any two calls no table but ours has appeared and the forwarding flag has its old value or
  was switched on by this run because \<open>--set-ip-forward\<close> was given. A run that is not cut off ends
  exactly as the run in one piece and gives the host back, failed calls excepted. After that, \<open>gust
  --nat-cleanup\<close> leaves the flag alone and adds no table, and when it ends with code 0 it has tried
  both deletions and no table of ours is left but one whose deletion failed, which the code does not
  show.
\<close>

theorem nat_crash_bounded:
  assumes "listing_host h tables forwarding" "(nat_step h cfg)\<^sup>*\<^sup>* (nat_begin w) s"
  shows "tables (nl_host s) \<subseteq> tables w \<union> {''ip'', ''ip6''} \<and>
     (forwarding (nl_host s) = forwarding w \<or>
      c_set_ip_forward cfg \<and> \<not> forwarding w \<and> forwarding (nl_host s)) \<and>
     (\<forall>r. nl_phase s = NEnded r \<longrightarrow>
        nat_run h cfg id w = (r, nl_host s) \<and> gives_back tables forwarding w r (nl_host s)) \<and>
     (case cleanup_main pr (ho_nft h) (nl_host s) of (r, ls, w') \<Rightarrow>
        forwarding w' = forwarding (nl_host s) \<and> tables w' \<subseteq> tables (nl_host s) \<and>
        (\<forall>rep. r = Done rep \<and> ex_code rep = 0 \<longrightarrow> (\<exists>l4 l6. ls = [l4, l6] \<and>
           (''ip'' \<notin> tables w' \<or> delete_failed l4) \<and> (''ip6'' \<notin> tables w' \<or> delete_failed l6))))"
proof -
  note b = listing_host.life_bounded [OF assms]
  have "tables (nl_host s) \<subseteq> tables w \<union> {''ip'', ''ip6''}"
    using b by (simp add: listing_host.bounded_def [OF assms(1)])
  moreover have "forwarding (nl_host s) = forwarding w \<or>
      c_set_ip_forward cfg \<and> \<not> forwarding w \<and> forwarding (nl_host s)"
    using b by (auto simp: listing_host.bounded_def [OF assms(1)] listing_host.raised_def [OF assms(1)]
        split: if_splits option.splits)
  moreover obtain r ls w' where c: "cleanup_main pr (ho_nft h) (nl_host s) = (r, ls, w')" by (metis prod_cases3)
  ultimately show ?thesis
    using listing_host.ended_gives_back [OF assms] listing_host.cleanup_main_law [OF assms(1) c]
    unfolding c prod.case by blast
qed

text \<open>A run up to the loaded rules, evaluated call by call.\<close>

definition before_signals :: "nat_phase \<Rightarrow> 'w \<Rightarrow> 'w nat_life" where
  "before_signals ph w = (nat_begin w)\<lparr>nl_phase := ph\<rparr>"

lemma before_signals_step:
  "\<lbrakk>nat_advance h cfg ph w = (ph', w'); nat_running ph\<rbrakk> \<Longrightarrow>
     nat_step h cfg (before_signals ph w) (before_signals ph' w')"
  using nat_step.main [of "before_signals ph w" h cfg]
  by (simp add: before_signals_def nat_begin_def nat_main_def)

definition sample_host :: "(string set \<times> bool) host" where
  "sample_host = model_host False False (\<lambda>_. Ok [])"

lemma sample_advance:
  "nat_advance sample_host sample_nat_config NStart ({}, False) = (NAvailable, ({}, False))"
  "nat_advance sample_host sample_nat_config NAvailable ({}, False) = (NRuled [sample_nat_rule], ({}, False))"
  "nat_advance sample_host sample_nat_config (NRuled [sample_nat_rule]) ({}, False) =
     (NForwarded [sample_nat_rule] (Some False), ({}, True))"
  "nat_advance sample_host sample_nat_config (NForwarded [sample_nat_rule] (Some False)) ({}, True) =
     (NClearing [sample_nat_rule] (Some False), ({}, True))"
  "nat_advance sample_host sample_nat_config (NClearing [sample_nat_rule] (Some False)) ({}, True) =
     (NCleared [sample_nat_rule] (Some False), ({}, True))"
  "nat_advance sample_host sample_nat_config (NCleared [sample_nat_rule] (Some False)) ({}, True) =
     (NInstalled (Some False), ({''ip''}, True))"
  by code_simp+

definition sample_installed :: "(string set \<times> bool) nat_life" where
  "sample_installed = before_signals (NInstalled (Some False)) ({''ip''}, True)"

lemma sample_installed_sel:
  "nl_phase sample_installed = NInstalled (Some False)" "nl_host sample_installed = ({''ip''}, True)"
  "nl_sig sample_installed = NotInstalled"
  by (simp_all add: sample_installed_def before_signals_def nat_begin_def)

lemma sample_installed_reachable:
  "(nat_step sample_host sample_nat_config)\<^sup>*\<^sup>* (nat_begin ({}, False)) sample_installed"
proof -
  have start: "nat_begin ({}, False) = before_signals NStart ({} :: string set, False)"
    by (simp add: before_signals_def nat_begin_def)
  have active: "nat_running NStart" "nat_running NAvailable" "nat_running (NRuled rs)" "nat_running (NForwarded rs f)"
    "nat_running (NClearing rs f)" "nat_running (NCleared rs f)" for rs f by (simp_all add: nat_running_def)
  note steps = sample_advance(1) [THEN before_signals_step, OF active(1)]
    sample_advance(2) [THEN before_signals_step, OF active(2)]
    sample_advance(3) [THEN before_signals_step, OF active(3)]
    sample_advance(4) [THEN before_signals_step, OF active(4)]
    sample_advance(5) [THEN before_signals_step, OF active(5)]
    sample_advance(6) [THEN before_signals_step, OF active(6)]
  show ?thesis unfolding start sample_installed_def
    using steps by (meson converse_rtranclp_into_rtranclp r_into_rtranclp)
qed

lemma sample_listing: "listing_host sample_host fst snd"
  unfolding sample_host_def by (rule model_listing.listing_host_axioms)

theorem nat_crash_bounded_witness:
  "fst (nl_host sample_installed) \<subseteq> {} \<union> {''ip'', ''ip6''} \<and>
   snd (snd (cleanup_main working_printer (ho_nft sample_host) (nl_host sample_installed))) = ({}, True)"
proof
  show "fst (nl_host sample_installed) \<subseteq> {} \<union> {''ip'', ''ip6''}"
    using nat_crash_bounded [OF sample_listing sample_installed_reachable, of working_printer] by simp
  show "snd (snd (cleanup_main working_printer (ho_nft sample_host) (nl_host sample_installed))) = ({}, True)"
    by code_simp
qed

text \<open>
  C38: There is a window in which an ordinary shutdown signal leaves forwarding switched on for good:
  the rules are loaded before the signal handlers are registered, so in every run that switched the
  flag on and has loaded its rules a signal can still kill the program, with the host as it is. The
  flag was off before the run and is on then, and no later run of the program, with whatever
  configuration, switches it off again: a run that starts with the flag set ends with it set, since
  it takes the value it finds for the one to keep.
\<close>

theorem nat_signal_window:
  assumes "listing_host h tables forwarding" "(nat_step h cfg)\<^sup>*\<^sup>* (nat_begin w) s"
    "nl_phase s = NInstalled (Some p)"
  shows "(\<exists>t. nat_step h cfg s t \<and> nl_phase t = NKilled \<and> nl_host t = nl_host s) \<and>
     \<not> forwarding w \<and> forwarding (nl_host s) \<and>
     (\<forall>cfg' during v r v'. forwarding v \<and> (\<forall>u. forwarding (during u) = forwarding u) \<and>
        nat_run h cfg' during v = (r, v') \<longrightarrow> forwarding v')"
proof (intro conjI)
  have "nl_sig s = NotInstalled" using handlers_not_yet [OF assms(2)] assms(3) by (auto simp: nat_running_def)
  then have "nat_step h cfg s (s\<lparr>nl_phase := NKilled\<rparr>)"
    by (intro nat_step.default_action) (simp_all add: assms(3) nat_running_def)
  then show "\<exists>t. nat_step h cfg s t \<and> nl_phase t = NKilled \<and> nl_host t = nl_host s" by fastforce
  show "\<not> forwarding w" "forwarding (nl_host s)"
    using listing_host.life_bounded [OF assms(1,2)] assms(3)
    by (simp_all add: listing_host.bounded_def [OF assms(1)] listing_host.raised_def [OF assms(1)] nat_running_def)
  show "\<forall>cfg' during v r v'. forwarding v \<and> (\<forall>u. forwarding (during u) = forwarding u) \<and>
      nat_run h cfg' during v = (r, v') \<longrightarrow> forwarding v'"
    using listing_host.run_leaves_on [OF assms(1)] by blast
qed

theorem nat_signal_window_witness:
  "(\<exists>t. nat_step sample_host sample_nat_config sample_installed t \<and> nl_phase t = NKilled) \<and>
   snd (snd (nat_run sample_host sample_nat_config id ({''ip''}, True)))"
proof -
  note x = nat_signal_window [OF sample_listing sample_installed_reachable sample_installed_sel(1)]
  have "snd (snd (nat_run sample_host sample_nat_config id ({''ip''}, True)))"
    using x by (metis id_apply prod.collapse snd_conv)
  with x show ?thesis by blast
qed

text \<open>
  C26: A shutdown signal ends kernel NAT mode and gives the host back: from every state in which the
  rules are loaded, the handlers are registered and the program waits, the signal leads to exit code
  0 with the host as the uninterrupted run leaves it: no table of ours and the forwarding flag as it
  was at the start, except where the deletion or the write itself failed and was logged.
\<close>

theorem nat_signal_restores:
  assumes "listing_host h tables forwarding" "(nat_step h cfg)\<^sup>*\<^sup>* (nat_begin w) s"
    "nl_phase s = NWaiting restore" "nl_sig s = Armed"
  shows "\<exists>t l. (nat_step h cfg)\<^sup>*\<^sup>* s t \<and> nl_phase t = NEnded (ShutDown [l]) \<and> nat_code (ShutDown [l]) = 0 \<and>
     nat_run h cfg id w = (ShutDown [l], nl_host t) \<and>
     (''ip'' \<notin> tables (nl_host t) \<or> delete_failed (cl_ip l)) \<and>
     (''ip6'' \<notin> tables (nl_host t) \<or> delete_failed (cl_ip6 l)) \<and>
     (forwarding (nl_host t) = forwarding w \<or> (\<exists>failure. cl_restore l = Some (Err failure)))"
proof -
  obtain t ls where t: "(nat_step h cfg)\<^sup>*\<^sup>* s t" "nl_phase t = NEnded (ShutDown ls)"
    using listing_host.signalled_ends [OF assms(1,3,4)] by blast
  note e = listing_host.ended_gives_back [OF assms(1) rtranclp_trans [OF assms(2) t(1)] t(2)]
  from e(2) obtain l where "ls = [l]" "''ip'' \<notin> tables (nl_host t) \<or> delete_failed (cl_ip l)"
    "''ip6'' \<notin> tables (nl_host t) \<or> delete_failed (cl_ip6 l)"
    "forwarding (nl_host t) = forwarding w \<or> (\<exists>failure. cl_restore l = Some (Inl failure))"
    by (auto simp: gives_back_def)
  with t e(1) show ?thesis by (intro exI [of _ t] exI [of _ l]) (simp add: nat_code_def)
qed

theorem nat_signal_restores_witness:
  "\<exists>t. (nat_step sample_host sample_nat_config)\<^sup>*\<^sup>* (nat_begin ({}, False)) t \<and>
     nl_host t = ({}, False)"
proof -
  let ?step = "nat_step sample_host sample_nat_config"
  define a where "a = sample_installed\<lparr>nl_phase := NWired (Some False), nl_sig := Installing\<rparr>"
  define b where "b = a\<lparr>nl_sig := Armed\<rparr>"
  define c where "c = nat_poll (Some False) b"
  have "?step sample_installed a" unfolding a_def by (rule nat_step.wire) (rule sample_installed_sel)
  moreover have "?step a b" unfolding b_def by (rule nat_step.register) (simp_all add: a_def nat_running_def)
  moreover have "?step b c" unfolding c_def by (rule nat_step.wait) (simp add: a_def b_def)
  ultimately have "?step\<^sup>*\<^sup>* sample_installed c" by (meson converse_rtranclp_into_rtranclp r_into_rtranclp)
  with sample_installed_reachable have r: "?step\<^sup>*\<^sup>* (nat_begin ({}, False)) c" by (rule rtranclp_trans)
  have "nl_flag sample_installed = False" by (simp add: sample_installed_def before_signals_def nat_begin_def)
  then have c: "nl_phase c = NWaiting (Some False)" "nl_sig c = Armed" by (simp_all add: a_def b_def c_def nat_poll_def)
  have run: "snd (nat_run sample_host sample_nat_config id ({}, False)) = ({}, False)" by code_simp
  from nat_signal_restores [OF sample_listing r c] obtain t l where "?step\<^sup>*\<^sup>* c t"
    "nat_run sample_host sample_nat_config id ({}, False) = (ShutDown [l], nl_host t)" by blast
  with run rtranclp_trans [OF r] show ?thesis by (metis snd_conv)
qed

end
