(* ===== verification/Service.thy ===== *)
theory Service
  imports Supervisor Udp
begin

text \<open>
  \<open>spawn_listener\<close> of \<open>src/app.rs\<close>: a supervisor that calls the serve function of its listener, the
  serve task, and the tasks that the accept or receive loop leaves behind, as one transition system.
  They share the listener's counters. A serve function is what the supervisor sees of it: the bind,
  the steps of its loop and of the tasks it spawned, and the end of the loop; TCP and UDP provide
  one each. The tasks of a loop outlive it, so the state keeps every loop that was ever started.
\<close>

section \<open>Model\<close>

record 'l serve_fn =
  sf_serve :: "(io_error, unit) result \<Rightarrow> listener_stats \<Rightarrow> millis \<Rightarrow> (io_error, 'l) result"
  sf_step :: "'l \<Rightarrow> 'l \<Rightarrow> bool"
  sf_panics :: "'l \<Rightarrow> bool"
  sf_listening :: "'l \<Rightarrow> bool"
  sf_stop :: "'l \<Rightarrow> 'l"
  sf_stats :: "'l \<Rightarrow> listener_stats"
  sf_sync :: "listener_stats \<Rightarrow> millis \<Rightarrow> 'l \<Rightarrow> 'l"

text \<open>The two arms of \<open>spawn_listener\<close>.\<close>

definition tcp_fn :: "listener_spec \<Rightarrow> tcp_listener serve_fn" where
  "tcp_fn spec =
     \<lparr>sf_serve = (\<lambda>bound stats now. tcp_serve bound spec stats),
      sf_step = tcp_step (l_targets spec),
      sf_panics = (\<lambda>l. pick_target (l_targets spec) (tl_rr l) = None),
      sf_listening = tl_listening,
      sf_stop = tl_listening_update (\<lambda>_. False),
      sf_stats = tl_stats,
      sf_sync = (\<lambda>stats now. tl_stats_update (\<lambda>_. stats))\<rparr>"

definition udp_fn :: "listener_spec \<Rightarrow> udp_listener serve_fn" where
  "udp_fn spec =
     \<lparr>sf_serve = (\<lambda>bound stats now. udp_serve bound spec stats now),
      sf_step = udp_step (l_targets spec),
      sf_panics = (\<lambda>l. udp_pick_target (l_targets spec) (ul_rr l) = None),
      sf_listening = ul_listening,
      sf_stop = ul_listening_update (\<lambda>_. False),
      sf_stats = ul_stats,
      sf_sync = (\<lambda>stats now l. l\<lparr>ul_stats := stats, ul_now := now\<rparr>)\<rparr>"

text \<open>The spawned serve task: binding, in its loop, or finished and not yet joined.\<close>

datatype serve_task = NoServe | Binding | Looping | Finishing serve_outcome

text \<open>
  \<open>sv_loops\<close> has the newest loop first. Two histories that no step reads, newest first: \<open>sv_fails\<close> are
  the binds that failed, \<open>sv_runs\<close> what \<open>started.elapsed()\<close> gave each time the supervisor decided to
  restart.
\<close>

record 'l service =
  sv_sup :: supervisor
  sv_task :: serve_task
  sv_loops :: "'l list"
  sv_fails :: "io_error list"
  sv_runs :: "millis list"

definition service_start :: "listener_spec \<Rightarrow> millis \<Rightarrow> 'l service" where
  "service_start spec now =
     \<lparr>sv_sup = supervise_start (stats_new (l_name spec) (proto_as_str (l_proto spec))) now,
      sv_task = NoServe, sv_loops = [], sv_fails = [], sv_runs = []\<rparr>"

text \<open>A loop as it sees the shared counters and the clock.\<close>

definition view :: "'l serve_fn \<Rightarrow> 'l service \<Rightarrow> 'l \<Rightarrow> 'l" where
  "view f s l = sf_sync f (sup_stats (sv_sup s)) (sup_now (sv_sup s)) l"

definition sv_check :: "'l service \<Rightarrow> 'l service" where
  "sv_check s =
     s\<lparr>sv_sup := sup_check (sv_sup s), sv_task := (if sup_down (sv_sup s) then NoServe else Binding)\<rparr>"

definition sv_bind :: "'l serve_fn \<Rightarrow> (io_error, unit) result \<Rightarrow> 'l service \<Rightarrow> 'l service" where
  "sv_bind f bound s =
     (case sf_serve f bound (sup_stats (sv_sup s)) (sup_now (sv_sup s)) of
        Inl e \<Rightarrow> s\<lparr>sv_task := Finishing (ServeErr (io_msg e)), sv_fails := e # sv_fails s\<rparr>
      | Inr l \<Rightarrow> s\<lparr>sv_task := Looping, sv_loops := l # sv_loops s\<rparr>)"

definition sv_work :: "'l serve_fn \<Rightarrow> nat \<Rightarrow> 'l \<Rightarrow> 'l service \<Rightarrow> 'l service" where
  "sv_work f i l s =
     s\<lparr>sv_loops := (sv_loops s)[i := l], sv_sup := (sv_sup s)\<lparr>sup_stats := sf_stats f l\<rparr>\<rparr>"

text \<open>The loop of the serve task ends; its tasks stay.\<close>

definition stop_loop :: "'l serve_fn \<Rightarrow> 'l service \<Rightarrow> 'l service" where
  "stop_loop f s =
     (if sv_task s = Looping
      then s\<lparr>sv_loops := (case sv_loops s of [] \<Rightarrow> [] | l # ls \<Rightarrow> sf_stop f l # ls)\<rparr> else s)"

definition sv_abort :: "'l serve_fn \<Rightarrow> 'l service \<Rightarrow> 'l service" where
  "sv_abort f s = (stop_loop f s)\<lparr>sv_sup := (sv_sup s)\<lparr>sup_phase := Returned\<rparr>, sv_task := NoServe\<rparr>"

definition sv_join :: "serve_outcome \<Rightarrow> millis \<Rightarrow> 'l service \<Rightarrow> 'l service" where
  "sv_join r t s = s\<lparr>sv_sup := sup_joined r t (sv_sup s), sv_task := NoServe\<rparr>"

definition sv_decide :: "millis \<Rightarrow> 'l service \<Rightarrow> 'l service" where
  "sv_decide t s =
     s\<lparr>sv_sup := sup_decide t (sv_sup s),
       sv_runs := (if sup_down (sv_sup s) then sv_runs s else (sup_now (sv_sup s) - t) # sv_runs s)\<rparr>"

inductive service_step :: "'l serve_fn \<Rightarrow> 'l service \<Rightarrow> 'l service \<Rightarrow> bool" for f :: "'l serve_fn" where
  elapse: "service_step f s (s\<lparr>sv_sup := pass_time d (sv_sup s)\<rparr>)"
| shut: "service_step f s (s\<lparr>sv_sup := (sv_sup s)\<lparr>sup_down := True\<rparr>\<rparr>)"
| check: "sup_phase (sv_sup s) = Checking \<Longrightarrow> service_step f s (sv_check s)"
| bind: "sv_task s = Binding \<Longrightarrow> service_step f s (sv_bind f bound s)"
| work: "\<lbrakk>i < length (sv_loops s); sf_step f (view f s (sv_loops s ! i)) l;
    sf_listening f l = sf_listening f (sv_loops s ! i); sf_sync f (sf_stats f l) (sup_now (sv_sup s)) l = l\<rbrakk> \<Longrightarrow>
    service_step f s (sv_work f i l s)"
| stop: "\<lbrakk>sv_task s = Looping; sup_down (sv_sup s)\<rbrakk> \<Longrightarrow>
    service_step f s ((stop_loop f s)\<lparr>sv_task := Finishing ServeOk\<rparr>)"
| panic: "\<lbrakk>sv_task s = Looping; sv_loops s = l # ls; sf_panics f (view f s l)\<rbrakk> \<Longrightarrow>
    service_step f s ((stop_loop f s)\<lparr>sv_task := Finishing ServePanic\<rparr>)"
| abort: "\<lbrakk>sup_phase (sv_sup s) = Serving t; sup_down (sv_sup s)\<rbrakk> \<Longrightarrow> service_step f s (sv_abort f s)"
| join: "\<lbrakk>sup_phase (sv_sup s) = Serving t; \<not> sup_down (sv_sup s); sv_task s = Finishing r\<rbrakk> \<Longrightarrow>
    service_step f s (sv_join r t s)"
| decide: "sup_phase (sv_sup s) = Deciding t \<Longrightarrow> service_step f s (sv_decide t s)"
| cancel: "\<lbrakk>sup_phase (sv_sup s) = Sleeping t; sup_down (sv_sup s)\<rbrakk> \<Longrightarrow>
    service_step f s (s\<lparr>sv_sup := (sv_sup s)\<lparr>sup_phase := Returned\<rparr>\<rparr>)"
| wake: "\<lbrakk>sup_phase (sv_sup s) = Sleeping t; t + sup_backoff (sv_sup s) \<le> sup_now (sv_sup s)\<rbrakk> \<Longrightarrow>
    service_step f s (s\<lparr>sv_sup := sup_wake (sv_sup s)\<rparr>)"

lemmas sv_defs = sv_check_def sv_work_def sv_abort_def sv_join_def sv_decide_def stop_loop_def

section \<open>The supervisor inside\<close>

text \<open>
  The supervisor of a service takes the steps of \<open>supervise\<close>; the serve task changes nothing of it
  but the counters.
\<close>

lemma service_supervises:
  assumes "service_step f s t"
  shows "supervise (sv_sup s) (sv_sup t) \<or> (\<exists>st. sv_sup t = (sv_sup s)\<lparr>sup_stats := st\<rparr>)"
  using assms
proof cases
  case (bind bound)
  then have "sv_sup t = sv_sup s" by (simp add: sv_bind_def split: sum.split)
  then show ?thesis by (intro disjI2 exI [of _ "sup_stats (sv_sup s)"]) simp
next
  case stop
  then have "sv_sup t = sv_sup s" by (simp add: stop_loop_def)
  then show ?thesis by (intro disjI2 exI [of _ "sup_stats (sv_sup s)"]) simp
next
  case panic
  then have "sv_sup t = sv_sup s" by (simp add: stop_loop_def)
  then show ?thesis by (intro disjI2 exI [of _ "sup_stats (sv_sup s)"]) simp
qed (auto simp: sv_defs pass_time_def intro: supervise.intros)

definition same_control :: "supervisor \<Rightarrow> supervisor \<Rightarrow> bool" where
  "same_control s t \<longleftrightarrow> s\<lparr>sup_stats := sup_stats t\<rparr> = t"

lemma same_control_iff:
  "same_control s t \<longleftrightarrow> sup_phase s = sup_phase t \<and> sup_backoff s = sup_backoff t \<and> sup_down s = sup_down t \<and>
     sup_now s = sup_now t"
  by (cases s; cases t) (auto simp: same_control_def)

text \<open>The supervisor never reads the counters.\<close>

lemma supervise_control:
  assumes "supervise s t" "same_control u s"
  shows "\<exists>v. supervise u v \<and> same_control v t"
  using assms(1)
proof cases
  case (elapse d)
  then show ?thesis using assms(2) supervise.elapse [of u d] by (auto simp: same_control_iff)
next
  case shut
  then show ?thesis using assms(2) supervise.shut [of u] by (auto simp: same_control_iff)
next
  case check
  then show ?thesis using assms(2) supervise.check [of u] by (auto simp: same_control_iff sup_check_def)
next
  case (abort x)
  then show ?thesis using assms(2) supervise.abort [of u x] by (auto simp: same_control_iff)
next
  case (joined x r)
  then show ?thesis using assms(2) supervise.joined [of u x r]
    by (intro exI [of _ "sup_joined r x u"]) (auto simp: same_control_iff sup_joined_def split: serve_outcome.split)
next
  case (decide x)
  then show ?thesis using assms(2) supervise.decide [of u x]
    by (intro exI [of _ "sup_decide x u"]) (auto simp: same_control_iff sup_decide_def Let_def)
next
  case (cancel x)
  then show ?thesis using assms(2) supervise.cancel [of u x] by (auto simp: same_control_iff)
next
  case (wake x)
  then show ?thesis using assms(2) supervise.wake [of u x] by (auto simp: same_control_iff sup_wake_def)
qed

text \<open>
  A service behaves like its supervisor on its own, so what holds of every run of \<open>supervise\<close> (the
  bounds of the backoff, the spacing of restarts, the shutdown) holds of it.
\<close>

lemma service_refines_supervisor:
  assumes "(service_step f)\<^sup>*\<^sup>* s t"
  shows "\<exists>u. supervise\<^sup>*\<^sup>* (sv_sup s) u \<and> same_control u (sv_sup t)"
  using assms
proof (induction rule: rtranclp_induct)
  case base
  show ?case by (intro exI [of _ "sv_sup s"]) (simp add: same_control_iff)
next
  case (step t t')
  then obtain u where u: "supervise\<^sup>*\<^sup>* (sv_sup s) u" "same_control u (sv_sup t)" by blast
  from service_supervises [OF step(2)] show ?case
  proof
    assume "supervise (sv_sup t) (sv_sup t')"
    from supervise_control [OF this u(2)] u(1) show ?thesis by (meson rtranclp.rtrancl_into_rtrancl)
  next
    assume "\<exists>st. sv_sup t' = (sv_sup t)\<lparr>sup_stats := st\<rparr>"
    with u show ?thesis by (intro exI [of _ u]) (auto simp: same_control_iff)
  qed
qed

lemma service_backoff:
  assumes "(service_step f)\<^sup>*\<^sup>* (service_start spec now) s"
  shows "\<exists>k. sup_backoff (sv_sup s) = min (BACKOFF_INITIAL * 2 ^ k) BACKOFF_MAX"
proof -
  obtain u where "supervise\<^sup>*\<^sup>* (supervise_start (stats_new (l_name spec) (proto_as_str (l_proto spec))) now) u"
    "same_control u (sv_sup s)" using service_refines_supervisor [OF assms] by (auto simp: service_start_def)
  with backing_off.inv_reachable [of "supervise_start (stats_new (l_name spec) (proto_as_str (l_proto spec))) now" u]
  show ?thesis by (auto simp: same_control_iff is_backoff_def)
qed

section \<open>The interface of a serve function\<close>

text \<open>
  What the supervisor relies on: the bind decides whether there is a loop, a fresh loop starts from
  the shared counters, its steps never touch the restart counter, the last error or the name, time
  may pass between them, it can be stopped, and with a target to choose it does not panic.
\<close>

locale serve_loop =
  fixes f :: "'l serve_fn" and spec :: listener_spec
  assumes serve_Err: "sf_serve f (Inl e) st now = Inl (bind_error (l_bind spec) e)"
    and serve_Ok: "\<exists>l. sf_serve f (Inr u) st now = Inr l"
    and serve_fresh: "sf_serve f bound st now = Inr l \<Longrightarrow>
      sf_listening f l \<and> sf_stats f l = st \<and> sf_sync f st now l = l"
    and sync_stats: "sf_stats f (sf_sync f st now l) = st"
    and sync_sync: "sf_sync f st now (sf_sync f st' now' l) = sf_sync f st now l"
    and sync_listening: "sf_listening f (sf_sync f st now l) = sf_listening f l"
    and sync_stop: "sf_sync f st now (sf_stop f l) = sf_stop f (sf_sync f st now l)"
    and clock: "sf_sync f st now l = l \<Longrightarrow> (sf_step f)\<^sup>*\<^sup>* l (sf_sync f st (now + d) l)"
    and stop_step: "sf_listening f l \<Longrightarrow> sf_step f l (sf_stop f l)"
    and stopped: "\<not> sf_listening f (sf_stop f l)"
    and step_keeps: "sf_step f l l' \<Longrightarrow>
      st_name (sf_stats f l') = st_name (sf_stats f l) \<and>
      st_restarts (sf_stats f l') = st_restarts (sf_stats f l) \<and>
      st_last_error (sf_stats f l') = st_last_error (sf_stats f l)"
    and no_panic: "l_targets spec \<noteq> [] \<Longrightarrow> \<not> sf_panics f l"

text \<open>The counters of a listener that has only failed to bind.\<close>

definition failed_stats :: "listener_spec \<Rightarrow> io_error list \<Rightarrow> nat \<Rightarrow> listener_stats" where
  "failed_stats spec es restarts =
     (stats_new (l_name spec) (proto_as_str (l_proto spec)))
       \<lparr>st_restarts := word_of_nat restarts, st_last_error := (case es of [] \<Rightarrow> None | e # _ \<Rightarrow> Some (io_msg e))\<rparr>"

text \<open>Before the first successful bind.\<close>

definition unbound :: "listener_spec \<Rightarrow> 'l service \<Rightarrow> bool" where
  "unbound spec s \<longleftrightarrow>
     sv_loops s = [] \<and>
     (let st = sup_stats (sv_sup s); es = sv_fails s in
      case sv_task s of
        NoServe \<Rightarrow>
          (case sup_phase (sv_sup s) of
             Serving _ \<Rightarrow> False
           | Deciding _ \<Rightarrow> es \<noteq> [] \<and> st = failed_stats spec es (length es - 1)
           | Returned \<Rightarrow> \<exists>es' n. st = failed_stats spec es' n
           | _ \<Rightarrow> st = failed_stats spec es (length es))
      | Binding \<Rightarrow> (\<exists>t. sup_phase (sv_sup s) = Serving t) \<and> st = failed_stats spec es (length es)
      | Looping \<Rightarrow> False
      | Finishing r \<Rightarrow> (\<exists>t. sup_phase (sv_sup s) = Serving t) \<and>
          (\<exists>e es'. es = e # es' \<and> r = ServeErr (io_msg e) \<and> st = failed_stats spec es' (length es')))"

text \<open>Since then: one loop, in a state it reaches on its own.\<close>

definition loop_run :: "'l serve_fn \<Rightarrow> listener_spec \<Rightarrow> io_error list \<Rightarrow> 'l \<Rightarrow> bool" where
  "loop_run f spec es v \<longleftrightarrow>
     (\<exists>now l0. sf_serve f (Ok ()) (failed_stats spec es (length es)) now = Ok l0 \<and> (sf_step f)\<^sup>*\<^sup>* l0 v)"

definition bound_once :: "'l serve_fn \<Rightarrow> listener_spec \<Rightarrow> 'l service \<Rightarrow> bool" where
  "bound_once f spec s \<longleftrightarrow>
     (\<exists>l. sv_loops s = [l] \<and> loop_run f spec (sv_fails s) (view f s l) \<and>
        (case sv_task s of
           Looping \<Rightarrow> sf_listening f l \<and> (\<exists>t. sup_phase (sv_sup s) = Serving t)
         | Finishing r \<Rightarrow> r = ServeOk \<and> \<not> sf_listening f l \<and> sup_down (sv_sup s) \<and> (\<exists>t. sup_phase (sv_sup s) = Serving t)
         | NoServe \<Rightarrow> sup_phase (sv_sup s) = Returned \<and> \<not> sf_listening f l
         | Binding \<Rightarrow> False))"

definition service_inv :: "'l serve_fn \<Rightarrow> listener_spec \<Rightarrow> 'l service \<Rightarrow> bool" where
  "service_inv f spec s \<longleftrightarrow> unbound spec s \<or> bound_once f spec s"

lemma loop_run_steps: "\<lbrakk>loop_run f spec es v; (sf_step f)\<^sup>*\<^sup>* v w\<rbrakk> \<Longrightarrow> loop_run f spec es w"
  unfolding loop_run_def by (meson rtranclp_trans)

lemma failed_stats_error: "set_last_error (io_msg e) (failed_stats spec es n) = failed_stats spec (e # es) n"
  by (simp add: set_last_error_def failed_stats_def)

lemma failed_stats_restart: "inc_restart (failed_stats spec es n) = failed_stats spec es (Suc n)"
  by (simp add: inc_restart_def failed_stats_def)

lemma service_inv_start: "service_inv f spec (service_start spec now)"
  by (simp add: service_inv_def unbound_def service_start_def supervise_start_def failed_stats_def stats_new_def)

text \<open>One failed bind, and the backoff after it.\<close>

definition after_failure :: "string \<Rightarrow> io_error \<Rightarrow> 'l service \<Rightarrow> 'l service" where
  "after_failure bind e s =
     s\<lparr>sv_sup := fail_cycle (ServeErr (io_msg (bind_error bind e))) 0 (sv_sup s), sv_task := NoServe,
       sv_fails := bind_error bind e # sv_fails s, sv_runs := 0 # sv_runs s\<rparr>"

context serve_loop
begin

lemma sync_view: "sf_sync f (sup_stats (sv_sup s)) (sup_now (sv_sup s)) (view f s l) = view f s l"
  by (simp add: view_def sync_sync)

lemma view_clock: "(sf_step f)\<^sup>*\<^sup>* (view f s l) (sf_sync f (sup_stats (sv_sup s)) (sup_now (sv_sup s) + d) l)"
  using clock [OF sync_view, of s l d] by (simp add: view_def sync_sync)

text \<open>A failed bind changes nothing but the history and, later, the restart counter and the last error.\<close>

lemma unbound_bind:
  assumes "unbound spec s" "sv_task s = Binding"
  shows "service_inv f spec (sv_bind f bound s)"
proof (cases bound)
  case (Inl e)
  with assms show ?thesis
    by (auto simp: service_inv_def unbound_def sv_bind_def serve_Err Let_def)
next
  case (Inr u)
  obtain l where l: "sf_serve f (Inr ()) (sup_stats (sv_sup s)) (sup_now (sv_sup s)) = Inr l"
    using serve_Ok by blast
  note fresh = serve_fresh [OF l]
  have st: "sv_loops s = []" "sup_stats (sv_sup s) = failed_stats spec (sv_fails s) (length (sv_fails s))"
    "\<exists>t. sup_phase (sv_sup s) = Serving t"
    using assms by (simp_all add: unbound_def Let_def)
  have "loop_run f spec (sv_fails s) l" using l unfolding loop_run_def st(2) by blast
  moreover have "sv_bind f bound s = s\<lparr>sv_task := Looping, sv_loops := [l]\<rparr>"
    using Inr l st(1) by (simp add: sv_bind_def)
  ultimately have "bound_once f spec (sv_bind f bound s)"
    using fresh st(3) by (simp add: bound_once_def view_def)
  then show ?thesis by (simp add: service_inv_def)
qed

lemma unbound_step:
  assumes inv: "unbound spec s" and step: "service_step f s t"
  shows "service_inv f spec t"
  using step
proof cases
  case (bind bound)
  then show ?thesis using unbound_bind [OF inv] by simp
next
  case (join u r)
  with inv show ?thesis
    by (auto simp: service_inv_def unbound_def sv_join_def sup_joined_def failed_stats_error Let_def)
next
  case (decide u)
  with inv show ?thesis
    by (auto simp: service_inv_def unbound_def sv_decide_def sup_decide_def Let_def failed_stats_restart
        split: serve_task.splits)
next
  case (abort u)
  with inv show ?thesis
    by (auto simp: service_inv_def unbound_def sv_abort_def stop_loop_def Let_def split: serve_task.splits)
next
  case check
  with inv show ?thesis
    by (auto simp: service_inv_def unbound_def sv_check_def sup_check_def Let_def split: serve_task.splits)
qed (use inv in \<open>auto simp: service_inv_def unbound_def sup_wake_def pass_time_def Let_def split: serve_task.splits sup_phase.splits\<close>)

lemma bound_stop:
  assumes "bound_once f spec s" "sv_task s = Looping"
  shows "\<exists>l. sv_loops s = [l] \<and> sv_loops (stop_loop f s) = [sf_stop f l] \<and>
     loop_run f spec (sv_fails s) (view f s (sf_stop f l)) \<and> \<not> sf_listening f (sf_stop f l)"
proof -
  obtain l where l: "sv_loops s = [l]" "loop_run f spec (sv_fails s) (view f s l)" "sf_listening f l"
    using assms by (auto simp: bound_once_def)
  have "sf_step f (view f s l) (sf_stop f (view f s l))"
    using l(3) by (intro stop_step) (simp add: view_def sync_listening)
  then have "loop_run f spec (sv_fails s) (sf_stop f (view f s l))"
    using loop_run_steps [OF l(2)] by blast
  then show ?thesis using l(1) assms(2) by (simp add: stop_loop_def view_def sync_stop stopped)
qed

lemma bound_step:
  assumes tgts: "l_targets spec \<noteq> []" and inv: "bound_once f spec s" and step: "service_step f s t"
  shows "bound_once f spec t"
  using step
proof cases
  case (elapse d)
  obtain l where l: "sv_loops s = [l]" "loop_run f spec (sv_fails s) (view f s l)"
    using inv by (auto simp: bound_once_def)
  have "loop_run f spec (sv_fails t) (view f t l)"
    using loop_run_steps [OF l(2) view_clock [of s l d]] elapse by (simp add: view_def pass_time_def)
  then show ?thesis using inv l elapse by (auto simp: bound_once_def pass_time_def split: serve_task.splits)
next
  case (work i w)
  obtain l where l: "sv_loops s = [l]" "loop_run f spec (sv_fails s) (view f s l)"
    using inv by (auto simp: bound_once_def)
  with work have "loop_run f spec (sv_fails s) w" using loop_run_steps [OF l(2)] by auto
  then show ?thesis using inv l work
    by (auto simp: bound_once_def sv_work_def view_def split: serve_task.splits)
next
  case stop
  from bound_stop [OF inv stop(2)] inv stop show ?thesis
    by (auto simp: bound_once_def view_def stop_loop_def)
next
  case (abort u)
  show ?thesis
  proof (cases "sv_task s = Looping")
    case True
    from bound_stop [OF inv True] abort True show ?thesis
      by (auto simp: bound_once_def view_def sv_abort_def stop_loop_def)
  next
    case False
    with abort inv show ?thesis
      by (cases "sv_task s") (auto simp: bound_once_def view_def sv_abort_def stop_loop_def)
  qed
next
  case check
  with inv show ?thesis by (cases "sv_task s") (auto simp: bound_once_def)
next
  case (decide u)
  with inv show ?thesis by (cases "sv_task s") (auto simp: bound_once_def)
qed (use inv no_panic [OF tgts] in \<open>auto simp: bound_once_def view_def split: serve_task.splits\<close>)

lemma service_inv_step: "\<lbrakk>l_targets spec \<noteq> []; service_inv f spec s; service_step f s t\<rbrakk> \<Longrightarrow> service_inv f spec t"
  using unbound_step bound_step unfolding service_inv_def by blast

end

sublocale serve_loop \<subseteq> supervised: machine "\<lambda>s. l_targets spec \<noteq> [] \<and> (\<exists>now. s = service_start spec now)"
  "service_step f" "\<lambda>s. l_targets spec \<noteq> [] \<and> service_inv f spec s"
  by unfold_locales (auto intro: service_inv_start service_inv_step)

context serve_loop
begin

text \<open>What the loop reports: as many restarts as binds failed, and the last of those errors.\<close>

lemma steps_keep:
  assumes "(sf_step f)\<^sup>*\<^sup>* l l'"
  shows "st_name (sf_stats f l') = st_name (sf_stats f l) \<and>
     st_restarts (sf_stats f l') = st_restarts (sf_stats f l) \<and>
     st_last_error (sf_stats f l') = st_last_error (sf_stats f l)"
  using assms by (induction rule: rtranclp_induct) (use step_keeps in fastforce)+

lemma loop_reports:
  assumes "loop_run f spec es (view f s l)"
  shows "st_restarts (sup_stats (sv_sup s)) = word_of_nat (length es) \<and>
     st_last_error (sup_stats (sv_sup s)) = (case es of [] \<Rightarrow> None | e # _ \<Rightarrow> Some (io_msg e))"
proof -
  obtain now l0 where l0: "sf_serve f (Ok ()) (failed_stats spec es (length es)) now = Inr l0"
    "(sf_step f)\<^sup>*\<^sup>* l0 (view f s l)" using assms by (auto simp: loop_run_def)
  from steps_keep [OF l0(2)] serve_fresh [OF l0(1)] show ?thesis
    by (simp add: view_def sync_stats failed_stats_def)
qed

lemma unbound_idle: "unbound spec s \<Longrightarrow> sv_loops s = [] \<and> sv_task s \<noteq> Looping \<and> st_active (sup_stats (sv_sup s)) = 0"
  by (auto simp: unbound_def Let_def failed_stats_def stats_new_def split: serve_task.splits sup_phase.splits)

text \<open>Every reachable service: nothing bound yet, or one loop in a state it reaches on its own.\<close>

lemma reachable_service:
  assumes "l_targets spec \<noteq> []" "(service_step f)\<^sup>*\<^sup>* (service_start spec now) s"
  obtains (unbound) "sv_loops s = []" "sv_task s \<noteq> Looping" "st_active (sup_stats (sv_sup s)) = 0"
  | (bound) l where "sv_loops s = [l]" "loop_run f spec (sv_fails s) (view f s l)"
      "st_restarts (sup_stats (sv_sup s)) = word_of_nat (length (sv_fails s))"
      "st_last_error (sup_stats (sv_sup s)) = (case sv_fails s of [] \<Rightarrow> None | e # _ \<Rightarrow> Some (io_msg e))"
proof -
  have "service_inv f spec s" using supervised.inv_reachable [OF _ assms(2)] assms(1) by blast
  then consider "Service.unbound spec s" | "bound_once f spec s" by (auto simp: service_inv_def)
  then show thesis
    by cases (use unbound unbound_idle bound loop_reports in \<open>auto simp: bound_once_def\<close>)
qed

text \<open>A step of the only loop.\<close>

lemma lone_work:
  assumes "sv_loops s = [l]" "view f s l = l" "sf_step f l k" "sf_listening f k = sf_listening f l"
    "sf_sync f (sf_stats f k) (sup_now (sv_sup s)) k = k"
  shows "service_step f s (s\<lparr>sv_loops := [k], sv_sup := (sv_sup s)\<lparr>sup_stats := sf_stats f k\<rparr>\<rparr>)"
proof -
  have "service_step f s (sv_work f 0 k s)" by (rule service_step.work) (use assms in simp_all)
  then show ?thesis using assms(1) by (simp add: sv_work_def)
qed

text \<open>A loop that runs goes on until the shutdown.\<close>

lemma looping_step:
  assumes "l_targets spec \<noteq> []" "bound_once f spec s" "sv_task s = Looping" "service_step f s t"
    "\<not> sup_down (sv_sup t)"
  shows "sv_task t = Looping \<and> sv_fails t = sv_fails s \<and> sup_phase (sv_sup t) = sup_phase (sv_sup s)"
  using assms(4)
  by cases (use assms no_panic [OF assms(1)] in \<open>auto simp: bound_once_def sv_defs pass_time_def\<close>)

lemma down_stays:
  assumes "service_step f s t" "sup_down (sv_sup s)"
  shows "sup_down (sv_sup t)"
  using assms(1)
  by cases (use assms(2) in \<open>auto simp: sv_defs sv_bind_def pass_time_def sup_step_defs split: sum.split serve_outcome.split\<close>)

lemma looping_stays:
  assumes "(service_step f)\<^sup>*\<^sup>* s t" "l_targets spec \<noteq> []" "bound_once f spec s" "sv_task s = Looping"
    "\<not> sup_down (sv_sup t)"
  shows "bound_once f spec t \<and> sv_task t = Looping \<and> sv_fails t = sv_fails s \<and>
     sup_phase (sv_sup t) = sup_phase (sv_sup s)"
  using assms
proof (induction rule: rtranclp_induct)
  case (step t u)
  then have "\<not> sup_down (sv_sup t)" using down_stays by blast
  with step.IH step.prems have t: "bound_once f spec t" "sv_task t = Looping" "sv_fails t = sv_fails s"
    "sup_phase (sv_sup t) = sup_phase (sv_sup s)" by blast+
  from looping_step [OF step.prems(1) t(1,2) step.hyps(2) step.prems(4)] bound_step [OF step.prems(1) t(1) step.hyps(2)] t
  show ?case by simp
qed simp

text \<open>Once the flag is set the supervisor is one step from its end, and the loop ends with it.\<close>

lemma returns:
  assumes "sup_down (sv_sup s)"
  shows "\<exists>t. (service_step f)\<^sup>*\<^sup>* s t \<and> sup_phase (sv_sup t) = Returned \<and>
     (sv_loops t = sv_loops s \<or> sv_loops t = sv_loops (stop_loop f s))"
proof (cases "sup_phase (sv_sup s)")
  case Checking
  from service_step.check [OF this, of f] assms show ?thesis
    by (intro exI [of _ "sv_check s"]) (auto simp: sv_check_def sup_check_def)
next
  case (Serving u)
  from service_step.abort [OF this assms, of f] show ?thesis
    by (intro exI [of _ "sv_abort f s"]) (auto simp: sv_abort_def)
next
  case (Deciding u)
  from service_step.decide [OF this, of f] assms show ?thesis
    by (intro exI [of _ "sv_decide u s"]) (auto simp: sv_decide_def sup_decide_def)
next
  case (Sleeping u)
  from service_step.cancel [OF this assms, of f] show ?thesis
    by (intro exI [of _ "s\<lparr>sv_sup := (sv_sup s)\<lparr>sup_phase := Returned\<rparr>\<rparr>"]) auto
qed blast

lemma returned_closed:
  assumes "l_targets spec \<noteq> []" "(service_step f)\<^sup>*\<^sup>* (service_start spec now) s" "sup_phase (sv_sup s) = Returned"
    "l \<in> set (sv_loops s)"
  shows "\<not> sf_listening f l"
proof -
  have "service_inv f spec s" using supervised.inv_reachable [OF _ assms(2)] assms(1) by blast
  then show ?thesis using assms(3,4)
    by (cases "sv_task s") (auto simp: service_inv_def unbound_def bound_once_def)
qed

lemma failure_steps:
  assumes "sup_phase (sv_sup s) = Checking" "\<not> sup_down (sv_sup s)"
  shows "(service_step f)\<^sup>*\<^sup>* s (after_failure (l_bind spec) e s)"
proof -
  let ?e = "bind_error (l_bind spec) e" and ?t = "sup_now (sv_sup s)"
  define a where "a = sv_check s"
  define b where "b = sv_bind f (Inl e) a"
  define c where "c = sv_join (ServeErr (io_msg ?e)) ?t b"
  define d where "d = sv_decide ?t c"
  define g where "g = d\<lparr>sv_sup := pass_time (sup_backoff (sv_sup d)) (sv_sup d)\<rparr>"
  define h where "h = g\<lparr>sv_sup := sup_wake (sv_sup g)\<rparr>"
  note facts = assms a_def b_def c_def d_def g_def h_def sv_check_def sup_check_def sv_bind_def serve_Err
    sv_join_def sup_joined_def sv_decide_def sup_decide_def Let_def pass_time_def
  have "service_step f s a" unfolding a_def by (rule service_step.check [OF assms(1)])
  moreover have "service_step f a b" unfolding b_def by (rule service_step.bind) (simp add: facts)
  moreover have "service_step f b c" unfolding c_def by (rule service_step.join) (simp_all add: facts)
  moreover have "service_step f c d" unfolding d_def by (rule service_step.decide) (simp add: facts)
  moreover have "service_step f d g" unfolding g_def by (rule service_step.elapse)
  moreover have "service_step f g h" unfolding h_def by (rule service_step.wake [of _ ?t]) (simp_all add: facts)
  ultimately have "(service_step f)\<^sup>*\<^sup>* s h" by (meson converse_rtranclp_into_rtranclp r_into_rtranclp)
  moreover have "h = after_failure (l_bind spec) e s" by (simp add: after_failure_def fail_cycle_def facts)
  ultimately show ?thesis by simp
qed

text \<open>Any number of failed binds in a row, then one that succeeds.\<close>

lemma comes_up:
  assumes "sup_phase (sv_sup s) = Checking" "\<not> sup_down (sv_sup s)"
  shows "\<exists>t l. (service_step f)\<^sup>*\<^sup>* s t \<and> sv_task t = Looping \<and> sv_loops t = l # sv_loops s \<and>
     sf_listening f l \<and> sv_fails t = rev (map (bind_error (l_bind spec)) es) @ sv_fails s \<and>
     sv_runs t = replicate (length es) 0 @ sv_runs s \<and>
     sv_sup t = sup_check (fail_cycles (map (\<lambda>e. (ServeErr (io_msg (bind_error (l_bind spec) e)), 0)) es) (sv_sup s))"
  using assms
proof (induction es arbitrary: s)
  case Nil
  let ?a = "sv_check s"
  obtain l where l: "sf_serve f (Inr ()) (sup_stats (sv_sup ?a)) (sup_now (sv_sup ?a)) = Inr l"
    using serve_Ok by blast
  have "service_step f s ?a" by (rule service_step.check [OF Nil(1)])
  moreover have "service_step f ?a (sv_bind f (Inr ()) ?a)"
    by (rule service_step.bind) (use Nil in \<open>simp add: sv_check_def\<close>)
  ultimately have "(service_step f)\<^sup>*\<^sup>* s (sv_bind f (Inr ()) ?a)"
    by (meson converse_rtranclp_into_rtranclp r_into_rtranclp)
  then show ?case using l serve_fresh [OF l]
    by (intro exI [of _ "sv_bind f (Inr ()) ?a"] exI [of _ l]) (simp add: sv_bind_def sv_check_def)
next
  case (Cons e es)
  let ?s = "after_failure (l_bind spec) e s"
  have "failing (ServeErr m)" for m by (simp add: failing_def)
  from fail_cycle_effect(1,2) [OF Cons.prems this, of _ 0]
  have "sup_phase (sv_sup ?s) = Checking" "\<not> sup_down (sv_sup ?s)" by (simp_all add: after_failure_def)
  from Cons.IH [OF this] obtain t l where "(service_step f)\<^sup>*\<^sup>* ?s t" "sv_task t = Looping" "sv_loops t = l # sv_loops ?s" "sf_listening f l"
    "sv_fails t = rev (map (bind_error (l_bind spec)) es) @ sv_fails ?s"
    "sv_runs t = replicate (length es) 0 @ sv_runs ?s"
    "sv_sup t = sup_check (fail_cycles (map (\<lambda>e. (ServeErr (io_msg (bind_error (l_bind spec) e)), 0)) es) (sv_sup ?s))"
    by blast
  with rtranclp_trans [OF failure_steps [OF Cons.prems, of e]] show ?case
    by (intro exI [of _ t] exI [of _ l]) (simp add: after_failure_def replicate_app_Cons_same)
qed

end

text \<open>How long a number of failed binds in a row takes.\<close>

lemma fail_cycles_time:
  assumes "sup_phase s = Checking" "\<not> sup_down s" "list_all (\<lambda>(r, d). failing r \<and> d = 0) fs"
    "sup_backoff s = min (BACKOFF_INITIAL * 2 ^ k) BACKOFF_MAX"
  shows "sup_now (fail_cycles fs s) =
     sup_now s + (\<Sum>i<length fs. min (BACKOFF_INITIAL * 2 ^ (k + i)) BACKOFF_MAX)"
  using assms
proof (induction fs s arbitrary: k rule: fail_cycles.induct)
  case (2 r d fs s)
  then have r: "failing r" "d = 0" "\<not> BACKOFF_HEALTHY \<le> d" by (auto simp: BACKOFF_HEALTHY_def)
  note e = fail_cycle_effect [OF 2(2,3) r(1), of d]
  have b: "sup_backoff (fail_cycle r d s) = min (BACKOFF_INITIAL * 2 ^ Suc k) BACKOFF_MAX"
    using e(4) r(3) 2(5) min_double_cap by simp
  have "sup_now (fail_cycle r d s) = sup_now s + min (BACKOFF_INITIAL * 2 ^ k) BACKOFF_MAX"
    using e(5) r(2,3) 2(5) by simp
  with 2(1) [OF e(1,2) _ b] 2(4) show ?case by (simp add: sum.lessThan_Suc_shift add.assoc del: sum.lessThan_Suc)
qed simp

definition bind_failures :: "listener_spec \<Rightarrow> io_error list \<Rightarrow> (serve_outcome \<times> millis) list" where
  "bind_failures spec es = map (\<lambda>e. (ServeErr (io_msg (bind_error (l_bind spec) e)), 0)) es"

text \<open>
  There is a run in which the listener serves after the failed binds \<open>es\<close>, each of which took no
  time, and \<open>d\<close> milliseconds. (That it cannot be earlier is \<open>paced\<close>, below.)
\<close>

definition serves_after :: "'l serve_fn \<Rightarrow> listener_spec \<Rightarrow> io_error list \<Rightarrow> millis \<Rightarrow> bool" where
  "serves_after f spec es d \<longleftrightarrow>
     (\<forall>now. \<exists>s l. (service_step f)\<^sup>*\<^sup>* (service_start spec now) s \<and> sv_task s = Looping \<and> sv_loops s = [l] \<and>
        sf_listening f l \<and> sv_fails s = rev (map (bind_error (l_bind spec)) es) \<and>
        sv_runs s = replicate (length es) 0 \<and>
        sup_now (sv_sup s) = now + d \<and> \<not> sup_down (sv_sup s))"

context serve_loop
begin

lemma serves_afterI:
  shows "serves_after f spec es (\<Sum>i<length es. min (BACKOFF_INITIAL * 2 ^ i) BACKOFF_MAX)"
  unfolding serves_after_def
proof
  fix now
  let ?s = "service_start spec now :: 'l service" and ?fs = "bind_failures spec es"
  have s: "sup_phase (sv_sup ?s) = Checking" "\<not> sup_down (sv_sup ?s)" "sup_now (sv_sup ?s) = now"
    "sup_backoff (sv_sup ?s) = min (BACKOFF_INITIAL * 2 ^ 0) BACKOFF_MAX"
    by (simp_all add: service_start_def supervise_start_def BACKOFF_INITIAL_def BACKOFF_MAX_def)
  obtain t l where t: "(service_step f)\<^sup>*\<^sup>* ?s t" "sv_task t = Looping" "sv_loops t = [l]" "sf_listening f l"
    "sv_fails t = rev (map (bind_error (l_bind spec)) es)" "sv_runs t = replicate (length es) 0"
    "sv_sup t = sup_check (fail_cycles ?fs (sv_sup ?s))"
    using comes_up [OF s(1,2), of es] by (auto simp: service_start_def bind_failures_def)
  have fs: "list_all (\<lambda>(r, d). failing r \<and> d = 0) ?fs" "list_all (\<lambda>(r, d). failing r) ?fs" "length ?fs = length es"
    by (simp_all add: bind_failures_def list_all_iff failing_def)
  note run = fail_cycles_run [OF s(1,2) fs(2)] and time = fail_cycles_time [OF s(1,2) fs(1) s(4)]
  with t run time s(3) fs(3) show "\<exists>s l. (service_step f)\<^sup>*\<^sup>* ?s s \<and> sv_task s = Looping \<and> sv_loops s = [l] \<and>
      sf_listening f l \<and> sv_fails s = rev (map (bind_error (l_bind spec)) es) \<and>
      sv_runs s = replicate (length es) 0 \<and> sup_now (sv_sup s) = now + (\<Sum>i<length es. min (BACKOFF_INITIAL * 2 ^ i) BACKOFF_MAX) \<and> \<not> sup_down (sv_sup s)"
    by (intro exI [of _ t] exI [of _ l]) (auto simp: sup_check_def)
qed

end

section \<open>The pace of the restarts\<close>

text \<open>
  What the measured run times, newest first, determine: the backoff of the next failure (doubled
  after each pause, started again after a run that was healthy, capped) and the time that runs and
  pauses have taken together.
\<close>

fun next_backoff :: "millis list \<Rightarrow> millis" where
  "next_backoff [] = BACKOFF_INITIAL"
| "next_backoff (d # ds) = min ((if BACKOFF_HEALTHY \<le> d then BACKOFF_INITIAL else next_backoff ds) * 2) BACKOFF_MAX"

fun waited :: "millis list \<Rightarrow> millis" where
  "waited [] = 0"
| "waited (d # ds) = waited ds + d + (if BACKOFF_HEALTHY \<le> d then BACKOFF_INITIAL else next_backoff ds)"

lemma next_backoff_unhealthy:
  "list_all (\<lambda>d. d < BACKOFF_HEALTHY) ds \<Longrightarrow> next_backoff ds = min (BACKOFF_INITIAL * 2 ^ length ds) BACKOFF_MAX"
proof (induction ds)
  case (Cons d ds)
  then show ?case using min_double_cap [of BACKOFF_INITIAL "length ds" BACKOFF_MAX] by (simp add: mult.commute)
qed (simp add: BACKOFF_INITIAL_def BACKOFF_MAX_def)

lemma waited_unhealthy:
  "list_all (\<lambda>d. d < BACKOFF_HEALTHY) ds \<Longrightarrow>
     waited ds = sum_list ds + (\<Sum>i<length ds. min (BACKOFF_INITIAL * 2 ^ i) BACKOFF_MAX)"
  by (induction ds) (simp_all add: next_backoff_unhealthy)

text \<open>Where the time of a service is, by the phase of its supervisor.\<close>

definition pace_inv :: "millis \<Rightarrow> 'l service \<Rightarrow> bool" where
  "pace_inv start s \<longleftrightarrow>
     (let v = sv_sup s; ds = sv_runs s in
      case sup_phase v of
        Checking \<Rightarrow> sup_backoff v = next_backoff ds \<and> start + waited ds \<le> sup_now v
      | Serving t \<Rightarrow> sup_backoff v = next_backoff ds \<and> start + waited ds \<le> t \<and> t \<le> sup_now v
      | Deciding t \<Rightarrow> sup_backoff v = next_backoff ds \<and> start + waited ds \<le> t \<and> t \<le> sup_now v
      | Sleeping t \<Rightarrow> min (sup_backoff v * 2) BACKOFF_MAX = next_backoff ds \<and> start + waited ds \<le> t + sup_backoff v
      | Returned \<Rightarrow> True)"

lemma pace_start: "pace_inv now (service_start spec now)"
  by (simp add: pace_inv_def service_start_def supervise_start_def)

lemma pace_step:
  assumes inv: "pace_inv start s" and step: "service_step f s t"
  shows "pace_inv start t"
  using step
proof cases
  case (bind bound)
  with inv show ?thesis by (auto simp: pace_inv_def sv_bind_def split: sum.splits)
next
  case (join u r)
  with inv show ?thesis by (cases r) (auto simp: pace_inv_def sv_join_def sup_joined_def Let_def)
next
  case (decide u)
  with inv show ?thesis by (auto simp: pace_inv_def sv_decide_def sup_decide_def Let_def)
next
  case (wake u)
  with inv show ?thesis by (auto simp: pace_inv_def sup_wake_def Let_def)
next
  case check
  with inv show ?thesis by (auto simp: pace_inv_def sv_check_def sup_check_def Let_def)
next
  case (elapse d)
  with inv show ?thesis by (auto simp: pace_inv_def pass_time_def Let_def split: sup_phase.splits)
qed (use inv in \<open>auto simp: pace_inv_def sv_defs Let_def split: if_splits sup_phase.splits\<close>)

interpretation pacing: machine "\<lambda>s. s = service_start spec start" "service_step f" "pace_inv start" for spec start f
  by unfold_locales (auto intro: pace_start pace_step)

text \<open>As many decisions to restart as binds failed, while a serve task is on its way or running.\<close>

definition runs_ok :: "'l service \<Rightarrow> bool" where
  "runs_ok s \<longleftrightarrow>
     (case sv_task s of
        NoServe \<Rightarrow>
          (case sup_phase (sv_sup s) of
             Deciding _ \<Rightarrow> length (sv_fails s) = Suc (length (sv_runs s))
           | Returned \<Rightarrow> True
           | _ \<Rightarrow> length (sv_fails s) = length (sv_runs s))
      | Finishing (ServeErr _) \<Rightarrow> length (sv_fails s) = Suc (length (sv_runs s))
      | Finishing _ \<Rightarrow> True
      | _ \<Rightarrow> length (sv_fails s) = length (sv_runs s))"

context serve_loop
begin

lemma runs_step:
  assumes tgts: "l_targets spec \<noteq> []" and inv: "service_inv f spec s" "runs_ok s" and step: "service_step f s t"
  shows "runs_ok t"
  using step
proof cases
  case (bind bound)
  with inv(2) show ?thesis by (auto simp: runs_ok_def sv_bind_def split: sum.splits)
next
  case check
  with inv show ?thesis
    by (cases "sv_task s") (auto simp: runs_ok_def sv_check_def sup_check_def service_inv_def unbound_def bound_once_def Let_def)
next
  case (join u r)
  with inv show ?thesis
    by (cases r) (auto simp: runs_ok_def sv_join_def sup_joined_def service_inv_def unbound_def bound_once_def Let_def)
next
  case (decide u)
  with inv show ?thesis
    by (cases "sv_task s") (auto simp: runs_ok_def sv_decide_def sup_decide_def service_inv_def unbound_def bound_once_def Let_def)
next
  case (wake u)
  with inv(2) show ?thesis by (cases "sv_task s") (auto simp: runs_ok_def sup_wake_def split: serve_outcome.splits)
next
  case (cancel u)
  with inv(2) show ?thesis by (cases "sv_task s") (auto simp: runs_ok_def split: serve_outcome.splits)
next
  case (abort u)
  then show ?thesis by (simp add: runs_ok_def sv_abort_def)
next
  case panic
  then show ?thesis using no_panic [OF tgts] by blast
next
  case stop
  then show ?thesis by (simp add: runs_ok_def)
qed (use inv(2) in \<open>auto simp: runs_ok_def pass_time_def sv_work_def cong: serve_task.case_cong serve_outcome.case_cong sup_phase.case_cong\<close>)

lemma runs_reachable:
  assumes "l_targets spec \<noteq> []" "(service_step f)\<^sup>*\<^sup>* (service_start spec now) s"
  shows "runs_ok s"
  using assms(2)
proof (induction rule: rtranclp_induct)
  case base
  show ?case by (simp add: runs_ok_def service_start_def supervise_start_def)
next
  case (step s t)
  have "service_inv f spec s" using supervised.inv_reachable [OF _ step(1)] assms(1) by blast
  from runs_step [OF assms(1) this step(3,2)] show ?case .
qed

end

text \<open>
  No serve task of the service starts before the runs and the pauses before it are over: a serve
  task that binds or loops and was started at \<open>t\<close> comes after one decision to restart for every bind
  that failed, and \<open>t\<close> is late enough for all of them. When no run was healthy, the pauses are 100,
  200, 400, ... milliseconds, capped at 5 seconds.
\<close>

definition paced :: "'l serve_fn \<Rightarrow> listener_spec \<Rightarrow> bool" where
  "paced f spec \<longleftrightarrow>
     (\<forall>now s t. (service_step f)\<^sup>*\<^sup>* (service_start spec now) s \<and> sup_phase (sv_sup s) = Serving t \<and>
        (sv_task s = Binding \<or> sv_task s = Looping) \<longrightarrow>
        length (sv_runs s) = length (sv_fails s) \<and> now + waited (sv_runs s) \<le> t \<and> t \<le> sup_now (sv_sup s) \<and>
        (list_all (\<lambda>d. d < BACKOFF_HEALTHY) (sv_runs s) \<longrightarrow>
           waited (sv_runs s) = sum_list (sv_runs s) + (\<Sum>i<length (sv_fails s). min (100 * 2 ^ i) 5000)))"

context serve_loop
begin

lemma service_paced:
  assumes "l_targets spec \<noteq> []"
  shows "paced f spec"
  unfolding paced_def
proof (intro allI impI)
  fix now s t
  assume a: "(service_step f)\<^sup>*\<^sup>* (service_start spec now) s \<and> sup_phase (sv_sup s) = Serving t \<and>
        (sv_task s = Binding \<or> sv_task s = Looping)"
  then have "pace_inv now s" using pacing.inv_reachable by blast
  with a have "now + waited (sv_runs s) \<le> t \<and> t \<le> sup_now (sv_sup s)" by (simp add: pace_inv_def Let_def)
  moreover have "length (sv_runs s) = length (sv_fails s)"
    using runs_reachable [OF assms, of now s] a by (auto simp: runs_ok_def)
  ultimately show "length (sv_runs s) = length (sv_fails s) \<and> now + waited (sv_runs s) \<le> t \<and> t \<le> sup_now (sv_sup s) \<and>
        (list_all (\<lambda>d. d < BACKOFF_HEALTHY) (sv_runs s) \<longrightarrow>
           waited (sv_runs s) = sum_list (sv_runs s) + (\<Sum>i<length (sv_fails s). min (100 * 2 ^ i) 5000))"
    using waited_unhealthy [of "sv_runs s"] by (simp add: BACKOFF_INITIAL_def BACKOFF_MAX_def)
qed

end

section \<open>The two protocols\<close>

lemma tcp_step_keeps:
  "tcp_step tgts l l' \<Longrightarrow> st_name (tl_stats l') = st_name (tl_stats l) \<and>
     st_restarts (tl_stats l') = st_restarts (tl_stats l) \<and> st_last_error (tl_stats l') = st_last_error (tl_stats l)"
  by (cases rule: tcp_step.cases)
    (auto simp: tcp_accept_def tcp_accept_error_def task_begin_def task_finish_def inc_error_def on_accept_def
      guard_drop_def split: option.splits)

lemma udp_step_keeps:
  "udp_step tgts l l' \<Longrightarrow> st_name (ul_stats l') = st_name (ul_stats l) \<and>
     st_restarts (ul_stats l') = st_restarts (ul_stats l) \<and> st_last_error (ul_stats l') = st_last_error (ul_stats l)"
  by (cases rule: udp_step.cases)
    (auto simp: udp_received_def udp_opened_def open_session_def spawn_reverse_def forward_datagram_def
      udp_recv_error_def rev_reply_def rev_timeout_def rev_remove_def rev_end_def set_phase_def inc_error_def
      on_accept_def guard_drop_def Let_def split: option.splits sum.splits)

interpretation tcp_service: serve_loop "tcp_fn spec" spec for spec
  by unfold_locales
    (auto simp: tcp_fn_def tcp_serve_def pick_target_def result_iffs dest: tcp_step_keeps intro: tcp_step.stop)

lemma udp_clock_step:
  assumes "sf_sync (udp_fn spec) st now l = l"
  shows "(sf_step (udp_fn spec))\<^sup>*\<^sup>* l (sf_sync (udp_fn spec) st (now + d) l)"
proof -
  have "ul_stats l = st" "ul_now l = now"
    using arg_cong [OF assms, of ul_stats] arg_cong [OF assms, of ul_now] by (simp_all add: udp_fn_def)
  then have "sf_sync (udp_fn spec) st (now + d) l = l\<lparr>ul_now := ul_now l + d\<rparr>" by (simp add: udp_fn_def)
  then show ?thesis using udp_step.elapse [of "l_targets spec" l d] by (simp add: udp_fn_def r_into_rtranclp)
qed

interpretation udp_service: serve_loop "udp_fn spec" spec for spec
proof unfold_locales
  show "(sf_step (udp_fn spec))\<^sup>*\<^sup>* l (sf_sync (udp_fn spec) st (now + d) l)"
    if "sf_sync (udp_fn spec) st now l = l" for st now l d using that by (rule udp_clock_step)
qed (auto simp: udp_fn_def udp_serve_def udp_pick_target_def result_iffs dest: udp_step_keeps intro: udp_step.stop)

section \<open>Properties\<close>

lemma failed_stats_idle [simp]: "st_active (failed_stats spec es n) = 0"
  by (simp add: failed_stats_def stats_new_def)

lemma tcp_service_inv:
  assumes "l_targets spec \<noteq> []" "(service_step (tcp_fn spec))\<^sup>*\<^sup>* (service_start spec now) s" "l \<in> set (sv_loops s)"
  shows "sv_loops s = [l] \<and> tcp_inv (l_targets spec) (l\<lparr>tl_stats := sup_stats (sv_sup s)\<rparr>)"
  using assms(1,2)
proof (cases rule: tcp_service.reachable_service)
  case (bound k)
  let ?v = "view (tcp_fn spec) s k"
  obtain l0 where "tcp_serve (Ok ()) spec (failed_stats spec (sv_fails s) (length (sv_fails s))) = Inr l0"
    "(tcp_step (l_targets spec))\<^sup>*\<^sup>* l0 ?v" using bound(2) by (auto simp: loop_run_def tcp_fn_def)
  from tcp_reachable [OF this(1) failed_stats_idle assms(1) this(2)] bound(1) assms(3) show ?thesis
    by (simp add: view_def tcp_fn_def)
qed (use assms(3) in simp)

text \<open>A bind that succeeds at the first attempt, and a connection that is accepted.\<close>

definition tcp_up :: "listener_spec \<Rightarrow> millis \<Rightarrow> tcp_listener service" where
  "tcp_up spec now =
     (sv_check (service_start spec now))
       \<lparr>sv_task := Looping, sv_loops := [tcp_start (stats_new (l_name spec) (proto_as_str (l_proto spec)))]\<rparr>"

lemma tcp_up_steps: "(service_step (tcp_fn spec))\<^sup>*\<^sup>* (service_start spec now) (tcp_up spec now)"
proof -
  let ?s = "service_start spec now :: tcp_listener service"
  have s: "sup_phase (sv_sup ?s) = Checking" "\<not> sup_down (sv_sup ?s)"
    by (simp_all add: service_start_def supervise_start_def)
  have "service_step (tcp_fn spec) ?s (sv_check ?s)" by (rule service_step.check [OF s(1)])
  moreover have "service_step (tcp_fn spec) (sv_check ?s) (sv_bind (tcp_fn spec) (Inr ()) (sv_check ?s))"
    by (rule service_step.bind) (use s in \<open>simp add: sv_check_def\<close>)
  moreover have "sv_bind (tcp_fn spec) (Inr ()) (sv_check ?s) = tcp_up spec now"
    by (simp add: tcp_up_def sv_bind_def tcp_fn_def tcp_serve_def tcp_start_def sv_check_def sup_check_def
        service_start_def supervise_start_def)
  ultimately show ?thesis by (simp add: converse_rtranclp_into_rtranclp r_into_rtranclp)
qed

lemma tcp_accept_work:
  assumes "sv_loops s = [l]" "tl_listening l" "tcp_accept (l_targets spec) l = Some k" "tl_stats l = sup_stats (sv_sup s)"
  shows "service_step (tcp_fn spec) s (s\<lparr>sv_loops := [k]\<rparr>)" "tl_listening k" "tl_stats k = tl_stats l"
proof -
  show k: "tl_listening k" "tl_stats k = tl_stats l"
    using assms(2,3) by (auto simp: tcp_accept_def split: option.splits)
  have "view (tcp_fn spec) s l = l" using assms(4) by (simp add: view_def tcp_fn_def)
  from tcp_service.lone_work [OF assms(1) this, of k] assms(2,3) k
  have "service_step (tcp_fn spec) s (s\<lparr>sv_loops := [k], sv_sup := (sv_sup s)\<lparr>sup_stats := tl_stats k\<rparr>\<rparr>)"
    by (simp add: tcp_fn_def tcp_step.accept)
  then show "service_step (tcp_fn spec) s (s\<lparr>sv_loops := [k]\<rparr>)" using assms(4) k by simp
qed

text \<open>
  C19: A supervised TCP listener, however often its bind fails before it succeeds and whatever its
  connections do: there is at most one accept loop in the life of the program, the active gauge is
  the number of running connection tasks, connection number \<open>i\<close> (from zero) goes to target \<open>i\<close> modulo
  the number of targets, and once the loop runs the restart counter is the number of failed binds
  and the last error is that of the last of them.
\<close>

theorem tcp_service_accounts:
  assumes "l_targets spec \<noteq> []" "(service_step (tcp_fn spec))\<^sup>*\<^sup>* (service_start spec now) s"
  shows "case sv_loops s of
     [] \<Rightarrow> sv_task s \<noteq> Looping \<and> st_active (sup_stats (sv_sup s)) = 0
   | [l] \<Rightarrow>
       st_active (sup_stats (sv_sup s)) = word_of_nat (card (running l)) \<and> finite (running l) \<and>
       (\<forall>i task. tl_tasks l i = Some task \<longrightarrow>
          i < tl_next l \<and> task_target task = l_targets spec ! (i mod 2 ^ 64 mod length (l_targets spec))) \<and>
       st_restarts (sup_stats (sv_sup s)) = word_of_nat (length (sv_fails s)) \<and>
       st_last_error (sup_stats (sv_sup s)) = (case sv_fails s of [] \<Rightarrow> None | e # _ \<Rightarrow> Some (io_msg e))
   | _ \<Rightarrow> False"
  using assms
proof (cases rule: tcp_service.reachable_service)
  case (bound l)
  then have "tcp_inv (l_targets spec) (l\<lparr>tl_stats := sup_stats (sv_sup s)\<rparr>)"
    using tcp_service_inv [OF assms, of l] by simp
  then show ?thesis using bound by (simp add: tcp_inv_def running_def)
qed simp

text \<open>A listener that came up at its second attempt.\<close>

lemma sample_service:
  obtains s l where "(service_step (tcp_fn sample_spec))\<^sup>*\<^sup>* (service_start sample_spec 0) s" "sv_task s = Looping"
    "sv_loops s = [l]" "sv_fails s = [bind_error ''0.0.0.0:80'' refused]" "\<not> sup_down (sv_sup s)"
proof -
  have "l_bind sample_spec = ''0.0.0.0:80''" by (simp add: sample_spec_def)
  with spec [OF tcp_service.serves_afterI [of sample_spec "[refused]", unfolded serves_after_def], of 0] that
  show thesis by auto
qed

lemma sample_targets: "l_targets sample_spec \<noteq> []"
  by (simp add: sample_spec_def)

theorem tcp_service_accounts_witness:
  "\<exists>s. (service_step (tcp_fn sample_spec))\<^sup>*\<^sup>* (service_start sample_spec 0) s \<and> sv_task s = Looping \<and>
     st_restarts (sup_stats (sv_sup s)) = 1 \<and>
     st_last_error (sup_stats (sv_sup s)) = Some (io_msg (bind_error ''0.0.0.0:80'' refused))"
proof -
  obtain s l where s: "(service_step (tcp_fn sample_spec))\<^sup>*\<^sup>* (service_start sample_spec 0) s" "sv_task s = Looping"
    "sv_loops s = [l]" "sv_fails s = [bind_error ''0.0.0.0:80'' refused]" by (rule sample_service)
  from tcp_service_accounts [OF sample_targets s(1)] s show ?thesis by (intro exI [of _ s]) simp
qed

text \<open>So whatever holds of every run of the receive loop holds of the loop of a service.\<close>

lemma udp_service_run:
  assumes "l_targets spec \<noteq> []" "(service_step (udp_fn spec))\<^sup>*\<^sup>* (service_start spec now) s" "l \<in> set (sv_loops s)"
  obtains start l0 where "sv_loops s = [l]"
    "udp_serve (Ok ()) spec (failed_stats spec (sv_fails s) (length (sv_fails s))) start = Inr l0"
    "(udp_step (l_targets spec))\<^sup>*\<^sup>* l0 (l\<lparr>ul_stats := sup_stats (sv_sup s), ul_now := sup_now (sv_sup s)\<rparr>)"
  using assms(1,2)
proof (cases rule: udp_service.reachable_service)
  case (bound k)
  with assms(3) that show thesis by (auto simp: loop_run_def udp_fn_def view_def)
qed (use assms(3) in simp)

lemma udp_service_inv:
  assumes "l_targets spec \<noteq> []" "(service_step (udp_fn spec))\<^sup>*\<^sup>* (service_start spec now) s" "l \<in> set (sv_loops s)"
  shows "sv_loops s = [l] \<and> udp_inv (l\<lparr>ul_stats := sup_stats (sv_sup s), ul_now := sup_now (sv_sup s)\<rparr>)"
  using udp_service_run [OF assms] udp_reachable(1) [OF _ failed_stats_idle] by metis

lemma udp_service_clients:
  assumes "l_targets spec \<noteq> []" "(service_step (udp_fn spec))\<^sup>*\<^sup>* (service_start spec now) s" "l \<in> set (sv_loops s)"
  shows "table_of l peer = Some target \<Longrightarrow> target \<in> set (l_targets spec)"
    "\<lbrakk>e \<in> set (ul_sent l); e' \<in> set (ul_sent l); ev_out e = ev_out e'\<rbrakk> \<Longrightarrow> ev_client e = ev_client e'"
proof -
  let ?v = "l\<lparr>ul_stats := sup_stats (sv_sup s), ul_now := sup_now (sv_sup s)\<rparr>"
  obtain start l0 where
    "udp_serve (Ok ()) spec (failed_stats spec (sv_fails s) (length (sv_fails s))) start = Inr l0"
    "(udp_step (l_targets spec))\<^sup>*\<^sup>* l0 ?v" by (rule udp_service_run [OF assms])
  note run = this(1) failed_stats_idle this(2)
  have "table_of ?v = table_of l" by (rule table_of_cong) simp_all
  with udp_table_targets [OF run] show "table_of l peer = Some target \<Longrightarrow> target \<in> set (l_targets spec)" by simp
  show "\<lbrakk>e \<in> set (ul_sent l); e' \<in> set (ul_sent l); ev_out e = ev_out e'\<rbrakk> \<Longrightarrow> ev_client e = ev_client e'"
    using udp_isolated [OF run, of e e'] by simp
qed

text \<open>A step of the service is at most one step of the address translation.\<close>

lemma udp_service_translates:
  assumes "l_targets spec \<noteq> []" "(service_step (udp_fn spec))\<^sup>*\<^sup>* (service_start spec now) s" "k \<in> set (sv_loops s)"
    "service_step (udp_fn spec) s t" "k' \<in> set (sv_loops t)"
  shows "translation (l_targets spec) (table_of k) (table_of k')"
proof -
  let ?v = "k\<lparr>ul_stats := sup_stats (sv_sup s), ul_now := sup_now (sv_sup s)\<rparr>"
  obtain start l0 where loops: "sv_loops s = [k]" and run:
    "udp_serve (Ok ()) spec (failed_stats spec (sv_fails s) (length (sv_fails s))) start = Inr l0"
    "(udp_step (l_targets spec))\<^sup>*\<^sup>* l0 ?v" by (rule udp_service_run [OF assms(1-3)])
  have t: "sv_loops t = [k']"
    using udp_service_inv [OF assms(1) rtranclp.rtrancl_into_rtrancl [OF assms(2,4)] assms(5)] by simp
  have v: "table_of ?v = table_of k" by (rule table_of_cong) simp_all
  have stopped: "table_of (sf_stop (udp_fn spec) k) = table_of k"
    by (rule table_of_cong) (simp_all add: udp_fn_def)
  consider "k' = k" | "k' = sf_stop (udp_fn spec) k" | "udp_step (l_targets spec) ?v k'"
    using assms(4)
  proof cases
    case (bind bound)
    with t loops that show thesis by (auto simp: sv_bind_def split: sum.splits)
  next
    case (work i l)
    with t loops that show thesis by (auto simp: sv_work_def view_def udp_fn_def)
  qed (use t loops that in \<open>auto simp: sv_defs split: if_splits\<close>)
  then show ?thesis
    using udp_step_translates [OF run(1) failed_stats_idle run(2)] v stopped
    by cases (auto intro: translation.keep)
qed

text \<open>
  C10: A supervised UDP listener: there is at most one receive loop in the life of the program; a client
  has an entry in its session table exactly when exactly one reverse task serves it that has not yet
  taken its entry out, so no task removes the entry of another session and no entry outlives its
  task; the active gauge is the number of sessions whose task still runs, and the restart counter
  the number of binds that failed before the loop ran.
\<close>

theorem udp_service_accounts:
  assumes "l_targets spec \<noteq> []" "(service_step (udp_fn spec))\<^sup>*\<^sup>* (service_start spec now) s"
  shows "case sv_loops s of
     [] \<Rightarrow> sv_task s \<noteq> Looping \<and> st_active (sup_stats (sv_sup s)) = 0
   | [l] \<Rightarrow>
       (\<forall>peer i. lookup l peer = Some i \<longleftrightarrow>
          (\<exists>task. ul_tasks l i = Some task \<and> owns task \<and> rv_peer task = peer)) \<and>
       finite (dom (ul_tasks l)) \<and> st_active (sup_stats (sv_sup s)) = word_of_nat (card (dom (ul_tasks l))) \<and>
       st_restarts (sup_stats (sv_sup s)) = word_of_nat (length (sv_fails s))
   | _ \<Rightarrow> False"
  using assms
proof (cases rule: udp_service.reachable_service)
  case (bound l)
  then have "udp_inv (l\<lparr>ul_stats := sup_stats (sv_sup s), ul_now := sup_now (sv_sup s)\<rparr>)"
    using udp_service_inv [OF assms, of l] by simp
  then show ?thesis using bound by (simp add: udp_inv_def table_ok_def gauge_ok_def lookup_def)
qed simp

text \<open>A UDP listener that is up and gets its first datagram.\<close>

definition udp_up :: "listener_spec \<Rightarrow> udp_listener service" where
  "udp_up spec =
     (sv_check (service_start spec 0))
       \<lparr>sv_task := Looping, sv_loops := [udp_start (stats_new (l_name spec) (proto_as_str (l_proto spec))) 0]\<rparr>"

lemma udp_up_steps: "(service_step (udp_fn spec))\<^sup>*\<^sup>* (service_start spec 0) (udp_up spec)"
proof -
  let ?s = "service_start spec 0 :: udp_listener service"
  have s: "sup_phase (sv_sup ?s) = Checking" "\<not> sup_down (sv_sup ?s)"
    by (simp_all add: service_start_def supervise_start_def)
  have "service_step (udp_fn spec) ?s (sv_check ?s)" by (rule service_step.check [OF s(1)])
  moreover have "service_step (udp_fn spec) (sv_check ?s) (sv_bind (udp_fn spec) (Inr ()) (sv_check ?s))"
    by (rule service_step.bind) (use s in \<open>simp add: sv_check_def\<close>)
  moreover have "sv_bind (udp_fn spec) (Inr ()) (sv_check ?s) = udp_up spec"
    by (simp add: udp_up_def sv_bind_def udp_fn_def udp_serve_def udp_start_def sv_check_def sup_check_def
        service_start_def supervise_start_def)
  ultimately show ?thesis by (simp add: converse_rtranclp_into_rtranclp r_into_rtranclp)
qed

lemma udp_first_client:
  assumes "l_targets spec = target # rest_targets"
  shows "\<exists>s l. (service_step (udp_fn spec))\<^sup>*\<^sup>* (service_start spec 0) s \<and> sv_loops s = [l] \<and>
     ul_sessions l = [peer \<mapsto> \<lparr>ss_out = 0\<rparr>] \<and>
     ul_tasks l = [0 \<mapsto> \<lparr>rv_peer = peer, rv_target = target, rv_phase = RevLoop 0\<rparr>]"
proof -
  let ?s = "udp_up spec" and ?f = "udp_fn spec" and ?ts = "l_targets spec"
  define l where "l = udp_start (stats_new (l_name spec) (proto_as_str (l_proto spec))) 0"
  define rr :: u64 where "rr = (if length ?ts = 1 then 0 else 1)"
  define a where "a = l\<lparr>ul_rr := rr, ul_pc := Opening peer target [7]\<rparr>"
  define b where "b = udp_opened (Ok peer) peer target [7] a"
  define t where "t = ?s\<lparr>sv_loops := [a], sv_sup := (sv_sup ?s)\<lparr>sup_stats := ul_stats a\<rparr>\<rparr>"
  define u where "u = t\<lparr>sv_loops := [b], sv_sup := (sv_sup t)\<lparr>sup_stats := ul_stats b\<rparr>\<rparr>"
  have up: "sv_loops ?s = [l]" "sup_stats (sv_sup ?s) = ul_stats l" "sup_now (sv_sup ?s) = 0" "ul_now l = 0"
    by (simp_all add: udp_up_def l_def udp_start_def sv_check_def sup_check_def service_start_def supervise_start_def)
  have r: "udp_received ?ts peer [7] l = Some a"
    using assms by (simp add: a_def rr_def l_def udp_received_def udp_start_def lookup_def udp_pick_target_def Let_def)
  have "udp_step ?ts l a" by (rule udp_step.received [OF _ _ r]) (simp_all add: l_def udp_start_def)
  from udp_service.lone_work [OF up(1), of spec a] this up
  have "service_step ?f ?s t" by (simp add: t_def udp_fn_def view_def a_def)
  moreover have "udp_step ?ts a b" unfolding b_def by (rule udp_step.opened) (simp_all add: a_def l_def udp_start_def)
  from udp_service.lone_work [of t a spec b] this up
  have "service_step ?f t u"
    by (simp add: t_def u_def udp_fn_def view_def a_def b_def udp_opened_def open_session_def spawn_reverse_def Let_def)
  ultimately have "(service_step ?f)\<^sup>*\<^sup>* (service_start spec 0) u"
    using udp_up_steps [of spec] by (meson rtranclp.rtrancl_into_rtrancl)
  then show ?thesis
    by (intro exI [of _ u] exI [of _ b])
      (simp add: u_def b_def a_def l_def udp_start_def udp_opened_def open_session_def spawn_reverse_def Let_def)
qed

theorem udp_service_accounts_witness:
  "\<exists>s l. (service_step (udp_fn sample_spec))\<^sup>*\<^sup>* (service_start sample_spec 0) s \<and> sv_loops s = [l] \<and>
     lookup l sample_client = Some 0 \<and> st_active (sup_stats (sv_sup s)) = 1"
proof -
  have "l_targets sample_spec = ''a:1'' # [''b:2'']" by (simp add: sample_spec_def)
  from udp_first_client [OF this] obtain s l where
    s: "(service_step (udp_fn sample_spec))\<^sup>*\<^sup>* (service_start sample_spec 0) s" "sv_loops s = [l]"
    "ul_tasks l = [0 \<mapsto> \<lparr>rv_peer = sample_client, rv_target = ''a:1'', rv_phase = RevLoop 0\<rparr>]" by blast
  from udp_service_accounts [OF sample_targets s(1)] s show ?thesis
    by (intro exI [of _ s] exI [of _ l]) (auto simp: owns_def)
qed

text \<open>
  C23: A listener whose bind fails, however often and with whatever errors, comes up no later and no
  earlier than its backoffs say, over TCP and over UDP. In every run, a bind or a loop that was
  started at \<open>t\<close> has one pause of the supervisor behind it for each bind that failed, and \<open>t\<close> is at
  least the start of the service plus the time the failed attempts took plus the pauses, which are
  100, 200, 400, ... milliseconds, each capped at 5 seconds, as long as no attempt was healthy. And
  when the attempts fail at once and the next one succeeds, it can listen exactly then.
\<close>

theorem listener_comes_up:
  assumes "l_targets spec \<noteq> []"
  shows "paced (tcp_fn spec) spec \<and> paced (udp_fn spec) spec \<and>
     serves_after (tcp_fn spec) spec es (\<Sum>i<length es. min (100 * 2 ^ i) 5000) \<and>
     serves_after (udp_fn spec) spec es (\<Sum>i<length es. min (100 * 2 ^ i) 5000)"
  using tcp_service.service_paced [OF assms] udp_service.service_paced [OF assms]
    tcp_service.serves_afterI [of spec es] udp_service.serves_afterI [of spec es]
  by (simp add: BACKOFF_INITIAL_def BACKOFF_MAX_def)

theorem listener_comes_up_witness:
  "paced (tcp_fn sample_spec) sample_spec \<and> serves_after (tcp_fn sample_spec) sample_spec [refused, refused, refused] 700"
  using listener_comes_up [OF sample_targets, of "[refused, refused, refused]"] by (simp add: numeral_eq_Suc)

lemma tcp_service_stays:
  assumes "l_targets spec \<noteq> []" "(service_step (tcp_fn spec))\<^sup>*\<^sup>* (service_start spec now) s"
    "sv_task s = Looping" "(service_step (tcp_fn spec))\<^sup>*\<^sup>* s t" "\<not> sup_down (sv_sup t)"
  shows "sv_task t = Looping \<and> sv_fails t = sv_fails s \<and> sup_phase (sv_sup t) = sup_phase (sv_sup s) \<and>
     (\<exists>l. sv_loops t = [l] \<and> tl_listening l)"
proof -
  have "service_inv (tcp_fn spec) spec s" using tcp_service.supervised.inv_reachable [OF _ assms(2)] assms(1) by blast
  then have "bound_once (tcp_fn spec) spec s" using assms(3) by (auto simp: service_inv_def unbound_def Let_def)
  from tcp_service.looping_stays [OF assms(4,1) this assms(3,5)] show ?thesis
    by (auto simp: bound_once_def tcp_fn_def)
qed

lemma tcp_service_returns:
  assumes "l_targets spec \<noteq> []" "(service_step (tcp_fn spec))\<^sup>*\<^sup>* (service_start spec now) s" "sup_down (sv_sup s)"
  shows "\<exists>t. (service_step (tcp_fn spec))\<^sup>*\<^sup>* s t \<and> sup_phase (sv_sup t) = Returned \<and>
     (\<forall>l \<in> set (sv_loops t). \<not> tl_listening l) \<and> map tl_tasks (sv_loops t) = map tl_tasks (sv_loops s)"
proof -
  obtain t where t: "(service_step (tcp_fn spec))\<^sup>*\<^sup>* s t" "sup_phase (sv_sup t) = Returned"
    "sv_loops t = sv_loops s \<or> sv_loops t = sv_loops (stop_loop (tcp_fn spec) s)"
    using tcp_service.returns [OF assms(3)] by blast
  have "map tl_tasks (sv_loops (stop_loop (tcp_fn spec) s)) = map tl_tasks (sv_loops s)"
    by (auto simp: stop_loop_def tcp_fn_def split: list.split)
  moreover have "\<not> tl_listening l" if "l \<in> set (sv_loops t)" for l
    using tcp_service.returned_closed [OF assms(1) rtranclp_trans [OF assms(2) t(1)] t(2) that]
    by (simp add: tcp_fn_def)
  ultimately show ?thesis using t by metis
qed

text \<open>
  C24: A TCP listener that is up stays up until the shutdown and not longer: while the flag is not
  set the same loop runs under the same serve task, nothing is bound again and no failure is
  recorded, whatever the accepts, the connections and the clock do; from every later state with the
  flag set the supervisor can return, and then there is no listening socket, while the connections
  that were accepted are as they were: nobody waits for them.
\<close>

theorem tcp_service_until_shutdown:
  assumes "l_targets spec \<noteq> []" "(service_step (tcp_fn spec))\<^sup>*\<^sup>* (service_start spec now) s"
    "sv_task s = Looping" "(service_step (tcp_fn spec))\<^sup>*\<^sup>* s t"
  shows "if \<not> sup_down (sv_sup t)
     then sv_task t = Looping \<and> sv_fails t = sv_fails s \<and> sup_phase (sv_sup t) = sup_phase (sv_sup s) \<and>
       (\<exists>l. sv_loops t = [l] \<and> tl_listening l)
     else \<exists>u. (service_step (tcp_fn spec))\<^sup>*\<^sup>* t u \<and> sup_phase (sv_sup u) = Returned \<and>
       (\<forall>l \<in> set (sv_loops u). \<not> tl_listening l) \<and> map tl_tasks (sv_loops u) = map tl_tasks (sv_loops t)"
  using tcp_service_stays [OF assms] tcp_service_returns [OF assms(1) rtranclp_trans [OF assms(2,4)]] by simp

theorem tcp_service_until_shutdown_witness:
  "\<exists>s t l. (service_step (tcp_fn sample_spec))\<^sup>*\<^sup>* (service_start sample_spec 0) s \<and>
     sup_now (sv_sup s) = 1 \<and> sv_loops s = [l] \<and> tl_listening l \<and>
     (service_step (tcp_fn sample_spec))\<^sup>*\<^sup>* (s\<lparr>sv_sup := (sv_sup s)\<lparr>sup_down := True\<rparr>\<rparr>) t \<and>
     sup_phase (sv_sup t) = Returned \<and> (\<forall>l \<in> set (sv_loops t). \<not> tl_listening l)"
proof -
  let ?u = "tcp_up sample_spec 0"
  let ?s = "?u\<lparr>sv_sup := pass_time 1 (sv_sup ?u)\<rparr>"
  let ?d = "?s\<lparr>sv_sup := (sv_sup ?s)\<lparr>sup_down := True\<rparr>\<rparr>"
  note up = tcp_up_steps [of sample_spec 0]
  have l: "sv_task ?u = Looping" "\<not> sup_down (sv_sup ?s)" "sup_now (sv_sup ?s) = 1"
    by (simp_all add: tcp_up_def sv_check_def sup_check_def service_start_def supervise_start_def pass_time_def)
  have s: "(service_step (tcp_fn sample_spec))\<^sup>*\<^sup>* ?u ?s" by (intro r_into_rtranclp service_step.elapse)
  have d: "(service_step (tcp_fn sample_spec))\<^sup>*\<^sup>* ?u ?d"
    using s service_step.shut [of "tcp_fn sample_spec" ?s] by (rule rtranclp.rtrancl_into_rtrancl)
  have down: "sup_down (sv_sup ?d)" by simp
  note keep = tcp_service_until_shutdown [OF sample_targets up l(1) s]
  note leave = tcp_service_until_shutdown [OF sample_targets up l(1) d]
  obtain l t where "sv_loops ?s = [l]" "tl_listening l" "(service_step (tcp_fn sample_spec))\<^sup>*\<^sup>* ?d t"
    "sup_phase (sv_sup t) = Returned" "\<forall>l \<in> set (sv_loops t). \<not> tl_listening l"
    using keep leave l(2) down by meson
  with rtranclp_trans [OF up s] l(3) show ?thesis by blast
qed

end
