(* ===== verification/Spec2Isabelle.thy ===== *)
theory Spec2Isabelle
  imports Cli Config Chain Shutdown Stats Relay Supervisor Tcp Udp Nat_Linux App Lifecycle Nat_Lifecycle Service Unit_Tests
begin

text \<open>
  Gust, a TCP and UDP port forwarder in the style of GOST: verification library.

  \<^bold>\<open>The program.\<close> The command line (\<open>src/cli.rs\<close>) gives strings for listeners (\<open>-L\<close>) and proxy hops
  (\<open>-F\<close>) and tuning flags. \<open>src/config.rs\<close> parses the strings with \<open>src/node.rs\<close>, validates them and
  builds the configuration. \<open>src/main.rs\<close> and \<open>src/app.rs\<close> then run it in one of two modes. In
  userspace mode every listener runs under a supervisor (\<open>src/supervisor.rs\<close>) that restarts its
  serve loop: \<open>src/forward/tcp.rs\<close> accepts connections, dials the target whose turn it is
  (\<open>src/netopt.rs\<close>, or \<open>src/chain.rs\<close> and \<open>src/socks5.rs\<close> through SOCKS5 hops) and relays
  (\<open>src/relay.rs\<close>); \<open>src/forward/udp.rs\<close> keeps a table of per-client sessions with one reverse task
  each. In kernel NAT mode \<open>src/nat/linux.rs\<close> installs a ruleset through the \<open>nft\<close> program
  (\<open>src/nat/nftables.rs\<close>), reports its counters (\<open>src/nat/status.rs\<close>) and removes it again. A shutdown
  signal (\<open>src/runtime.rs\<close>, \<open>src/signals.rs\<close>) ends both; \<open>src/stats.rs\<close> counts.

  \<^bold>\<open>Language and library layer.\<close>
  \<^item> \<open>Gust_Prelude\<close>: machine-integer types, \<open>Result\<close> as a sum with its inversion rules, \<open>try_map\<close>, and
    the two generic interfaces \<open>codec\<close> (printing and parsing back) and \<open>machine\<close> (initial states, a
    step relation and an invariant that every step keeps).
  \<^item> \<open>Rust_Text\<close>, \<open>Rust_Num\<close>, \<open>Rust_Utf8\<close>, \<open>Rust_Net\<close>: the operations of \<open>str\<close>, integer printing and
    parsing, \<open>from_utf8_lossy\<close>, and \<open>std::net\<close> addresses with their text, as far as the program uses them.
    Strings are byte strings in UTF-8.
  \<^item> \<open>Utf8_Text\<close>: the type invariant of \<open>str\<close>. Cutting in front of a byte that is not a continuation byte
    is a character boundary, so every slice the program takes is legal and every string operation
    keeps well-formed UTF-8.
  \<^item> \<open>Ipv6_Text\<close>: IPv6 addresses, with their compressed run of zeros or embedded IPv4 address, are read
    back as printed, alone and in a socket address.
  \<^item> \<open>Rust_Io\<close>: \<open>io::Error\<close>, the state-and-error monad \<open>eff\<close>, and the interfaces \<open>byte_stream\<close> and
    \<open>healthy_stream\<close> of an asynchronous byte stream with a scripted peer that provides them.
  \<^item> \<open>Printing\<close>: how the process ends, with what is printed, and that a print that fails is a panic.

  \<^bold>\<open>Components.\<close>
  \<^item> \<open>Node\<close> (\<open>src/node.rs\<close>): \<open>parse_node\<close> and the accessors of \<open>Node\<close>, every parse error a value with
    its message. A printer \<open>render_node\<close> is the reference: whatever it prints parses back. Node fields
    and messages are well-formed UTF-8 when the input is.
  \<^item> \<open>Cli\<close> (\<open>src/cli.rs\<close>): the argument scanner \<open>parse_args\<close> with \<open>flag_step\<close> for one flag. Rendered
    command lines scan back; the spellings of a flag are equivalent; the usage text documents exactly
    the flags the scanner knows.
  \<^item> \<open>Config\<close> (\<open>src/config.rs\<close>): \<open>build_config\<close>. The invariant \<open>wf_config\<close> holds of every accepted
    configuration, its strings are UTF-8, and the startup validator agrees with the splitter used at
    dial time. The message of a rejected rule quotes that rule.
  \<^item> \<open>Netopt\<close> (\<open>src/netopt.rs\<close>, \<open>src/constants.rs\<close>): dialing as a trace of system calls answered by an
    arbitrary operating system; the interface \<open>scripted\<close> gives the order of the calls and that the
    first failure ends them.
  \<^item> \<open>Socks5\<close> (\<open>src/socks5.rs\<close>): the handshake on any \<open>byte_stream\<close>: what is written and consumed when it
    succeeds, that it succeeds when the server behaves, that credentials are only sent on demand.
  \<^item> \<open>Chain\<close> (\<open>src/chain.rs\<close>, \<open>Dialer\<close> and \<open>Context\<close> of \<open>src/runtime.rs\<close>): the interfaces \<open>tunnel_env\<close> and
    \<open>working_tunnel\<close> extend those of the streams by the handshake timer; one conversation per hop, and
    where and why a dial fails, the limits of the protocol that are only met then included.
  \<^item> \<open>Shutdown\<close> (\<open>Shutdown\<close> of \<open>src/runtime.rs\<close>, \<open>src/signals.rs\<close>): over the interface \<open>watch_channel\<close>.
  \<^item> \<open>Stats\<close> (\<open>src/stats.rs\<close>): 64-bit counters under any interleaving of updates.
  \<^item> \<open>Relay\<close> (\<open>src/relay.rs\<close>): the two copy loops as a step relation \<open>transport\<close>; prefix delivery,
    complete delivery on success, termination.
  \<^item> \<open>Supervisor\<close> (\<open>src/supervisor.rs\<close>): the restart loop as a step relation with a clock; backoff
    bounds, restarts after every failure, spacing of restarts, shutdown.
  \<^item> \<open>Round_Robin\<close>, \<open>Tcp\<close>, \<open>Udp\<close> (\<open>src/forward\<close>): target selection as an interface provided by both
    forwarders; the accept loop with its tasks; the session table with its reverse tasks, every step
    of which is a step of the relation \<open>translation\<close>, in which no client is moved; the receive loop as
    the plain forwarder \<open>fw_datagram\<close>, datagram by datagram; isolation of the clients.
  \<^item> \<open>Nftables\<close>, \<open>Nat_Status\<close>, \<open>Nat_Linux\<close> (\<open>src/nat\<close>): the ruleset text, whose nested blocks \<open>read_blocks\<close>
    reads without skipping a line, the counters of any listing that says the rules through the
    operations of the JSON library, and the life of a run over the interface \<open>nat_host\<close>, in which every
    call on the host can fail: a run gives the host back (\<open>gives_back\<close>) except for what a call that
    failed and was logged should have done.
  \<^item> \<open>Logging\<close> (\<open>src/logging.rs\<close>): which logger the process gets; set once, at the level of \<open>RUST_LOG\<close> or
    else of \<open>-D\<close>.
  \<^item> \<open>App\<close> (\<open>src/app.rs\<close>, \<open>src/main.rs\<close>): launching, heartbeats, dispatch, exit codes, what is printed and
    what panics.
  \<^item> \<open>Service\<close> (\<open>spawn_listener\<close> of \<open>src/app.rs\<close>): a supervisor, the serve task it starts and the tasks that
    the loop spawns, as one step relation \<open>service_step\<close> over their shared counters. The interface
    \<open>serve_loop\<close> is what the supervisor relies on and is provided by TCP and UDP: until a bind succeeds
    only failures are counted, then there is one loop until the shutdown, in a state the loop reaches
    on its own, so what \<open>Tcp\<close> and \<open>Udp\<close> show of a loop holds for the life of the listener. A history of
    the measured run times, which no step reads, says how early a restart can be (\<open>paced\<close>).
  \<^item> \<open>Lifecycle\<close> (\<open>run_userspace\<close> of \<open>src/app.rs\<close> with the task of \<open>src/signals.rs\<close>): the main task, the
    shutdown task, the heartbeat and the supervisors (by their own steps \<open>sup_own\<close>, with one clock and one
    flag) as one step relation \<open>app_step\<close>: each supervisor behaves as if it were alone, the program leaves only after a signal, a signal that arrives while
    it waits ends it within the drain, one that arrives too early makes it deaf.
  \<^item> \<open>Nat_Lifecycle\<close> (\<open>run\<close> of \<open>src/nat/linux.rs\<close>): the NAT run in small steps \<open>nat_step\<close>, one for every call
    on the host, over the interface \<open>listing_host\<close> that extends \<open>nat_host\<close>: the steps add up to
    \<open>nat_run\<close>, what a kill or crash between any two of them leaves behind is bounded, and a signal
    while the program waits gives the host back; a signal before the handlers are there does not.
  \<^item> \<open>Unit_Tests\<close>: the unit tests inside the source files as booleans over the same definitions, all
    evaluated; the servers of the SOCKS5 tests are scripts that answer only what they have read.
  \<^item> This theory: the properties that span components, from the command line or the configuration to
    launched listeners, forwarded connections and installed rules.

  \<^bold>\<open>Concurrency, clocks and bounds.\<close> Tasks are interleaved: a step of a relation is what one task does
  between suspension points or one access to shared state, and every theorem about a listener, the
  supervisor or the relay holds for all interleavings. The UDP receive loop handles a datagram in up
  to three steps (lookup, opening a socket, sending) between which the reverse tasks run; in the
  relay, every single write inside \<open>write_all\<close> is a step of its own, so a direction may be cancelled in
  the middle of a chunk. Clocks are natural numbers of milliseconds that
  may advance at any time. The only schedules that are given as lists are those of \<open>run_transport\<close>
  (to evaluate a relay); \<open>relay_terminates\<close> says how long a schedule is enough. Every recursion is
  structural or has a termination proof, so there is no fuel. What can be reached is stated for the
  reflexive transitive closure of a step relation; that a state can be left is shown by giving the run. Counters keep their width (\<open>u64\<close>,
  \<open>usize\<close> taken as 64 bits) and wrap as in the release build.

  \<^bold>\<open>Parameters.\<close> The operating system (\<open>os\<close>), the resolver (\<open>dns\<close>), the byte streams, the handshake
  timer, the \<open>watch\<close> channel, the JSON library, the \<open>nft\<close> program, the files of the host, whether the
  standard streams take a text and whether the runtime is built are arguments, as are the filters of the logger; where a theorem relies on their documented behaviour it assumes the interface by name,
  and each interface is interpreted on executable definitions with which the witnesses evaluate.

  \<^bold>\<open>Not modelled.\<close> \<open>src/lib.rs\<close> and \<open>src/forward/mod.rs\<close> (module declarations, no code), log output
  other than the status and heartbeat lines and the outcomes of the NAT cleanup (so \<open>proto_name\<close>, which only serves such a line), the text
  of a panic, a log record that cannot be written, the allocator choice of \<open>src/main.rs\<close>, socket options on hosts other than Linux, and the
  asynchronous runtime itself. The getters of \<open>ListenerStats\<close> are the selectors of its record, and
  \<open>mono_ms\<close> is the clock of the UDP state; noting the activity of a session and sending its datagram
  are one step, \<open>forward_datagram\<close>. In \<open>Lifecycle\<close> registering the signal handlers succeeds;
  \<open>shutdown_task\<close> has the branches where it fails. In \<open>Service\<close> a loop that has been told to stop may
  still take a step before it does, which the relation allows for every loop that listens.
\<close>

section \<open>From the configuration to a connection\<close>

lemma configured_listener:
  assumes "build_config raw = Inr cfg" "l \<in> set (c_listeners cfg)"
  shows "l_targets l \<noteq> []" "\<And>t. t \<in> set (l_targets l) \<Longrightarrow> splittable t"
  using build_config_wf [OF assms(1)] assms(2) unfolding wf_config_def wf_listener_def list_all_iff by blast+

lemma configured_buffer: "build_config raw = Inr cfg \<Longrightarrow> 0 < c_buf_size cfg"
proof -
  assume "build_config raw = Inr cfg"
  then have "1024 \<le> unat (c_buf_size cfg)" using build_config_wf unfolding wf_config_def by blast
  then show ?thesis by (cases "c_buf_size cfg = 0") (auto simp: word_neq_0_conv)
qed

lemma dialer_connect_total: "\<exists>run. dialer_connect env d target = Some run"
  by (cases "d_chain d") (simp_all add: dialer_connect_def dial_def)

lemma handle_conn_total: "\<exists>r. handle_conn env ctx client target sched tr = Some r"
  using dialer_connect_total [of env "ctx_dialer ctx" target]
  by (auto simp: handle_conn_def split: prod.split sum.split)

lemma context_sel [simp]:
  "ctx_buf_size (build_context cfg) = c_buf_size cfg"
  "d_chain (ctx_dialer (build_context cfg)) = c_chain cfg"
  "d_mark (ctx_dialer (build_context cfg)) = c_mark cfg"
  "d_sock (ctx_dialer (build_context cfg)) = c_sock cfg"
  by (simp_all add: build_context_def dialer_new_def)

text \<open>
  C1: A connection to a listener of an accepted configuration is forwarded to the target whose turn
  it is. Connection number \<open>i\<close> is handled for target \<open>i\<close> modulo the number of targets, handling it
  never panics, and when it ends without an error, one complete SOCKS5 conversation per configured
  hop was held over the one TCP connection that was opened, the last one asking for that target;
  after them either everything the client sent was written to the backend, or everything the
  backend sent was written to the client. No handshake byte reaches the client and none is mixed
  into the payload.
\<close>

theorem configured_connection_forwards:
  assumes "build_config raw = Ok cfg" "l \<in> set (c_listeners cfg)"
    and "(service_step (tcp_fn l))\<^sup>*\<^sup>* (service_start l now) s" "k \<in> set (sv_loops s)" "tl_tasks k i = Some task"
    and "tunnel_env env inbox outbox"
  shows "\<exists>r tr'. handle_conn env (build_context cfg) client (task_target task) sched tr = Some (r, tr') \<and>
     (conn_result r = Some (Ok ()) \<longrightarrow>
        (\<exists>x convs payload. r = Ok x \<and>
           list_all2 conversation
             (zip (c_chain cfg)
                (map h_addr (tl (c_chain cfg)) @ [l_targets l ! (i mod 2 ^ 64 mod length (l_targets l))])) convs \<and>
           inbox (e_conn env tr') = concat (map snd convs) @ payload \<and>
           ((inbox (side_a x) = [] \<and>
             outbox (side_b x) = outbox (e_conn env tr') @ concat (map fst convs) @ inbox client) \<or>
            (inbox (side_b x) = [] \<and> outbox (side_a x) = outbox client @ payload))))"
proof -
  have ts: "l_targets l \<noteq> []" by (rule configured_listener [OF assms(1,2)])
  have tg: "task_target task = l_targets l ! (i mod 2 ^ 64 mod length (l_targets l))"
    using tcp_service_inv [OF ts assms(3,4)] tcp_inv_task [of "l_targets l" _ i task] assms(5) by fastforce
  obtain r tr' where h: "handle_conn env (build_context cfg) client (task_target task) sched tr = Some (r, tr')"
    using handle_conn_total [of env "build_context cfg" client "task_target task" sched tr] by auto
  show ?thesis
  proof (cases r)
    case (Inl e)
    with h show ?thesis by (auto simp: conn_result_def)
  next
    case (Inr x)
    have "0 < ctx_buf_size (build_context cfg)" using configured_buffer [OF assms(1)] by simp
    from handle_conn_forwards [OF assms(6) this h [unfolded Inr]] Inr h show ?thesis
      unfolding tg context_sel zip_asked by fastforce
  qed
qed

definition sample_chained :: raw_args where
  "sample_chained = raw_default
     \<lparr>r_listens := [''tcp://:80/db:1,1.2.3.4:80''],
      r_forwards := [''socks5://10.0.0.1:1080'', ''socks5://u:p@10.0.0.2:1080'']\<rparr>"

definition sample_cfg :: config where
  "sample_cfg = projr (build_config sample_chained)"

definition sample_listener :: listener_spec where
  "sample_listener = hd (c_listeners sample_cfg)"

definition sample_client_stream :: stream where
  "sample_client_stream = sample_proxy [104, 105]"

lemma sample_chained_config:
  "build_config sample_chained = Ok sample_cfg" "sample_listener \<in> set (c_listeners sample_cfg)"
  "l_targets sample_listener = [''db:1'', ''1.2.3.4:80'']" "c_chain sample_cfg = sample_hops"
  by code_simp+

theorem configured_connection_forwards_witness:
  "\<exists>x tr' convs.
     handle_conn sample_env (build_context sample_cfg) sample_client_stream ''1.2.3.4:80'' [True, True, True] [] =
       Some (Ok x, tr') \<and>
     list_all2 conversation (zip sample_hops [''10.0.0.2:1080'', ''1.2.3.4:80'']) convs \<and>
     tx (side_b x) = concat (map fst convs) @ [104, 105]"
proof -
  let ?ts = "l_targets sample_listener" and ?l = "tcp_start (stats_new (l_name sample_listener) (proto_as_str (l_proto sample_listener)))"
  let ?a = "the (tcp_accept ?ts ?l)" let ?b = "the (tcp_accept ?ts ?a)" let ?s = "tcp_up sample_listener 0"
  let ?h = "handle_conn sample_env (build_context sample_cfg) sample_client_stream ''1.2.3.4:80'' [True, True, True] []"
  have acc: "tcp_accept ?ts ?l = Some ?a" "tcp_accept ?ts ?a = Some ?b"
    by (simp_all add: tcp_start_def tcp_accept_def pick_target_def sample_chained_config)
  have up: "sv_loops ?s = [?l]" "tl_listening ?l" "tl_stats ?l = sup_stats (sv_sup ?s)"
    by (simp_all add: tcp_up_def tcp_start_def sv_check_def sup_check_def service_start_def supervise_start_def)
  note first = tcp_accept_work [OF up(1,2) acc(1) up(3)]
  have "service_step (tcp_fn sample_listener) (?s\<lparr>sv_loops := [?a]\<rparr>) (?s\<lparr>sv_loops := [?a], sv_loops := [?b]\<rparr>)"
    by (rule tcp_accept_work(1) [OF _ first(2) acc(2)]) (use first(3) up(3) in simp_all)
  with first(1) tcp_up_steps [of sample_listener 0]
  have steps: "(service_step (tcp_fn sample_listener))\<^sup>*\<^sup>* (service_start sample_listener 0) (?s\<lparr>sv_loops := [?b]\<rparr>)"
    by (simp add: rtranclp.rtrancl_into_rtrancl)
  have task: "tl_tasks ?b 1 = Some (Spawned ''1.2.3.4:80'')" "?b \<in> set (sv_loops (?s\<lparr>sv_loops := [?b]\<rparr>))"
    by (simp_all add: tcp_start_def tcp_accept_def pick_target_def sample_chained_config)
  have env: "tunnel_env sample_env rx tx"
    unfolding sample_env_def by (rule scripted_tunnel.tunnel_env_axioms)
  have run: "(case ?h of
      Some (Inr x, tr) \<Rightarrow> conn_result (Ok x) = Some (Ok ()) \<and> rx (side_b x) = [9]
    | _ \<Rightarrow> False)" by code_simp
  obtain x tr' where h: "?h = Some (Ok x, tr')" and ok: "conn_result (Ok x) = Some (Ok ())" "rx (side_b x) = [9]"
    using run by (auto split: option.splits sum.splits)
  from configured_connection_forwards [OF sample_chained_config(1,2) steps task(2,1) env,
      of sample_client_stream "[True, True, True]" "[]"] h ok
  show ?thesis
    by (auto simp: sample_chained_config sample_env_def sample_client_stream_def sample_proxy_def
        sample_hops_def)
qed

text \<open>
  C34: Where dialing for an accepted configuration can fail, and why. The error comes from the TCP dial
  of the first address, or from the handshake with one hop, after a complete conversation with every
  hop before it on the same connection; that hop was asked for its own next address, which splits
  into host and port: the address strings, checked at startup, never fail at connection time. The
  handshake fails by its timer, by the stream or by what the hop answered, or by a limit of the
  protocol that is not checked at startup: a host name of more than 255 bytes, or a user name or
  password of more than 255 bytes.
\<close>

theorem configured_dial_errors:
  assumes "build_config raw = Ok cfg" "l \<in> set (c_listeners cfg)" "target \<in> set (l_targets l)"
    and "tunnel_env env inbox outbox"
    and "dialer_connect env (ctx_dialer (build_context cfg)) target = Some run" "run tr = (Err e, tr')"
  shows "fst (dial_tcp (e_os env) (e_dns env) (if c_chain cfg = [] then target else h_addr (hd (c_chain cfg)))
       DIAL_TIMEOUT (c_mark cfg) (c_sock cfg) tr) = Err e \<or>
     (\<exists>i host port convs s. i < length (c_chain cfg) \<and>
        split_host_port ((map h_addr (tl (c_chain cfg)) @ [target]) ! i) = Ok (host, port) \<and>
        list_all2 conversation (take i (zip (c_chain cfg) (map h_addr (tl (c_chain cfg)) @ [target]))) convs \<and>
        inbox (e_conn env tr') = concat (map snd convs) @ inbox s \<and>
        outbox s = outbox (e_conn env tr') @ concat (map fst convs) \<and>
        fst (hop_handshake env (c_chain cfg ! i) host port s) = Err e \<and>
        handshake_error env (c_chain cfg ! i) host e)"
proof -
  have "list_all (\<lambda>h. splittable (h_addr h)) (c_chain cfg)"
    using build_config_wf [OF assms(1)] unfolding wf_config_def by blast
  with tunnel_env.dialer_Err [OF assms(4-6)] configured_listener(2) [OF assms(1,2,3)] show ?thesis
    unfolding context_sel by blast
qed

text \<open>A second hop that answers with the refusal 5, after the first one has tunnelled to it.\<close>

definition refusing_hop :: "stream net_env" where
  "refusing_hop =
     scripted_env (\<lambda>_ _. SysOk) (\<lambda>_. Ok [])
       (sample_proxy ([5, 0] @ [5, 0, 0, 1, 0, 0, 0, 0, 0, 0] @ [5, 2, 1, 0] @ [5, 5, 0, 1]))"

theorem configured_dial_errors_witness:
  "\<exists>i host port. i < length (c_chain sample_cfg) \<and>
     split_host_port ((map h_addr (tl (c_chain sample_cfg)) @ [''db:1'']) ! i) = Ok (host, port) \<and>
     handshake_error refusing_hop (c_chain sample_cfg ! i) host (reply_err 5)"
proof -
  let ?run = "the (dialer_connect refusing_hop (ctx_dialer (build_context sample_cfg)) ''db:1'')"
  have d: "dialer_connect refusing_hop (ctx_dialer (build_context sample_cfg)) ''db:1'' = Some ?run"
    using dialer_connect_total [of refusing_hop "ctx_dialer (build_context sample_cfg)" "''db:1''"] by auto
  have "fst (?run []) = Err (reply_err 5)" by code_simp
  then have r: "?run [] = (Err (reply_err 5), snd (?run []))" by (metis prod.collapse)
  have t: "''db:1'' \<in> set (l_targets sample_listener)" by (simp add: sample_chained_config)
  have env: "tunnel_env refusing_hop rx tx"
    unfolding refusing_hop_def by (rule scripted_tunnel.tunnel_env_axioms)
  have "\<not> isl (fst (dial_tcp (e_os refusing_hop) (e_dns refusing_hop) (if c_chain sample_cfg = [] then ''db:1'' else h_addr (hd (c_chain sample_cfg)))
      DIAL_TIMEOUT (c_mark sample_cfg) (c_sock sample_cfg) []))" by code_simp
  then have n: "fst (dial_tcp (e_os refusing_hop) (e_dns refusing_hop) (if c_chain sample_cfg = [] then ''db:1'' else h_addr (hd (c_chain sample_cfg)))
      DIAL_TIMEOUT (c_mark sample_cfg) (c_sock sample_cfg) []) \<noteq> Err (reply_err 5)" by (metis isl_def)
  from configured_dial_errors [OF sample_chained_config(1,2) t env d r] n show ?thesis by blast
qed

text \<open>
  C2: The clients of a UDP listener of an accepted configuration: there are no proxy hops, so the
  listener sends directly; a client that has a target has one of the configured ones, an address
  that splits; whatever happens next to the service (a bind, a datagram, a reply, an error, a
  timeout, the clock, the shutdown), the table of clients and targets changes by at most one client
  that is given a target or forgotten, so that no client is ever moved from one target to another;
  and everything ever sent on one outbound socket and every reply passed back from it belong to the
  same client.
\<close>

theorem configured_udp_clients:
  assumes "build_config raw = Ok cfg" "l \<in> set (c_listeners cfg)" "l_proto l = Udp"
    and "(service_step (udp_fn l))\<^sup>*\<^sup>* (service_start l now) s" "k \<in> set (sv_loops s)"
  shows "c_chain cfg = [] \<and>
     (\<forall>peer target. table_of k peer = Some target \<longrightarrow> target \<in> set (l_targets l) \<and> splittable target) \<and>
     (\<forall>t k'. service_step (udp_fn l) s t \<and> k' \<in> set (sv_loops t) \<longrightarrow>
        translation (l_targets l) (table_of k) (table_of k') \<and>
        (\<forall>peer target target'. table_of k peer = Some target \<and> table_of k' peer = Some target' \<longrightarrow> target' = target)) \<and>
     (\<forall>e \<in> set (ul_sent k). \<forall>e' \<in> set (ul_sent k). ev_out e = ev_out e' \<longrightarrow> ev_client e = ev_client e')"
proof -
  note ts = configured_listener [OF assms(1,2)]
  note c = udp_service_clients [OF ts(1) assms(4,5)]
  have "c_chain cfg = []" using build_config_wf [OF assms(1)] assms(2,3) unfolding wf_config_def by (auto simp: list_all_iff)
  moreover have "target \<in> set (l_targets l) \<and> splittable target" if "table_of k peer = Some target" for peer target
    using c(1) [OF that] ts(2) by blast
  moreover have "translation (l_targets l) (table_of k) (table_of k')"
    if "service_step (udp_fn l) s t" "k' \<in> set (sv_loops t)" for t k'
    by (rule udp_service_translates [OF ts(1) assms(4,5) that])
  ultimately show ?thesis using c(2) translation_keeps by blast
qed

definition sample_udp :: raw_args where
  "sample_udp = raw_default\<lparr>r_listens := [''udp://:53/9.9.9.9:53,db:53'']\<rparr>"

definition sample_udp_cfg :: config where
  "sample_udp_cfg = projr (build_config sample_udp)"

lemma sample_udp_config:
  "build_config sample_udp = Ok sample_udp_cfg"
  "hd (c_listeners sample_udp_cfg) \<in> set (c_listeners sample_udp_cfg)"
  "l_proto (hd (c_listeners sample_udp_cfg)) = Udp"
  "l_targets (hd (c_listeners sample_udp_cfg)) = ''9.9.9.9:53'' # [''db:53'']"
  by code_simp+

theorem configured_udp_clients_witness:
  "\<exists>s k. (service_step (udp_fn (hd (c_listeners sample_udp_cfg))))\<^sup>*\<^sup>* (service_start (hd (c_listeners sample_udp_cfg)) 0) s \<and>
     sv_loops s = [k] \<and> table_of k sample_client = Some ''9.9.9.9:53'' \<and> splittable ''9.9.9.9:53'' \<and>
     c_chain sample_udp_cfg = []"
proof -
  obtain s k where s: "(service_step (udp_fn (hd (c_listeners sample_udp_cfg))))\<^sup>*\<^sup>*
      (service_start (hd (c_listeners sample_udp_cfg)) 0) s" "sv_loops s = [k]"
    "ul_sessions k = [sample_client \<mapsto> \<lparr>ss_out = 0\<rparr>]"
    "ul_tasks k = [0 \<mapsto> \<lparr>rv_peer = sample_client, rv_target = ''9.9.9.9:53'', rv_phase = RevLoop 0\<rparr>]"
    using udp_first_client [OF sample_udp_config(4)] by blast
  have k: "k \<in> set (sv_loops s)" using s(2) by simp
  have t: "table_of k sample_client = Some ''9.9.9.9:53''" using s(3,4) by (simp add: table_of_def lookup_def)
  from configured_udp_clients [OF sample_udp_config(1-3) s(1) k] s t show ?thesis by blast
qed

definition listener_of :: "protocol \<Rightarrow> node \<Rightarrow> u16 \<Rightarrow> listener_spec" where
  "listener_of pr n p =
     \<lparr>l_proto = pr, l_bind = (if n_host n = [] then ''0.0.0.0'' else n_host n) @ '':'' @ show_u16 p,
      l_port = p, l_targets = targets n, l_nodelay = listener_nodelay n, l_name = listener_name pr n p\<rparr>"

definition listens_ok :: "(protocol \<times> node \<times> (string \<times> string) list \<times> u16) \<Rightarrow> bool" where
  "listens_ok = (\<lambda>(pr, n, qs, p).
     wf_node n qs \<and> n_scheme n = proto_as_str pr \<and> n_port n = Some p \<and> targets n \<noteq> [] \<and>
     list_all splittable (targets n))"

lemma build_listeners_text:
  assumes "list_all listens_ok xs"
  shows "try_map build_listener (map (\<lambda>(pr, n, qs, p). render_node n qs) xs) =
     Inr (map (\<lambda>(pr, n, qs, p). listener_of pr n p) xs)"
  unfolding try_map_Inr_iff list_all2_conv_all_nth
  using assms build_listener_text
  by (auto simp: listens_ok_def listener_of_def list_all_length split: prod.split)

lemma parse_listens:
  "parse_args (map (\<lambda>v. ''-L='' @ v) vs) = Ok (Run (raw_default\<lparr>r_listens := vs\<rparr>))"
proof -
  have "map (\<lambda>v. ''-L='' @ v) vs = map (\<lambda>v. dashed 1 (''L'' @ CHR ''='' # v)) vs @ []"
    by (simp add: dashed_def)
  then show ?thesis
    unfolding parse_args_def by (simp only: parse_loop_listens) (simp add: raw_default_def)
qed

text \<open>
  C18: What the operator writes is what is launched: nodes given with \<open>-L\<close>, with a known protocol, a
  port and destinations, and no bind address used twice for one protocol, become exactly these
  listeners, in order; each is launched under its own supervisor with fresh counters, and without
  further flags there is no chain and no kernel NAT. An empty host binds all interfaces.
\<close>

theorem listener_from_command_line:
  assumes "xs \<noteq> []" "list_all listens_ok xs"
    and "distinct (map (\<lambda>l. (l_proto l, l_bind l)) (map (\<lambda>(pr, n, qs, p). listener_of pr n p) xs))"
  shows "\<exists>raw cfg. parse_args (map (\<lambda>(pr, n, qs, p). ''-L='' @ render_node n qs) xs) = Ok (Run raw) \<and>
     build_config raw = Ok cfg \<and> c_chain cfg = [] \<and> c_mode cfg = Userspace \<and>
     c_listeners cfg = map (\<lambda>(pr, n, qs, p). listener_of pr n p) xs \<and>
     run_userspace cfg now =
       (build_context cfg,
        map (\<lambda>l. stats_new (l_name l) (proto_as_str (l_proto l))) (c_listeners cfg),
        map (\<lambda>l. ((case l_proto l of Tcp \<Rightarrow> ServeTcp l | Udp \<Rightarrow> ServeUdp l),
                  supervise_start (stats_new (l_name l) (proto_as_str (l_proto l))) now)) (c_listeners cfg), 0)"
proof -
  let ?vs = "map (\<lambda>(pr, n, qs, p). render_node n qs) xs"
  let ?ls = "map (\<lambda>(pr, n, qs, p). listener_of pr n p) xs"
  let ?raw = "raw_default\<lparr>r_listens := ?vs\<rparr>"
  have args: "map (\<lambda>(pr, n, qs, p). ''-L='' @ render_node n qs) xs = map (\<lambda>v. ''-L='' @ v) ?vs"
    by (simp add: case_prod_unfold)
  have cc: "cross_checks Userspace ?ls [] = Inr ()" unfolding cross_checks_Ok using assms(3) by simp
  have raw: "r_listens ?raw = ?vs" "r_forwards ?raw = []" "\<not> r_nat ?raw" "r_buf_size_kb ?raw = None"
    "r_mark ?raw = None" "r_worker_threads ?raw = None" by (simp_all add: raw_default_def)
  have "\<exists>cfg. build_config ?raw = Ok cfg \<and> c_chain cfg = [] \<and> c_mode cfg = Userspace \<and> c_listeners cfg = ?ls"
    using assms(1) build_listeners_text [OF assms(2)] cc
    unfolding build_config_def raw by (simp add: raw_default_def config_mark_def MIN_BUF_KB_def MAX_BUF_KB_def)
  moreover have "parse_args (map (\<lambda>(pr, n, qs, p). ''-L='' @ render_node n qs) xs) = Ok (Run ?raw)"
    unfolding args by (rule parse_listens)
  ultimately show ?thesis
    unfolding launch_every_listener by (auto simp: build_context_def dialer_new_def)
qed

definition sample_listens :: "(protocol \<times> node \<times> (string \<times> string) list \<times> u16) list" where
  "sample_listens =
     [(Udp, \<lparr>n_scheme = ''udp'', n_user = None, n_pass = None, n_host = [], n_port = Some 5300,
             n_target = ''8.8.8.8:53,9.9.9.9:53'', n_query = Map.empty\<rparr>, [], 5300),
      (Tcp, \<lparr>n_scheme = ''tcp'', n_user = None, n_pass = None, n_host = ''h'', n_port = Some 80,
             n_target = ''db:1'', n_query = Map.empty\<rparr>, [], 80)]"

theorem listener_from_command_line_witness:
  "\<exists>raw cfg. parse_args [''-L=udp://:5300/8.8.8.8:53,9.9.9.9:53'', ''-L=tcp://h:80/db:1''] = Ok (Run raw) \<and>
     build_config raw = Ok cfg \<and> map l_bind (c_listeners cfg) = [''0.0.0.0:5300'', ''h:80''] \<and>
     map l_targets (c_listeners cfg) = [[''8.8.8.8:53'', ''9.9.9.9:53''], [''db:1'']]"
proof -
  have ne: "sample_listens \<noteq> []" by (simp add: sample_listens_def)
  have t: "map (\<lambda>(pr, n, qs, p). targets n) sample_listens = [[''8.8.8.8:53'', ''9.9.9.9:53''], [''db:1'']]"
    "list_all (\<lambda>(pr, n, qs, p). list_all splittable (targets n)) sample_listens" by code_simp+
  have ok: "list_all listens_ok sample_listens"
    using t by (auto simp: sample_listens_def listens_ok_def wf_node_def graphic_def to_ascii_lowercase_def lower_char_def)
  have b: "map l_bind (map (\<lambda>(pr, n, qs, p). listener_of pr n p) sample_listens) = [''0.0.0.0:5300'', ''h:80'']"
    by code_simp
  have d: "distinct (map (\<lambda>l. (l_proto l, l_bind l)) (map (\<lambda>(pr, n, qs, p). listener_of pr n p) sample_listens))"
    by (simp add: sample_listens_def listener_of_def)
  have a: "map (\<lambda>(pr, n, qs, p). ''-L='' @ render_node n qs) sample_listens =
      [''-L=udp://:5300/8.8.8.8:53,9.9.9.9:53'', ''-L=tcp://h:80/db:1'']" by code_simp
  have l: "map l_targets (map (\<lambda>(pr, n, qs, p). listener_of pr n p) sample_listens) =
      map (\<lambda>(pr, n, qs, p). targets n) sample_listens" by (simp add: sample_listens_def listener_of_def)
  obtain raw cfg where "parse_args [''-L=udp://:5300/8.8.8.8:53,9.9.9.9:53'', ''-L=tcp://h:80/db:1''] = Ok (Run raw)"
    "build_config raw = Ok cfg" and ls: "c_listeners cfg = map (\<lambda>(pr, n, qs, p). listener_of pr n p) sample_listens"
    using listener_from_command_line [OF ne ok d] unfolding a by blast
  moreover have "map l_bind (c_listeners cfg) = [''0.0.0.0:5300'', ''h:80'']" unfolding ls by (rule b)
  moreover have "map l_targets (c_listeners cfg) = [[''8.8.8.8:53'', ''9.9.9.9:53''], [''db:1'']]"
    unfolding ls l by (rule t)
  ultimately show ?thesis by (intro exI [of _ raw] exI [of _ cfg] conjI)
qed




end
